(* ===== verification/Nfs_Prelude.thy ===== *)
theory Nfs_Prelude
  imports Main "HOL-Library.Sublist"
begin

text \<open>
  Shared ground of the development: the outcome type of a C computation (a value or the reason
  why the C abstract machine has no defined next step), the weakest-precondition rules that carry
  the component proofs, the C string functions the sources call (\<^verbatim>\<open>strtok\<close>,
  \<^verbatim>\<open>strncmp\<close>, \<^verbatim>\<open>strstr\<close>, \<^verbatim>\<open>strrchr\<close>,
  \<^verbatim>\<open>snprintf\<close>, \<^verbatim>\<open>atoi\<close>, \<^verbatim>\<open>\%d\<close>) and lemmas about scanning and
  updating fixed arrays. A C string is the list of its bytes before the terminating NUL.
\<close>

named_theorems wp_simps \<open>weakest-precondition equations for outcomes\<close>

section \<open>Outcomes\<close>

datatype fault =
    NullDeref    \<comment> \<open>a NULL pointer is dereferenced\<close>
  | OutOfBounds  \<comment> \<open>an array or buffer is accessed outside its bounds\<close>
  | Blocked      \<comment> \<open>\<^verbatim>\<open>sem_wait\<close> on a semaphore with value 0: the thread never returns\<close>
  | Exited       \<comment> \<open>the process calls \<^verbatim>\<open>exit\<close>\<close>
  | Uninitialised  \<comment> \<open>the value of a variable that was never assigned is used\<close>
  | NoFuel       \<comment> \<open>a loop driven by a peer has used up the bound on its iterations\<close>

type_synonym 'a result = "fault + 'a"

definition andthen :: "'a result \<Rightarrow> ('a \<Rightarrow> 'b result) \<Rightarrow> 'b result" where
  "andthen m f = (case m of Inl e \<Rightarrow> Inl e | Inr x \<Rightarrow> f x)"

text \<open>\<open>ensures m Q\<close>: if the computation returns, its value satisfies \<open>Q\<close>.
  \<open>returns m Q\<close>: it returns, with a value that satisfies \<open>Q\<close>.\<close>

definition ensures :: "'a result \<Rightarrow> ('a \<Rightarrow> bool) \<Rightarrow> bool" where
  "ensures m Q = (case m of Inl e \<Rightarrow> True | Inr x \<Rightarrow> Q x)"

definition returns :: "'a result \<Rightarrow> ('a \<Rightarrow> bool) \<Rightarrow> bool" where
  "returns m Q = (case m of Inl e \<Rightarrow> False | Inr x \<Rightarrow> Q x)"

lemma andthen_simps [simp]:
  "andthen (Inl e) f = Inl e"
  "andthen (Inr x) f = f x"
  by (simp_all add: andthen_def)

lemma andthen_eq_Inr [simp]: "andthen m f = Inr y \<longleftrightarrow> (\<exists>x. m = Inr x \<and> f x = Inr y)"
  by (simp add: andthen_def split: sum.splits)

lemma andthen_assoc: "andthen (andthen m f) g = andthen m (\<lambda>x. andthen (f x) g)"
  by (simp add: andthen_def split: sum.splits)

lemma andthen_cong: "m = m' \<Longrightarrow> (\<And>x. m' = Inr x \<Longrightarrow> f x = g x) \<Longrightarrow> andthen m f = andthen m' g"
  by (cases m') simp_all

lemma ensures_simps [simp, wp_simps]:
  "ensures (Inl e) Q \<longleftrightarrow> True"
  "ensures (Inr x) Q \<longleftrightarrow> Q x"
  "ensures (andthen m f) Q \<longleftrightarrow> ensures m (\<lambda>x. ensures (f x) Q)"
  by (simp_all add: ensures_def andthen_def split: sum.splits)

lemma returns_simps [simp, wp_simps]:
  "returns (Inl e) Q \<longleftrightarrow> False"
  "returns (Inr x) Q \<longleftrightarrow> Q x"
  "returns (andthen m f) Q \<longleftrightarrow> returns m (\<lambda>x. returns (f x) Q)"
  by (simp_all add: returns_def andthen_def split: sum.splits)

lemma ensures_mono: "ensures m P \<Longrightarrow> (\<And>x. P x \<Longrightarrow> Q x) \<Longrightarrow> ensures m Q"
  by (simp add: ensures_def split: sum.splits)

lemma returns_mono: "returns m P \<Longrightarrow> (\<And>x. P x \<Longrightarrow> Q x) \<Longrightarrow> returns m Q"
  by (simp add: returns_def split: sum.splits)

lemma returns_iff: "returns m Q \<longleftrightarrow> (\<exists>x. m = Inr x \<and> Q x)"
  by (simp add: returns_def split: sum.splits)

lemma ensures_iff: "ensures m Q \<longleftrightarrow> (\<forall>x. m = Inr x \<longrightarrow> Q x)"
  by (simp add: ensures_def split: sum.splits)

lemma returns_imp_ensures: "returns m Q \<Longrightarrow> ensures m Q"
  by (auto simp: returns_iff ensures_iff)

lemma ensures_conj: "ensures m P \<Longrightarrow> ensures m Q \<Longrightarrow> ensures m (\<lambda>x. P x \<and> Q x)"
  by (simp add: ensures_iff)

section \<open>Transition systems\<close>

text \<open>States reachable by labelled steps, and the contract of an invariant.\<close>

inductive reach :: "('s \<Rightarrow> bool) \<Rightarrow> ('s \<Rightarrow> 'l \<Rightarrow> 's \<Rightarrow> bool) \<Rightarrow> 's \<Rightarrow> bool"
  for init step where
  reach_init: "init s \<Longrightarrow> reach init step s"
| reach_step: "reach init step s \<Longrightarrow> step s l s' \<Longrightarrow> reach init step s'"

locale invariant_of =
  fixes init :: "'s \<Rightarrow> bool"
    and step :: "'s \<Rightarrow> 'l \<Rightarrow> 's \<Rightarrow> bool"
    and inv :: "'s \<Rightarrow> bool"
  assumes inv_init: "init s \<Longrightarrow> inv s"
    and inv_step: "inv s \<Longrightarrow> step s l s' \<Longrightarrow> inv s'"
begin

lemma inv_reach: "reach init step s \<Longrightarrow> inv s"
  by (induction rule: reach.induct) (auto intro: inv_init inv_step)

end

section \<open>Scanning and updating fixed arrays\<close>

text \<open>The loop \<^verbatim>\<open>for (j = 0; j < n; j++) if (p(a[j])) break;\<close>: the first index that
  satisfies the test.\<close>

fun find_slot :: "('a \<Rightarrow> bool) \<Rightarrow> 'a list \<Rightarrow> nat option" where
  "find_slot p [] = None"
| "find_slot p (x # xs) = (if p x then Some 0 else map_option Suc (find_slot p xs))"

lemma find_slot_None: "find_slot p xs = None \<longleftrightarrow> (\<forall>x\<in>set xs. \<not> p x)"
  by (induction xs) auto

lemma find_slot_SomeD:
  "find_slot p xs = Some j \<Longrightarrow> j < length xs \<and> p (xs ! j) \<and> (\<forall>i<j. \<not> p (xs ! i))"
proof (induction xs arbitrary: j)
  case Nil
  then show ?case by simp
next
  case (Cons x xs)
  show ?case
  proof (cases "p x")
    case True
    with Cons.prems show ?thesis by simp
  next
    case False
    with Cons.prems obtain k where k: "find_slot p xs = Some k" "j = Suc k"
      by auto
    with Cons.IH [OF k(1)] False show ?thesis
      by (auto simp: nth_Cons split: nat.splits)
  qed
qed

lemma find_slot_Some_iff:
  "find_slot p xs = Some j \<longleftrightarrow> j < length xs \<and> p (xs ! j) \<and> (\<forall>i<j. \<not> p (xs ! i))"
proof
  assume r: "j < length xs \<and> p (xs ! j) \<and> (\<forall>i<j. \<not> p (xs ! i))"
  then have "find_slot p xs \<noteq> None" by (auto simp: find_slot_None)
  then obtain k where k: "find_slot p xs = Some k" by blast
  have "k = j"
    using find_slot_SomeD [OF k] r by (metis linorder_neqE_nat)
  with k show "find_slot p xs = Some j" by simp
qed (rule find_slot_SomeD)

lemma find_slot_update:
  assumes "j < length xs" "p (xs ! j) = p v"
  shows "find_slot p (xs[j := v]) = find_slot p xs"
  using assms
  by (induction xs arbitrary: j) (auto split: nat.splits)

text \<open>Counting the entries of an array that satisfy a test, under one update.\<close>

definition count_where :: "('a \<Rightarrow> bool) \<Rightarrow> 'a list \<Rightarrow> nat" where
  "count_where p xs = length (filter p xs)"

lemma count_where_simps [simp]:
  "count_where p [] = 0"
  "count_where p (x # xs) = (if p x then Suc (count_where p xs) else count_where p xs)"
  by (simp_all add: count_where_def)

lemma count_where_append [simp]: "count_where p (xs @ ys) = count_where p xs + count_where p ys"
  by (simp add: count_where_def)

lemma count_where_update:
  "j < length xs \<Longrightarrow>
   count_where p (xs[j := v]) + (if p (xs ! j) then 1 else 0) =
   count_where p xs + (if p v then 1 else 0)"
proof (induction xs arbitrary: j)
  case Nil
  then show ?case by simp
next
  case (Cons x xs)
  then show ?case by (cases j) (auto split: if_splits)
qed

lemma count_where_pos: "j < length xs \<Longrightarrow> p (xs ! j) \<Longrightarrow> 0 < count_where p xs"
  by (auto simp: count_where_def filter_empty_conv)

lemma count_where_upd:
  "j < length xs \<Longrightarrow>
   count_where p (xs[j := v]) = count_where p xs - (if p (xs ! j) then 1 else 0) + (if p v then 1 else 0)"
  using count_where_update [of j xs p v] count_where_pos [of j xs p] by (auto split: if_splits)

lemma count_where_map: "(\<And>x. p (f x) = p x) \<Longrightarrow> count_where p (map f xs) = count_where p xs"
  by (induction xs) auto


lemma count_where_0: "count_where p xs = 0 \<longleftrightarrow> (\<forall>x\<in>set xs. \<not> p x)"
  by (simp add: count_where_def filter_empty_conv)

lemma count_where_ex: "0 < count_where p xs \<longleftrightarrow> (\<exists>j<length xs. p (xs ! j))"
  by (auto simp: count_where_def filter_empty_conv in_set_conv_nth Bex_def)

lemma filter_neq_id [simp]: "k \<notin> set xs \<Longrightarrow> filter (\<lambda>y. y \<noteq> k) xs = xs"
  by (auto simp: filter_id_conv)

lemma in_set_tlD: "x \<in> set (tl xs) \<Longrightarrow> x \<in> set xs"
  by (cases xs) auto

section \<open>C strings\<close>

text \<open>The C string in a byte buffer: the bytes before the first NUL.\<close>

definition c_str :: "string \<Rightarrow> string" where
  "c_str s = takeWhile (\<lambda>c. c \<noteq> CHR 0x00) s"

lemma c_str_id [simp]: "CHR 0x00 \<notin> set s \<Longrightarrow> c_str s = s"
  by (auto simp: c_str_def takeWhile_eq_all_conv)

text \<open>\<^verbatim>\<open>strncmp(s, lit, strlen(lit)) == 0\<close>\<close>

definition starts_with :: "string \<Rightarrow> string \<Rightarrow> bool" where
  "starts_with lit s \<longleftrightarrow> take (length lit) s = lit"

lemma starts_with_prefix: "starts_with lit s \<longleftrightarrow> prefix lit s"
  by (auto simp: starts_with_def prefix_def) (metis append_take_drop_id)

text \<open>\<^verbatim>\<open>strstr(s, pat) != NULL\<close>\<close>

fun contains :: "string \<Rightarrow> string \<Rightarrow> bool" where
  "contains pat [] = (pat = [])"
| "contains pat (c # cs) = (starts_with pat (c # cs) \<or> contains pat cs)"

lemma contains_sublist: "contains pat s \<longleftrightarrow> sublist pat s"
proof (induction s)
  case Nil
  then show ?case by simp
next
  case (Cons c cs)
  then show ?case by (auto simp: starts_with_prefix sublist_Cons_right)
qed

text \<open>\<^verbatim>\<open>strrchr(s, c)\<close>: the position of the last occurrence.\<close>

fun strrchr :: "string \<Rightarrow> char \<Rightarrow> nat option" where
  "strrchr [] c = None"
| "strrchr (x # xs) c =
     (case strrchr xs c of
        Some i \<Rightarrow> Some (Suc i)
      | None \<Rightarrow> (if x = c then Some 0 else None))"

lemma strrchr_None [simp]: "strrchr s c = None \<longleftrightarrow> c \<notin> set s"
  by (induction s) (auto split: option.splits)

lemma strrchr_Some:
  "strrchr s c = Some i \<Longrightarrow> i < length s \<and> s ! i = c \<and> c \<notin> set (drop (Suc i) s)"
  by (induction s arbitrary: i) (auto split: option.splits if_splits)

text \<open>\<^verbatim>\<open>snprintf(buf, n, ...)\<close> keeps at most \<open>n - 1\<close> bytes;
  \<^verbatim>\<open>sprintf\<close> and \<^verbatim>\<open>strcat\<close> into a buffer of \<open>n\<close> bytes need room for
  the NUL.\<close>

definition snprintf :: "nat \<Rightarrow> string \<Rightarrow> string" where
  "snprintf n s = take (n - 1) s"

definition sprintf :: "nat \<Rightarrow> string \<Rightarrow> string result" where
  "sprintf n s = (if length s < n then Inr s else Inl OutOfBounds)"

lemma length_snprintf: "0 < n \<Longrightarrow> length (snprintf n s) < n"
  by (simp add: snprintf_def)

lemma snprintf_short [simp]: "length s < n \<Longrightarrow> snprintf n s = s"
  by (simp add: snprintf_def)

lemma snprintf_code [code]: "snprintf n s = (if length s < n then s else take (n - 1) s)"
  by (simp add: snprintf_def)

lemma sprintf_wp [simp, wp_simps]:
  "ensures (sprintf n s) Q \<longleftrightarrow> (length s < n \<longrightarrow> Q s)"
  "returns (sprintf n s) Q \<longleftrightarrow> length s < n \<and> Q s"
  by (simp_all add: sprintf_def)

subsection \<open>strtok\<close>

text \<open>One call of \<^verbatim>\<open>strtok\<close> on the rest of the buffer: skip delimiters, cut the token,
  step over the delimiter that ended it.\<close>

definition strtok :: "string \<Rightarrow> string \<Rightarrow> (string \<times> string) option" where
  "strtok ds s =
     (let r = dropWhile (\<lambda>c. c \<in> set ds) s in
      if r = [] then None
      else Some (takeWhile (\<lambda>c. c \<notin> set ds) r, drop 1 (dropWhile (\<lambda>c. c \<notin> set ds) r)))"

lemma strtok_shorter: "strtok ds s = Some (t, r) \<Longrightarrow> length r < length s"
proof -
  assume "strtok ds s = Some (t, r)"
  then have ne: "dropWhile (\<lambda>c. c \<in> set ds) s \<noteq> []"
    and r: "r = drop 1 (dropWhile (\<lambda>c. c \<notin> set ds) (dropWhile (\<lambda>c. c \<in> set ds) s))"
    by (auto simp: strtok_def Let_def split: if_splits)
  have "0 < length (dropWhile (\<lambda>c. c \<in> set ds) s)" using ne by (rule length_greater_0_conv [THEN iffD2])
  moreover have "length (dropWhile (\<lambda>c. c \<in> set ds) s) \<le> length s"
    by (rule length_dropWhile_le)
  moreover have "length (dropWhile (\<lambda>c. c \<notin> set ds) (dropWhile (\<lambda>c. c \<in> set ds) s))
      \<le> length (dropWhile (\<lambda>c. c \<in> set ds) s)"
    by (rule length_dropWhile_le)
  ultimately show ?thesis unfolding r length_drop by linarith
qed

text \<open>The loop that calls \<^verbatim>\<open>strtok\<close> until it returns NULL.\<close>

function strtok_all :: "string \<Rightarrow> string \<Rightarrow> string list" where
  "strtok_all ds s = (case strtok ds s of None \<Rightarrow> [] | Some (t, r) \<Rightarrow> t # strtok_all ds r)"
  by pat_completeness auto
termination
  by (relation "measure (\<lambda>(ds, s). length s)") (auto simp: strtok_shorter)

declare strtok_all.simps [simp del]

lemma strtok_token:
  assumes "strtok ds s = Some (t, r)"
  shows "t \<noteq> [] \<and> set t \<inter> set ds = {}"
proof -
  let ?r = "dropWhile (\<lambda>c. c \<in> set ds) s"
  from assms have ne: "?r \<noteq> []" and t: "t = takeWhile (\<lambda>c. c \<notin> set ds) ?r"
    by (auto simp: strtok_def Let_def split: if_splits)
  have "hd ?r \<notin> set ds" using hd_dropWhile [OF ne] by simp
  with ne have "t \<noteq> []" by (cases ?r) (auto simp: t)
  moreover have "set t \<inter> set ds = {}"
    by (auto simp: t dest: set_takeWhileD)
  ultimately show ?thesis by simp
qed

lemma strtok_all_tokens: "t \<in> set (strtok_all ds s) \<Longrightarrow> t \<noteq> [] \<and> set t \<inter> set ds = {}"
proof (induction ds s rule: strtok_all.induct)
  case (1 ds s)
  show ?case
  proof (cases "strtok ds s")
    case None
    with "1.prems" show ?thesis by (simp add: strtok_all.simps)
  next
    case (Some p)
    obtain u r where p: "p = (u, r)" by (cases p)
    with Some "1.prems" have "t = u \<or> t \<in> set (strtok_all ds r)"
      by (simp add: strtok_all.simps [of ds s])
    then show ?thesis
      using "1.IH" [OF Some p [symmetric]] strtok_token [of ds s u r] Some p by blast
  qed
qed

lemma strtok_cons_delim: "d \<in> set ds \<Longrightarrow> strtok ds (d # s) = strtok ds s"
  by (simp add: strtok_def)

lemma strtok_all_cons_delim [simp]: "d \<in> set ds \<Longrightarrow> strtok_all ds (d # s) = strtok_all ds s"
  by (simp add: strtok_all.simps [of ds "d # s"] strtok_all.simps [of ds s] strtok_cons_delim)

lemma strtok_all_Nil [simp]: "strtok_all ds [] = []"
  by (simp add: strtok_all.simps strtok_def)

lemma strtok_word:
  assumes "t \<noteq> []" "set t \<inter> set ds = {}" "d \<in> set ds"
  shows "strtok ds (t @ d # s) = Some (t, s)" "strtok ds t = Some (t, [])"
proof -
  have hd: "hd t \<notin> set ds" using assms by (cases t) auto
  have dw: "dropWhile (\<lambda>c. c \<in> set ds) (t @ x) = t @ x" for x
    using hd assms(1) by (cases t) auto
  have *: "\<forall>c\<in>set t. c \<notin> set ds" using assms(2) by auto
  show "strtok ds (t @ d # s) = Some (t, s)"
    using assms * by (simp add: strtok_def dw takeWhile_append2 dropWhile_append2)
  have "dropWhile (\<lambda>c. c \<notin> set ds) t = []" "takeWhile (\<lambda>c. c \<notin> set ds) t = t"
    using * by simp_all
  then show "strtok ds t = Some (t, [])"
    using assms(1) dw [of "[]"] by (simp add: strtok_def del: dropWhile_eq_Nil_conv takeWhile_eq_all_conv)
qed

text \<open>Joining words with a delimiter and splitting them again.\<close>

fun join :: "char \<Rightarrow> string list \<Rightarrow> string" where
  "join d [] = []"
| "join d [w] = w"
| "join d (w # v # ws) = w @ d # join d (v # ws)"

lemma strtok_all_word:
  assumes "t \<noteq> []" "set t \<inter> set ds = {}" "d \<in> set ds"
  shows "strtok_all ds (t @ d # s) = t # strtok_all ds s" "strtok_all ds t = [t]"
  using strtok_word [OF assms] by (simp_all add: strtok_all.simps [of ds "t @ d # s"] strtok_all.simps [of ds t])

lemma strtok_all_append:
  assumes "d \<in> set ds"
  shows "strtok_all ds (s @ d # t) = strtok_all ds s @ strtok_all ds t"
proof (induction s rule: length_induct)
  case (1 s)
  show ?case
  proof (cases s)
    case Nil
    then show ?thesis using assms by simp
  next
    case (Cons c s')
    show ?thesis
    proof (cases "c \<in> set ds")
      case True
      then show ?thesis using 1 Cons by simp
    next
      case False
      define w r where "w = takeWhile (\<lambda>c. c \<notin> set ds) s" and "r = dropWhile (\<lambda>c. c \<notin> set ds) s"
      have s: "s = w @ r" by (simp add: w_def r_def)
      have w: "w \<noteq> []" "set w \<inter> set ds = {}" using False Cons by (auto simp: w_def dest: set_takeWhileD)
      show ?thesis
      proof (cases r)
        case Nil
        with s w assms show ?thesis using strtok_all_word [where t = w and ds = ds and d = d] by simp
      next
        case (Cons d' r')
        then have d': "d' \<in> set ds" using hd_dropWhile [of "\<lambda>c. c \<notin> set ds" s] by (simp add: r_def)
        have "length r' < length s" using s Cons by simp
        then have "strtok_all ds (r' @ d # t) = strtok_all ds r' @ strtok_all ds t" using 1 by blast
        then show ?thesis using s Cons strtok_all_word(1) [OF w d'] by simp
      qed
    qed
  qed
qed

theorem strtok_all_join:
  assumes "\<forall>w\<in>set ws. w \<noteq> [] \<and> d \<notin> set w"
  shows "strtok_all [d] (join d ws) = ws"
  using assms
proof (induction d ws rule: join.induct)
  case (1 d)
  then show ?case by simp
next
  case (2 d w)
  then show ?case using strtok_all_word(2) [of w "[d]" d] by simp
next
  case (3 d w v ws)
  then show ?case using strtok_all_word(1) [of w "[d]" d] by simp
qed

lemma strtok_all_join_slash:
  "\<forall>w\<in>set ws. w \<noteq> [] \<and> d \<notin> set w \<Longrightarrow> strtok_all [d] (d # join d ws) = ws"
  by (simp add: strtok_all_join)

subsection \<open>Decimal numbers: \%d and atoi\<close>

definition digit :: "nat \<Rightarrow> char" where
  "digit n = char_of (48 + n)"

fun show_nat :: "nat \<Rightarrow> string" where
  "show_nat n = (if n < 10 then [digit n] else show_nat (n div 10) @ [digit (n mod 10)])"

declare show_nat.simps [simp del]

definition show_int :: "int \<Rightarrow> string" where
  "show_int i = (if i < 0 then CHR ''-'' # show_nat (nat (- i)) else show_nat (nat i))"

definition is_digit :: "char \<Rightarrow> bool" where
  "is_digit c \<longleftrightarrow> 48 \<le> (of_char c :: nat) \<and> (of_char c :: nat) \<le> 57"

definition is_space :: "char \<Rightarrow> bool" where
  "is_space c \<longleftrightarrow> c = CHR '' '' \<or> (9 \<le> (of_char c :: nat) \<and> (of_char c :: nat) \<le> 13)"

definition digits_val :: "string \<Rightarrow> nat" where
  "digits_val s = foldl (\<lambda>a c. 10 * a + (of_char c - 48)) 0 s"

text \<open>\<^verbatim>\<open>atoi\<close>: skip white space, an optional sign, the leading digits (the value is not
  reduced to 32 bits: the sources convert port numbers only).\<close>

definition atoi :: "string \<Rightarrow> int" where
  "atoi s =
     (let r = dropWhile is_space s in
      case r of
        [] \<Rightarrow> 0
      | c # cs \<Rightarrow>
          (if c = CHR ''-'' then - int (digits_val (takeWhile is_digit cs))
           else if c = CHR ''+'' then int (digits_val (takeWhile is_digit cs))
           else int (digits_val (takeWhile is_digit r))))"

lemma is_digit_digit [simp]: "n < 10 \<Longrightarrow> is_digit (digit n)"
  by (simp add: is_digit_def digit_def)

lemma show_nat_digits: "c \<in> set (show_nat n) \<Longrightarrow> is_digit c"
proof (induction n rule: show_nat.induct)
  case (1 n)
  then show ?case by (auto simp: show_nat.simps [of n] split: if_splits)
qed

lemma show_nat_not_Nil [simp]: "show_nat n \<noteq> []"
  by (simp add: show_nat.simps [of n])

lemma show_nat_length: "n < 10 ^ k \<Longrightarrow> 0 < k \<Longrightarrow> length (show_nat n) \<le> k"
proof (induction k arbitrary: n)
  case (Suc k)
  show ?case
  proof (cases "n < 10")
    case True
    then show ?thesis by (simp add: show_nat.simps [of n])
  next
    case False
    with Suc.prems have "n div 10 < 10 ^ k" "0 < k" by (auto intro: gr0I)
    with Suc.IH [of "n div 10"] False show ?thesis by (simp add: show_nat.simps [of n])
  qed
qed simp

lemma digits_val_show_nat: "digits_val (show_nat n) = n"
proof (induction n rule: show_nat.induct)
  case (1 n)
  show ?case
  proof (cases "n < 10")
    case True
    then show ?thesis by (simp add: show_nat.simps [of n] digits_val_def digit_def)
  next
    case False
    with "1.IH" have "digits_val (show_nat (n div 10)) = n div 10" by simp
    with False show ?thesis
      by (simp add: show_nat.simps [of n] digits_val_def digit_def)
  qed
qed

lemma is_digit_neq [simp]:
  "is_digit c \<Longrightarrow> c \<noteq> CHR ''-''" "is_digit c \<Longrightarrow> c \<noteq> CHR ''+''" "is_digit c \<Longrightarrow> \<not> is_space c"
  "is_digit c \<Longrightarrow> c \<noteq> CHR '' ''" "is_digit c \<Longrightarrow> c \<noteq> CHR '',''" "is_digit c \<Longrightarrow> c \<noteq> CHR ''|''"
  by (auto simp: is_digit_def is_space_def)

text \<open>\<^verbatim>\<open>atoi\<close> stops at the first character that is no digit.\<close>

theorem atoi_show_nat_append:
  assumes "\<forall>d ds. r = d # ds \<longrightarrow> \<not> is_digit d"
  shows "atoi (show_nat n @ r) = int n"
proof -
  obtain c cs where s: "show_nat n = c # cs" by (cases "show_nat n") auto
  then have c: "is_digit c" using show_nat_digits [of c n] by simp
  have "takeWhile is_digit r = []" using assms by (cases r) simp_all
  moreover have "takeWhile is_digit (show_nat n @ r) = show_nat n @ takeWhile is_digit r"
    by (rule takeWhile_append2) (rule show_nat_digits)
  ultimately have "digits_val (takeWhile is_digit (c # cs @ r)) = n"
    using digits_val_show_nat [of n] by (simp only: s append_Cons) simp
  with s c show ?thesis by (simp add: atoi_def del: takeWhile.simps)
qed

corollary atoi_show_nat: "atoi (show_nat n) = int n"
  using atoi_show_nat_append [of "[]" n] by simp

subsection \<open>sscanf\<close>

text \<open>The words a format of \<^verbatim>\<open>\%s\<close> conversions reads, and whether \<^verbatim>\<open>\%d\<close>
  finds a number at the start of a word.\<close>

definition white_space :: string where
  "white_space = [CHR '' '', CHR 0x09, CHR 0x0A, CHR 0x0B, CHR 0x0C, CHR 0x0D]"

definition scan_words :: "string \<Rightarrow> string list" where
  "scan_words = strtok_all white_space"

fun scans_int :: "string \<Rightarrow> bool" where
  "scans_int [] = False"
| "scans_int (c # cs) = (is_digit c \<or> (c = CHR ''-'' \<or> c = CHR ''+'') \<and> cs \<noteq> [] \<and> is_digit (hd cs))"

lemma scan_word_line: "w \<noteq> [] \<Longrightarrow> set w \<inter> set white_space = {} \<Longrightarrow> scan_words (w @ [CHR 0x0A]) = [w]"
  using strtok_all_word(1) [of w white_space "CHR 0x0A" "[]"] by (simp add: scan_words_def white_space_def)

end
