(* ===== verification/Nfs_Net.thy ===== *)
theory Nfs_Net
  imports Error_Codes
begin

text \<open>
  The world of a process: sockets, standard output and the log file. What the operating system and
  the peers answer is the environment \<^verbatim>\<open>env\<close>, a parameter of every operation that
  does input or output; each system call reads it at the current \<open>clock\<close> and advances the clock,
  so that no two calls are tied to the same answer. What the process does to the outside is the
  \<open>trace\<close>. The wrappers \<^verbatim>\<open>recv_good\<close>, \<^verbatim>\<open>send_good\<close> and
  \<^verbatim>\<open>log_it\<close> of \<^verbatim>\<open>helper.c\<close> and the constants of
  \<^verbatim>\<open>helper.h\<close> are here.
\<close>

section \<open>Constants of helper.h and tries.h\<close>

definition BUFFER_SIZE :: nat where "BUFFER_SIZE = 1024"
definition BUFFER_SIZE_FOR_MUSIC :: nat where "BUFFER_SIZE_FOR_MUSIC = 8192"
definition MAX_PATH_SIZE :: nat where "MAX_PATH_SIZE = 2048"
definition MAX_STORAGE_SERVERS :: nat where "MAX_STORAGE_SERVERS = 10"
definition CACHE_CAPACITY :: nat where "CACHE_CAPACITY = 3"
definition MAX_FOLDERS :: nat where "MAX_FOLDERS = 256"
definition MAX_PATH :: nat where "MAX_PATH = 256"
definition ASYNC_BUFF_LEN :: nat where "ASYNC_BUFF_LEN = 32"
definition SERVER_PORT :: int where "SERVER_PORT = 9001"
definition CLIENT_PORT_NS :: int where "CLIENT_PORT_NS = 9024"
definition ASYNC_PORT_FOR_NM :: int where "ASYNC_PORT_FOR_NM = 9037"
definition MAX_REQ :: nat where "MAX_REQ = 1024"  \<comment> \<open>\<^verbatim>\<open>lock.h\<close>\<close>

section \<open>Environment and world\<close>

datatype errno = EAGAIN | EWOULDBLOCK | EOTHER

datatype recv_raw = RecvErr errno | RecvBytes string

datatype send_raw = SendErr errno | SentBytes nat

record env =
  sys_recv :: "nat \<Rightarrow> int \<Rightarrow> recv_raw"
  sys_send :: "nat \<Rightarrow> int \<Rightarrow> string \<Rightarrow> send_raw"
  sys_socket :: "nat \<Rightarrow> int"
  sys_inet_pton :: "string \<Rightarrow> bool"
  sys_connect :: "nat \<Rightarrow> int \<Rightarrow> string \<Rightarrow> int \<Rightarrow> bool"
  sys_log_open :: "nat \<Rightarrow> bool"
  sys_setsockopt :: "nat \<Rightarrow> bool"
  sys_fs_ok :: "nat \<Rightarrow> string \<Rightarrow> bool"  \<comment> \<open>no failure for other reasons (rights, space, limits)\<close>
  sizeof_ss_info :: nat              \<comment> \<open>\<^verbatim>\<open>sizeof(StorageServerInfo)\<close>\<close>
  portClient_of :: "string \<Rightarrow> int"  \<comment> \<open>the field \<^verbatim>\<open>portClient\<close> in the bytes of such a struct\<close>

datatype event =
    Sent int string       \<comment> \<open>bytes accepted by \<^verbatim>\<open>send\<close> on a socket\<close>
  | Closed int
  | Stdout string
  | Logged string         \<comment> \<open>text appended to \<^verbatim>\<open>log.txt\<close>\<close>
  | Log_cleared           \<comment> \<open>\<^verbatim>\<open>log.txt\<close> is emptied\<close>
  | Bound int int         \<comment> \<open>a socket has got the port\<close>
  | Listening int         \<comment> \<open>a socket accepts connections\<close>

record world =
  clock :: nat
  trace :: "event list"

definition tick :: "world \<Rightarrow> world" where
  "tick w = w\<lparr>clock := Suc (clock w)\<rparr>"

definition emit :: "event \<Rightarrow> world \<Rightarrow> world" where
  "emit e w = w\<lparr>trace := trace w @ [e]\<rparr>"

text \<open>\<^verbatim>\<open>recv_good\<close>: the return value and the bytes placed in the buffer.\<close>

definition recv_good :: "env \<Rightarrow> int \<Rightarrow> nat \<Rightarrow> world \<Rightarrow> (int \<times> string) \<times> world" where
  "recv_good E sockfd len w =
     ((case sys_recv E (clock w) sockfd of
         RecvErr e \<Rightarrow> (if e = EAGAIN \<or> e = EWOULDBLOCK then (0, []) else (-1, []))
       | RecvBytes b \<Rightarrow> (int (length (take len b)), take len b)),
      tick w)"

text \<open>The system call \<^verbatim>\<open>send\<close>: the bytes it accepts are on the trace.\<close>

definition send :: "env \<Rightarrow> int \<Rightarrow> string \<Rightarrow> world \<Rightarrow> send_raw \<times> world" where
  "send E sockfd buf w =
     (case sys_send E (clock w) sockfd buf of
        SendErr e \<Rightarrow> (SendErr e, tick w)
      | SentBytes n \<Rightarrow> (SentBytes n, emit (Sent sockfd (take n buf)) (tick w)))"

definition send_good :: "env \<Rightarrow> int \<Rightarrow> string \<Rightarrow> world \<Rightarrow> int \<times> world" where
  "send_good E sockfd buf w =
     (case send E sockfd buf w of
        (SendErr e, w1) \<Rightarrow> ((if e = EAGAIN \<or> e = EWOULDBLOCK then 0 else -1), w1)
      | (SentBytes n, w1) \<Rightarrow> (int n, w1))"

definition close :: "int \<Rightarrow> world \<Rightarrow> world" where
  "close fd w = emit (Closed fd) w"

definition printErrorDetails :: "int \<Rightarrow> world \<Rightarrow> world" where
  "printErrorDetails errorCode w = emit (Stdout (error_text errorCode)) w"

text \<open>\<^verbatim>\<open>send_good\<close> whose failure is reported with an error number, the shape of almost every
  reply: \<^verbatim>\<open>if (send_good(...) < 0) printErrorDetails(code);\<close>\<close>

definition send_or_report :: "env \<Rightarrow> int \<Rightarrow> string \<Rightarrow> int \<Rightarrow> world \<Rightarrow> world" where
  "send_or_report E fd msg code w =
     (case send_good E fd msg w of (r, w1) \<Rightarrow> if r < 0 then printErrorDetails code w1 else w1)"

definition log_it :: "env \<Rightarrow> string \<Rightarrow> int \<Rightarrow> string \<Rightarrow> world \<Rightarrow> world result" where
  "log_it E ip sock message w =
     (if \<not> sys_log_open E (clock w) then Inr (tick w)
      else andthen
        (sprintf BUFFER_SIZE
           (if sock \<noteq> -1
            then ''IP['' @ ip @ ''] : Port['' @ show_int sock @ ''] : '' @ message @ newline
            else message))
        (\<lambda>buffer. Inr (emit (Logged (buffer @ newline)) (tick w))))"

text \<open>A log entry is first formatted with \<^verbatim>\<open>sprintf\<close> into a block of
  \<^verbatim>\<open>BUFFER_SIZE\<close> bytes, then passed to \<^verbatim>\<open>log_it\<close>.\<close>

definition log_line :: "env \<Rightarrow> string \<Rightarrow> int \<Rightarrow> string \<Rightarrow> world \<Rightarrow> world result" where
  "log_line E ip sock message w =
     andthen (sprintf BUFFER_SIZE message) (\<lambda>log_message. log_it E ip sock log_message w)"

section \<open>Lemmas\<close>

lemma emit_simps [simp]:
  "clock (emit e w) = clock w" "trace (emit e w) = trace w @ [e]"
  by (simp_all add: emit_def)

lemma tick_simps [simp]:
  "clock (tick w) = Suc (clock w)" "trace (tick w) = trace w"
  by (simp_all add: tick_def)

lemma recv_good_length:
  "recv_good E fd n w = ((r, b), w') \<Longrightarrow> length b \<le> n \<and> (0 < r \<longrightarrow> r = int (length b))"
  by (auto simp: recv_good_def split: recv_raw.splits if_splits)

text \<open>A log line that is short enough never overruns its buffers.\<close>

lemma log_line_returns:
  assumes "length m < BUFFER_SIZE" "sock = -1 \<or> length ip + length (show_int sock) + length m + 19 < BUFFER_SIZE"
  shows "returns (log_line E ip sock m w) (\<lambda>w'. True)"
  using assms by (auto simp: log_line_def log_it_def newline_def)

text \<open>The C string in a buffer of \<open>n\<close> bytes that was cleared before the bytes were received: reading it
  runs past the end when they fill the buffer without a NUL.\<close>

definition buf_str :: "nat \<Rightarrow> string \<Rightarrow> string result" where
  "buf_str n b = (if length b < n \<or> CHR 0x00 \<in> set b then Inr (c_str b) else Inl OutOfBounds)"

text \<open>The string in an array whose bytes are given; without a NUL, reading it runs past the end.\<close>

definition array_str :: "string \<Rightarrow> string result" where
  "array_str b = (if CHR 0x00 \<in> set b then Inr (c_str b) else Inl OutOfBounds)"

text \<open>A reply that the peer accepts whole is the last event of the trace.\<close>

lemma send_good_trace:
  "sys_send E (clock w) fd b = SentBytes (length b) \<Longrightarrow>
   send_good E fd b w = (int (length b), emit (Sent fd b) (tick w))"
  by (simp add: send_good_def send_def)

lemma send_or_report_trace:
  "sys_send E (clock w) fd b = SentBytes (length b) \<Longrightarrow>
   send_or_report E fd b c w = emit (Sent fd b) (tick w)"
  by (simp add: send_or_report_def send_good_trace)

text \<open>The peer sends the given chunks, one per \<^verbatim>\<open>recv\<close> call.\<close>

definition delivers :: "env \<Rightarrow> int \<Rightarrow> nat \<Rightarrow> string list \<Rightarrow> bool" where
  "delivers E fd t cs \<longleftrightarrow> (\<forall>i<length cs. sys_recv E (t + i) fd = RecvBytes (cs ! i))"

lemma delivers_Cons: "delivers E fd t (c # cs) \<longleftrightarrow> sys_recv E t fd = RecvBytes c \<and> delivers E fd (Suc t) cs"
proof -
  have "(\<forall>i<Suc n. P i) \<longleftrightarrow> P 0 \<and> (\<forall>i<n. P (Suc i))" for P and n :: nat
    by (metis Suc_less_eq not0_implies_Suc zero_less_Suc)
  then show ?thesis by (simp add: delivers_def)
qed

text \<open>A system whose calls succeed and accept every byte, for the examples.\<close>

definition calm_env :: env where
  "calm_env = \<lparr>sys_recv = (\<lambda>t f. RecvErr EAGAIN), sys_send = (\<lambda>t f b. SentBytes (length b)), sys_socket = (\<lambda>t. 7),
     sys_inet_pton = (\<lambda>a. True), sys_connect = (\<lambda>t f a p. True), sys_log_open = (\<lambda>t. True), sys_setsockopt = (\<lambda>t. True),
     sys_fs_ok = (\<lambda>t p. True), sizeof_ss_info = 64, portClient_of = (\<lambda>b. 0)\<rparr>"

lemma calm_env_simps [simp]:
  "sys_send calm_env t f b = SentBytes (length b)" "sys_socket calm_env t = 7" "sys_inet_pton calm_env a"
  "sys_connect calm_env t f a p" "sys_setsockopt calm_env t" "sys_fs_ok calm_env t x"
  "sys_log_open calm_env t"
  by (simp_all add: calm_env_def)

end
