(* ===== verification/Tries.thy ===== *)
theory Tries
  imports Nfs_Net
begin

text \<open>
  \<^verbatim>\<open>tries.c\<close>: the path index of one storage server. A node has an array of
  \<^verbatim>\<open>MAX_FOLDERS\<close> child slots, a leaf flag and a name. Nodes are never shared, so the
  in-place updates of the C code are functional updates along the walked path. \<open>wf_trie\<close> is the
  representation invariant, \<open>SearchPathHelperTries\<close> gives the set of stored paths, and the locale
  \<open>path_index\<close> is the contract the naming server relies on.
\<close>

section \<open>Nodes and path parsing\<close>

datatype trienode = TrieNode (childeren: "trienode option list") (isLeaf: bool) (data: string)

definition CreateNode :: "string \<Rightarrow> trienode" where
  "CreateNode d = TrieNode (replicate MAX_FOLDERS None) True d"

text \<open>The path elements, those equal to \<^verbatim>\<open>~\<close> left out. The caller's array has
  \<^verbatim>\<open>MAX_PATH\<close> entries and also takes the terminating NULL.\<close>

definition ParsePath :: "string \<Rightarrow> string list result" where
  "ParsePath path =
     (let path_arr = filter (\<lambda>path_element. path_element \<noteq> ''~'') (strtok_all ''/'' path) in
      if length path_arr < MAX_PATH then Inr path_arr else Inl OutOfBounds)"

fun is_child :: "string \<Rightarrow> trienode option \<Rightarrow> bool" where
  "is_child p None = False"
| "is_child p (Some n) = (data n = p)"

definition is_null :: "'a option \<Rightarrow> bool" where
  "is_null c \<longleftrightarrow> c = None"

section \<open>Insertion, search, deletion\<close>

text \<open>The walk of \<^verbatim>\<open>AddPathToTrie\<close>. When every slot of a node is taken, the new node is not
  linked and the rest of the path goes into the unreachable node.\<close>

fun add_path :: "string list \<Rightarrow> trienode \<Rightarrow> trienode" where
  "add_path [] cur = cur"
| "add_path (p # ps) cur =
     (case find_slot (is_child p) (childeren cur) of
        Some j \<Rightarrow>
          (case childeren cur ! j of
             None \<Rightarrow> cur
           | Some n \<Rightarrow> TrieNode ((childeren cur)[j := Some (add_path ps n)]) (isLeaf cur) (data cur))
      | None \<Rightarrow>
          (case find_slot is_null (childeren cur) of
             Some j \<Rightarrow> TrieNode ((childeren cur)[j := Some (add_path ps (CreateNode p))]) False (data cur)
           | None \<Rightarrow> cur))"

definition AddPathToTrie :: "string \<Rightarrow> trienode \<Rightarrow> trienode result" where
  "AddPathToTrie path root = andthen (ParsePath path) (\<lambda>path_arr. Inr (add_path path_arr root))"

fun SearchPathHelperTries :: "trienode \<Rightarrow> string list \<Rightarrow> bool" where
  "SearchPathHelperTries cur [] = True"
| "SearchPathHelperTries cur (p # ps) =
     (case find_slot (is_child p) (childeren cur) of
        None \<Rightarrow> False
      | Some j \<Rightarrow>
          (case childeren cur ! j of None \<Rightarrow> False | Some n \<Rightarrow> SearchPathHelperTries n ps))"

definition SearchPath :: "trienode \<Rightarrow> string \<Rightarrow> int result" where
  "SearchPath root path =
     andthen (ParsePath path) (\<lambda>path_arr. Inr (if SearchPathHelperTries root path_arr then 1 else -1))"

text \<open>The walk of \<^verbatim>\<open>DeletePath\<close> keeps the last parent and the slot it took; here the slot
  is cleared when the last element is reached.\<close>

fun del_path :: "string list \<Rightarrow> trienode \<Rightarrow> trienode" where
  "del_path [] cur = cur"
| "del_path (p # ps) cur =
     (case find_slot (is_child p) (childeren cur) of
        None \<Rightarrow> cur
      | Some j \<Rightarrow>
          TrieNode
            ((childeren cur)[j := (if ps = [] then None else map_option (del_path ps) (childeren cur ! j))])
            (isLeaf cur) (data cur))"

definition DeletePath :: "string \<Rightarrow> trienode \<Rightarrow> trienode result" where
  "DeletePath path root =
     andthen (ParsePath path) (\<lambda>path_arr.
     andthen (SearchPath root path) (\<lambda>r.
       if r = -1 then Inr root
       else if path_arr = [] then Inl NullDeref
       else Inr (del_path path_arr root)))"

section \<open>Display\<close>

text \<open>\<^verbatim>\<open>isLastChild\<close> finds the node among its parent's slots by its address; a node is
  given here by the parent's slots and its own slot number.\<close>

definition isLastChild :: "nat \<Rightarrow> trienode option list \<Rightarrow> bool" where
  "isLastChild nodeIndex cs \<longleftrightarrow> list_all is_null (drop (Suc nodeIndex) cs)"

definition YELLOW :: string where "YELLOW = CHR 0x1B # ''[33m''"
definition BLUE :: string where "BLUE = CHR 0x1B # ''[34m''"
definition WHITE :: string where "WHITE = CHR 0x1B # ''[37m''"
definition box_vertical :: string where "box_vertical = [CHR 0xE2, CHR 0x94, CHR 0x82]"
definition box_corner :: string where "box_corner = [CHR 0xE2, CHR 0x94, CHR 0x94]"
definition box_tee :: string where "box_tee = [CHR 0xE2, CHR 0x94, CHR 0x9C]"
definition box_dash :: string where "box_dash = [CHR 0xE2, CHR 0x94, CHR 0x80]"

text \<open>The pieces printed for one node, in order: one per level of indentation, the branch
  connector and the coloured name (the root has only its name).\<close>

definition indent_piece :: "char \<Rightarrow> string" where
  "indent_piece c = (if c = CHR ''1'' then YELLOW @ box_vertical @ ''   '' @ RESET else ''    '')"

definition node_pieces :: "trienode \<Rightarrow> nat \<Rightarrow> string \<Rightarrow> bool \<Rightarrow> string list" where
  "node_pieces root depth prefx isLast =
     map indent_piece (take depth prefx)
     @ (if depth > 0
        then [YELLOW @ (if isLast then box_corner else box_tee) @ box_dash @ box_dash @ '' '' @ RESET,
              (if isLeaf root then WHITE else BLUE) @ data root @ RESET @ newline]
        else [BLUE @ data root @ RESET @ newline])"

text \<open>\<^verbatim>\<open>new_prefix\<close> has \<^verbatim>\<open>MAX_PATH\<close> bytes and gets a NUL at index
  \<open>depth + 1\<close>.\<close>

definition extend_prefix :: "string \<Rightarrow> nat \<Rightarrow> bool \<Rightarrow> string result" where
  "extend_prefix prefx depth isLast =
     (if depth + 1 < MAX_PATH
      then Inr (take depth prefx @ [if isLast then CHR ''0'' else CHR ''1''])
      else Inl OutOfBounds)"

fun PrintTree :: "trienode \<Rightarrow> nat \<Rightarrow> string \<Rightarrow> bool \<Rightarrow> string result"
  and PrintChildren :: "trienode option list \<Rightarrow> nat \<Rightarrow> string \<Rightarrow> string result" where
  "PrintTree (TrieNode cs l d) depth prefx isLast =
     andthen (extend_prefix prefx depth isLast) (\<lambda>new_prefix.
     andthen (PrintChildren cs (Suc depth) new_prefix) (\<lambda>rest.
       Inr (concat (node_pieces (TrieNode cs l d) depth prefx isLast) @ rest)))"
| "PrintChildren [] depth prefx = Inr []"
| "PrintChildren (None # cs) depth prefx = PrintChildren cs depth prefx"
| "PrintChildren (Some n # cs) depth prefx =
     andthen (PrintTree n depth prefx (list_all is_null cs)) (\<lambda>out.
     andthen (PrintChildren cs depth prefx) (\<lambda>rest. Inr (out @ rest)))"

fun CountItems :: "trienode \<Rightarrow> int \<times> int \<Rightarrow> int \<times> int"
  and CountChildren :: "trienode option list \<Rightarrow> int \<times> int \<Rightarrow> int \<times> int" where
  "CountItems (TrieNode cs l d) (dirs, files) =
     CountChildren cs (if l then (dirs, files + 1) else (dirs + 1, files))"
| "CountChildren [] a = a"
| "CountChildren (None # cs) a = CountChildren cs a"
| "CountChildren (Some n # cs) a = CountChildren cs (CountItems n a)"

definition DisplayTrie :: "trienode \<Rightarrow> string result" where
  "DisplayTrie root =
     andthen (PrintTree root 0 [] True) (\<lambda>tree.
       case CountItems root (0, 0) of (totalDirs, totalFiles) \<Rightarrow>
       Inr (tree @ newline @ show_int totalDirs @ '' directories''
            @ '', '' @ show_int totalFiles @ '' files'' @ newline))"

text \<open>The network variant formats a node into a buffer of 1024 bytes with \<^verbatim>\<open>snprintf\<close> at
  a running offset; the offset counts the bytes each call wanted to write, so past the end of the
  buffer the remaining size wraps around and the next call, or \<^verbatim>\<open>send\<close>, leaves the
  buffer. A failed \<^verbatim>\<open>send\<close> ends the visit of that node's subtree.\<close>

definition line_buffer :: "string list \<Rightarrow> string result" where
  "line_buffer pieces =
     (let all = concat pieces in
      if length all < 1024 then Inr all
      else if length all = 1024 then Inr (take 1023 all @ [CHR 0x00])
      else Inl OutOfBounds)"

fun PrintTreeNetwork :: "env \<Rightarrow> int \<Rightarrow> trienode \<Rightarrow> nat \<Rightarrow> string \<Rightarrow> bool \<Rightarrow> world \<Rightarrow> world result"
  and PrintChildrenNetwork :: "env \<Rightarrow> int \<Rightarrow> trienode option list \<Rightarrow> nat \<Rightarrow> string \<Rightarrow> world \<Rightarrow> world result" where
  "PrintTreeNetwork E sock (TrieNode cs l d) depth prefx isLast w =
     andthen (line_buffer (node_pieces (TrieNode cs l d) depth prefx isLast)) (\<lambda>buffer.
     (case send E sock buffer w of
        (SendErr e, w1) \<Rightarrow> Inr w1
      | (SentBytes n, w1) \<Rightarrow>
          andthen (extend_prefix prefx depth isLast) (\<lambda>new_prefix.
            PrintChildrenNetwork E sock cs (Suc depth) new_prefix w1)))"
| "PrintChildrenNetwork E sock [] depth prefx w = Inr w"
| "PrintChildrenNetwork E sock (None # cs) depth prefx w = PrintChildrenNetwork E sock cs depth prefx w"
| "PrintChildrenNetwork E sock (Some n # cs) depth prefx w =
     andthen (PrintTreeNetwork E sock n depth prefx (list_all is_null cs) w) (\<lambda>w1.
       PrintChildrenNetwork E sock cs depth prefx w1)"

definition DisplayTrieNetwork :: "env \<Rightarrow> int \<Rightarrow> trienode \<Rightarrow> world \<Rightarrow> world result" where
  "DisplayTrieNetwork E sock root w = PrintTreeNetwork E sock root 0 [] True w"

section \<open>Representation invariant\<close>

definition uniq_names :: "trienode option list \<Rightarrow> bool" where
  "uniq_names cs \<longleftrightarrow>
     (\<forall>i<length cs. \<forall>j<length cs.
        cs ! i \<noteq> None \<and> cs ! j \<noteq> None \<and> data (the (cs ! i)) = data (the (cs ! j)) \<longrightarrow> i = j)"

text \<open>Every node has exactly \<^verbatim>\<open>MAX_FOLDERS\<close> slots, siblings have distinct names, and a node
  flagged as a leaf has no children.\<close>

fun wf_trie :: "trienode \<Rightarrow> bool" where
  "wf_trie (TrieNode cs l d) \<longleftrightarrow>
     length cs = MAX_FOLDERS \<and> uniq_names cs \<and> (l \<longrightarrow> list_all is_null cs) \<and>
     list_all (\<lambda>c. case c of None \<Rightarrow> True | Some n \<Rightarrow> wf_trie n) cs"

text \<open>There is room for a path: where its walk leaves the trie, a slot is free.\<close>

fun has_room :: "string list \<Rightarrow> trienode \<Rightarrow> bool" where
  "has_room [] cur = True"
| "has_room (p # ps) cur =
     (case find_slot (is_child p) (childeren cur) of
        Some j \<Rightarrow> (case childeren cur ! j of None \<Rightarrow> False | Some n \<Rightarrow> has_room ps n)
      | None \<Rightarrow> find_slot is_null (childeren cur) \<noteq> None)"

section \<open>Children by name\<close>

definition child :: "string \<Rightarrow> trienode \<Rightarrow> trienode option" where
  "child p n = (case find_slot (is_child p) (childeren n) of None \<Rightarrow> None | Some j \<Rightarrow> childeren n ! j)"

lemma is_child_iff: "is_child p c \<longleftrightarrow> (\<exists>n. c = Some n \<and> data n = p)"
  by (cases c) auto

lemma find_child_SomeD:
  "find_slot (is_child p) cs = Some j \<Longrightarrow> j < length cs \<and> (\<exists>n. cs ! j = Some n \<and> data n = p)"
  by (drule find_slot_SomeD) (simp add: is_child_iff)

lemma child_None_iff: "child p n = None \<longleftrightarrow> find_slot (is_child p) (childeren n) = None"
  by (auto simp: child_def split: option.splits dest: find_child_SomeD)

lemma child_SomeE:
  assumes "child p cur = Some n"
  obtains j where "find_slot (is_child p) (childeren cur) = Some j" "j < length (childeren cur)"
    "childeren cur ! j = Some n" "data n = p"
  using assms by (auto simp: child_def split: option.splits dest: find_child_SomeD)

lemma child_update_same:
  "find_slot (is_child p) cs = Some j \<Longrightarrow> data m = p \<Longrightarrow> child p (TrieNode (cs[j := Some m]) l d) = Some m"
  using find_slot_update [of j cs "is_child p" "Some m"]
  by (auto simp: child_def dest: find_child_SomeD)

lemma child_update_other:
  assumes "j < length cs" "\<not> is_child q (cs ! j)" "\<not> is_child q c"
  shows "child q (TrieNode (cs[j := c]) l d) = child q (TrieNode cs l' d')"
  using assms find_slot_update [of j cs "is_child q" c]
  by (auto simp: child_def nth_list_update dest: find_slot_SomeD split: option.splits)

lemma child_insert_new:
  assumes "find_slot is_null cs = Some j" "find_slot (is_child p) cs = None" "data m = p"
  shows "child p (TrieNode (cs[j := Some m]) l d) = Some m"
proof -
  have j: "j < length cs" using find_slot_SomeD [OF assms(1)] by simp
  have "\<not> is_child p (cs ! i)" if "i < j" for i
    using assms(2) j that by (auto simp: find_slot_None)
  then have "find_slot (is_child p) (cs[j := Some m]) = Some j"
    using j assms(3) by (auto simp: find_slot_Some_iff nth_list_update)
  with j show ?thesis by (simp add: child_def)
qed

lemma child_removed:
  assumes "uniq_names cs" "find_slot (is_child p) cs = Some j"
  shows "child p (TrieNode (cs[j := None]) l d) = None"
proof -
  obtain n where j: "j < length cs" "cs ! j = Some n" "data n = p"
    using find_child_SomeD [OF assms(2)] by blast
  have "\<not> is_child p (cs[j := None] ! i)" if "i < length cs" for i
    using assms(1) j that by (auto simp: uniq_names_def is_child_iff nth_list_update)
  then have "\<forall>c\<in>set (cs[j := None]). \<not> is_child p c"
    by (metis in_set_conv_nth length_list_update)
  then show ?thesis by (simp add: child_None_iff find_slot_None)
qed

lemma child_CreateNode [simp]: "child p (CreateNode q) = None"
  by (simp add: child_None_iff find_slot_None CreateNode_def)

lemma data_CreateNode [simp]: "data (CreateNode q) = q"
  by (simp add: CreateNode_def)

lemma data_add_path [simp]: "data (add_path ps n) = data n"
  by (cases ps) (auto split: option.splits)

lemma data_del_path [simp]: "data (del_path ps n) = data n"
  by (cases ps) (auto split: option.splits)

text \<open>The three walks, stated over children by name.\<close>

lemma search_Cons:
  "SearchPathHelperTries cur (p # ps) = (case child p cur of None \<Rightarrow> False | Some n \<Rightarrow> SearchPathHelperTries n ps)"
  by (auto simp: child_def split: option.splits dest: find_child_SomeD)

lemma has_room_Cons:
  "has_room (p # ps) cur =
     (case child p cur of None \<Rightarrow> find_slot is_null (childeren cur) \<noteq> None | Some n \<Rightarrow> has_room ps n)"
  by (auto simp: child_def split: option.splits dest: find_child_SomeD)

lemmas trie_walk_simps [simp del] = SearchPathHelperTries.simps(2) has_room.simps(2)

lemma child_add_path_same:
  assumes "has_room (p # ps) cur"
  shows "child p (add_path (p # ps) cur) =
    Some (add_path ps (case child p cur of None \<Rightarrow> CreateNode p | Some n \<Rightarrow> n))"
proof (cases "child p cur")
  case None
  then obtain j where j: "find_slot is_null (childeren cur) = Some j"
    using assms by (auto simp: has_room_Cons)
  show ?thesis
    using None j child_insert_new [OF j, of p "add_path ps (CreateNode p)"]
    by (simp add: child_None_iff [THEN iffD1])
next
  case (Some n)
  then obtain j where "find_slot (is_child p) (childeren cur) = Some j"
    "childeren cur ! j = Some n" "data n = p" by (rule child_SomeE)
  with Some show ?thesis by (simp add: child_update_same)
qed

lemma child_add_path_other:
  assumes "p \<noteq> q"
  shows "child q (add_path (p # ps) cur) = child q cur"
proof (cases "find_slot (is_child p) (childeren cur)")
  case None
  show ?thesis
  proof (cases "find_slot is_null (childeren cur)")
    case None
    with \<open>find_slot (is_child p) (childeren cur) = None\<close> show ?thesis by (simp)
  next
    case (Some j)
    with None assms show ?thesis
      using child_update_other [of j "childeren cur" q "Some (add_path ps (CreateNode p))" False "data cur"
          "isLeaf cur" "data cur"] find_slot_SomeD [OF Some]
      by (cases cur) (auto simp: is_null_def)
  qed
next
  case (Some j)
  then obtain n where j: "j < length (childeren cur)" "childeren cur ! j = Some n" "data n = p"
    using find_child_SomeD by blast
  with Some assms show ?thesis
    using child_update_other [of j "childeren cur" q "Some (add_path ps n)" "isLeaf cur" "data cur"
        "isLeaf cur" "data cur"]
    by (cases cur) auto
qed

lemma child_del_path_last:
  "uniq_names (childeren cur) \<Longrightarrow> child p cur \<noteq> None \<Longrightarrow> child p (del_path [p] cur) = None"
  by (auto simp: child_removed elim: child_SomeE)

lemma child_del_path_inner:
  assumes "child p cur = Some n" "ps \<noteq> []"
  shows "child p (del_path (p # ps) cur) = Some (del_path ps n)"
  using assms(1) by (rule child_SomeE) (use assms(2) in \<open>simp add: child_update_same\<close>)

lemma child_del_path_other:
  assumes "p \<noteq> q"
  shows "child q (del_path (p # ps) cur) = child q cur"
proof (cases "find_slot (is_child p) (childeren cur)")
  case None
  then show ?thesis by (simp)
next
  case (Some j)
  then obtain n where j: "j < length (childeren cur)" "childeren cur ! j = Some n" "data n = p"
    using find_child_SomeD by blast
  with Some assms show ?thesis
    using child_update_other [of j "childeren cur" q
        "if ps = [] then None else map_option (del_path ps) (childeren cur ! j)" "isLeaf cur" "data cur"
        "isLeaf cur" "data cur"]
    by (cases cur) auto
qed

section \<open>Search after insertion and deletion\<close>

lemma search_CreateNode [simp]: "SearchPathHelperTries (CreateNode p) qs \<longleftrightarrow> qs = []"
  by (cases qs) (simp_all add: search_Cons)

lemma has_room_CreateNode [simp]: "has_room ps (CreateNode p)"
  by (cases ps) (simp_all add: has_room_Cons find_slot_None is_null_def, simp add: CreateNode_def MAX_FOLDERS_def)

lemma search_add_path:
  "has_room ps t \<Longrightarrow>
   SearchPathHelperTries (add_path ps t) qs \<longleftrightarrow> SearchPathHelperTries t qs \<or> prefix qs ps"
proof (induction ps arbitrary: t qs)
  case Nil
  then show ?case by auto
next
  case (Cons p ps)
  show ?case
  proof (cases qs)
    case Nil
    then show ?thesis by simp
  next
    case (Cons q rs)
    let ?n = "case child p t of None \<Rightarrow> CreateNode p | Some n \<Rightarrow> n"
    have room: "has_room ps ?n"
      using Cons.prems by (auto simp: has_room_Cons split: option.splits)
    show ?thesis
    proof (cases "q = p")
      case True
      then show ?thesis
        using Cons.IH [OF room, of rs] child_add_path_same [OF Cons.prems] Cons
        by (auto simp: search_Cons simp del: add_path.simps split: option.splits)
    next
      case False
      then show ?thesis
        using child_add_path_other [of p q ps t] Cons
        by (auto simp: search_Cons simp del: add_path.simps)
    qed
  qed
qed

lemma add_path_full: "\<not> has_room ps t \<Longrightarrow> add_path ps t = t"
proof (induction ps arbitrary: t)
  case Nil
  then show ?case by simp
next
  case (Cons p ps)
  show ?case
  proof (cases "child p t")
    case None
    with Cons.prems show ?thesis by (auto simp: has_room_Cons child_None_iff)
  next
    case (Some n)
    with Cons.prems have "add_path ps n = n" by (intro Cons.IH) (simp add: has_room_Cons)
    with Some show ?thesis
      by (cases t) (auto elim!: child_SomeE simp: list_update_same_conv)
  qed
qed

lemma add_path_present: "SearchPathHelperTries t ps \<Longrightarrow> add_path ps t = t"
proof (induction ps arbitrary: t)
  case Nil
  then show ?case by simp
next
  case (Cons p ps)
  then obtain n where n: "child p t = Some n" "SearchPathHelperTries n ps"
    by (auto simp: search_Cons split: option.splits)
  with Cons.IH have "add_path ps n = n" by simp
  with n(1) show ?case
    by (cases t) (auto elim!: child_SomeE simp: list_update_same_conv)
qed

lemma wf_trie_iff:
  "wf_trie t \<longleftrightarrow>
     length (childeren t) = MAX_FOLDERS \<and> uniq_names (childeren t) \<and>
     (isLeaf t \<longrightarrow> list_all is_null (childeren t)) \<and> (\<forall>n. Some n \<in> set (childeren t) \<longrightarrow> wf_trie n)"
  by (cases t) (auto simp: list_all_iff split: option.splits)

declare wf_trie.simps [simp del]

lemma wf_trieD:
  assumes "wf_trie t"
  shows "length (childeren t) = MAX_FOLDERS" "uniq_names (childeren t)"
    "isLeaf t \<Longrightarrow> list_all is_null (childeren t)" "Some n \<in> set (childeren t) \<Longrightarrow> wf_trie n"
  using assms wf_trie_iff [of t] by simp_all

lemma wf_trieI:
  assumes "length cs = MAX_FOLDERS" "uniq_names cs" "l \<Longrightarrow> list_all is_null cs"
    "\<And>n. Some n \<in> set cs \<Longrightarrow> wf_trie n"
  shows "wf_trie (TrieNode cs l d)"
  using assms wf_trie_iff [of "TrieNode cs l d"] by simp

lemma wf_trie_child: "wf_trie t \<Longrightarrow> child p t = Some n \<Longrightarrow> wf_trie n"
  by (metis child_SomeE nth_mem wf_trieD(4))

lemma search_del_path:
  "wf_trie t \<Longrightarrow> SearchPathHelperTries t ps \<Longrightarrow> ps \<noteq> [] \<Longrightarrow>
   SearchPathHelperTries (del_path ps t) qs \<longleftrightarrow> SearchPathHelperTries t qs \<and> \<not> prefix ps qs"
proof (induction ps arbitrary: t qs)
  case Nil
  then show ?case by simp
next
  case (Cons p ps)
  then obtain n where n: "child p t = Some n" "SearchPathHelperTries n ps"
    by (auto simp: search_Cons split: option.splits)
  have uniq: "uniq_names (childeren t)" using Cons.prems(1) by (rule wf_trieD)
  show ?case
  proof (cases qs)
    case Nil
    then show ?thesis by simp
  next
    case (Cons q rs)
    consider "q \<noteq> p" | "q = p" "ps = []" | "q = p" "ps \<noteq> []" by blast
    then show ?thesis
    proof cases
      case 1
      then show ?thesis
        using child_del_path_other [of p q ps t] Cons by (auto simp: search_Cons simp del: del_path.simps)
    next
      case 2
      then show ?thesis
        using child_del_path_last [OF uniq] n Cons by (auto simp: search_Cons simp del: del_path.simps)
    next
      case 3
      then show ?thesis
        using child_del_path_inner [OF n(1)] Cons.IH [OF wf_trie_child [OF Cons.prems(1) n(1)] n(2), of rs]
          Cons n by (auto simp: search_Cons simp del: del_path.simps)
    qed
  qed
qed

lemma del_path_absent:
  "\<not> SearchPathHelperTries t ps \<Longrightarrow> del_path ps t = t"
proof (induction ps arbitrary: t)
  case Nil
  then show ?case by simp
next
  case (Cons p ps)
  show ?case
  proof (cases "child p t")
    case None
    then show ?thesis by (simp add: child_None_iff)
  next
    case (Some n)
    with Cons.prems have "ps \<noteq> []" and "del_path ps n = n"
      using Cons.IH by (auto simp: search_Cons)
    with Some show ?thesis
      by (cases t) (auto elim!: child_SomeE simp: list_update_same_conv)
  qed
qed

lemma search_prefix_closed: "SearchPathHelperTries t qs \<Longrightarrow> prefix ps qs \<Longrightarrow> SearchPathHelperTries t ps"
proof (induction ps arbitrary: t qs)
  case Nil
  then show ?case by simp
next
  case (Cons p ps)
  then obtain rs where "qs = p # rs" "prefix ps rs" by (cases qs) auto
  with Cons show ?case by (auto simp: search_Cons split: option.splits)
qed

section \<open>The invariant is kept\<close>

lemma wf_CreateNode [simp]: "wf_trie (CreateNode p)"
  by (auto simp: CreateNode_def uniq_names_def list_all_iff is_null_def intro!: wf_trieI)

lemma uniq_names_update:
  assumes "uniq_names cs" "j < length cs"
    and "\<And>i. i < length cs \<Longrightarrow> i \<noteq> j \<Longrightarrow> \<not> is_child (data m) (cs ! i)"
  shows "uniq_names (cs[j := Some m])"
  unfolding uniq_names_def
proof (intro allI impI)
  fix i k
  assume "i < length (cs[j := Some m])" "k < length (cs[j := Some m])"
    and *: "cs[j := Some m] ! i \<noteq> None \<and> cs[j := Some m] ! k \<noteq> None \<and>
      data (the (cs[j := Some m] ! i)) = data (the (cs[j := Some m] ! k))"
  then have i: "i < length cs" and k: "k < length cs" by simp_all
  show "i = k"
    using * i k assms(1) assms(3) [OF i] assms(3) [OF k]
    by (cases "i = j"; cases "k = j") (auto simp: uniq_names_def is_child_iff)
qed

lemma uniq_names_clear: "uniq_names cs \<Longrightarrow> uniq_names (cs[j := None])"
  by (cases "j < length cs") (auto simp: uniq_names_def nth_list_update)

lemma wf_trie_set_child:
  assumes "wf_trie t" "j < length (childeren t)" "wf_trie m" "uniq_names ((childeren t)[j := Some m])"
    "l \<longrightarrow> isLeaf t \<and> childeren t ! j \<noteq> None"
  shows "wf_trie (TrieNode ((childeren t)[j := Some m]) l (data t))"
proof (rule wf_trieI)
  show "wf_trie n" if "Some n \<in> set ((childeren t)[j := Some m])" for n
    using that set_update_subset_insert [of "childeren t" j "Some m"] wf_trieD(4) [OF assms(1)] assms(3)
    by auto
  show "list_all is_null ((childeren t)[j := Some m])" if l
  proof -
    have "list_all is_null (childeren t)" "childeren t ! j \<noteq> None"
      using assms(5) that wf_trieD(3) [OF assms(1)] by simp_all
    with assms(2) have False by (simp add: list_all_length is_null_def)
    then show ?thesis ..
  qed
qed (use assms(4) wf_trieD(1) [OF assms(1)] in simp_all)

lemma find_child_unique:
  assumes "uniq_names cs" "find_slot (is_child p) cs = Some j" "i < length cs" "i \<noteq> j"
  shows "\<not> is_child p (cs ! i)"
  using assms by (auto simp: uniq_names_def is_child_iff dest!: find_child_SomeD)

lemma wf_add_path: "wf_trie t \<Longrightarrow> wf_trie (add_path ps t)"
proof (induction ps arbitrary: t)
  case Nil
  then show ?case by simp
next
  case (Cons p ps)
  have uniq: "uniq_names (childeren t)" using Cons.prems by (rule wf_trieD)
  show ?case
  proof (cases "child p t")
    case None
    show ?thesis
    proof (cases "find_slot is_null (childeren t)")
      case None
      with \<open>child p t = None\<close> Cons.prems show ?thesis by (simp add: child_None_iff)
    next
      case (Some j)
      have j: "j < length (childeren t)" using find_slot_SomeD [OF Some] by simp
      have "uniq_names ((childeren t)[j := Some (add_path ps (CreateNode p))])"
        using None uniq j by (intro uniq_names_update) (auto simp: child_None_iff find_slot_None)
      then have "wf_trie (TrieNode ((childeren t)[j := Some (add_path ps (CreateNode p))]) False (data t))"
        using Cons.prems j Cons.IH by (intro wf_trie_set_child) auto
      with None Some show ?thesis by (simp add: child_None_iff)
    qed
  next
    case (Some n)
    then obtain j where j: "find_slot (is_child p) (childeren t) = Some j" "j < length (childeren t)"
      "childeren t ! j = Some n" "data n = p" by (rule child_SomeE)
    have "uniq_names ((childeren t)[j := Some (add_path ps n)])"
      using uniq j find_child_unique [OF uniq j(1)] by (intro uniq_names_update) auto
    then have "wf_trie (TrieNode ((childeren t)[j := Some (add_path ps n)]) (isLeaf t) (data t))"
      using Cons.prems j Cons.IH [OF wf_trie_child [OF Cons.prems Some]]
      by (intro wf_trie_set_child) auto
    with j show ?thesis by simp
  qed
qed

lemma wf_del_path: "wf_trie t \<Longrightarrow> wf_trie (del_path ps t)"
proof (induction ps arbitrary: t)
  case Nil
  then show ?case by simp
next
  case (Cons p ps)
  have uniq: "uniq_names (childeren t)" using Cons.prems by (rule wf_trieD)
  show ?case
  proof (cases "child p t")
    case None
    with Cons.prems show ?thesis by (simp add: child_None_iff)
  next
    case (Some n)
    then obtain j where j: "find_slot (is_child p) (childeren t) = Some j" "j < length (childeren t)"
      "childeren t ! j = Some n" "data n = p" by (rule child_SomeE)
    show ?thesis
    proof (cases "ps = []")
      case True
      have sub: "set ((childeren t)[j := None]) \<subseteq> insert None (set (childeren t))"
        by (rule set_update_subset_insert)
      have "wf_trie (TrieNode ((childeren t)[j := None]) (isLeaf t) (data t))"
      proof (rule wf_trieI)
        show "wf_trie m" if "Some m \<in> set ((childeren t)[j := None])" for m
          using that sub wf_trieD(4) [OF Cons.prems] by auto
        show "list_all is_null ((childeren t)[j := None])" if "isLeaf t"
          using sub wf_trieD(3) [OF Cons.prems that] by (auto simp: list_all_iff is_null_def)
      qed (use uniq_names_clear [OF uniq] wf_trieD(1) [OF Cons.prems] in simp_all)
      with True j show ?thesis by simp
    next
      case False
      have "uniq_names ((childeren t)[j := Some (del_path ps n)])"
        using uniq j find_child_unique [OF uniq j(1)] by (intro uniq_names_update) auto
      then have "wf_trie (TrieNode ((childeren t)[j := Some (del_path ps n)]) (isLeaf t) (data t))"
        using Cons.prems j Cons.IH [OF wf_trie_child [OF Cons.prems Some]]
        by (intro wf_trie_set_child) auto
      with j False show ?thesis by simp
    qed
  qed
qed

section \<open>Room in terms of directory sizes\<close>

definition child_names :: "trienode option list \<Rightarrow> string list" where
  "child_names cs = map (data \<circ> the) (filter (\<lambda>c. c \<noteq> None) cs)"

lemma distinct_child_names: "uniq_names cs \<Longrightarrow> distinct (child_names cs)"
proof (induction cs)
  case Nil
  then show ?case by (simp add: child_names_def)
next
  case (Cons c cs)
  have "uniq_names cs"
    using Cons.prems unfolding uniq_names_def
    by (metis Suc_less_eq length_Cons nat.inject nth_Cons_Suc)
  moreover have "data n \<notin> set (child_names cs)" if "c = Some n" for n
  proof
    assume "data n \<in> set (child_names cs)"
    then obtain i m where i: "i < length cs" "cs ! i = Some m" "data m = data n"
      by (auto simp: child_names_def in_set_conv_nth)
    with Cons.prems that have "0 = Suc i"
      unfolding uniq_names_def by (metis Suc_less_eq length_Cons nth_Cons_0 nth_Cons_Suc option.distinct(1)
          option.sel zero_less_Suc)
    then show False by simp
  qed
  ultimately show ?case
    using Cons.IH by (cases c) (auto simp: child_names_def)
qed

lemma child_names_iff: "child y n \<noteq> None \<longleftrightarrow> y \<in> set (child_names (childeren n))"
  by (force simp: child_None_iff find_slot_None child_names_def is_child_iff)

lemma entries_eq: "{y. SearchPathHelperTries n [y]} = set (child_names (childeren n))"
  by (auto simp: search_Cons child_names_iff [symmetric] split: option.splits)

lemma free_slot_iff:
  assumes "wf_trie n"
  shows "find_slot is_null (childeren n) \<noteq> None \<longleftrightarrow> card {y. SearchPathHelperTries n [y]} < MAX_FOLDERS"
proof -
  have "card {y. SearchPathHelperTries n [y]} = length (filter (\<lambda>c. c \<noteq> None) (childeren n))"
    using distinct_card [OF distinct_child_names [OF wf_trieD(2) [OF assms]]]
    unfolding entries_eq by (simp add: child_names_def)
  moreover have "length (filter (\<lambda>c. c \<noteq> None) (childeren n)) < length (childeren n) \<longleftrightarrow>
      (\<exists>c\<in>set (childeren n). c = None)"
    using length_filter_less [of _ "childeren n" "\<lambda>c. c \<noteq> None"]
    by (metis (mono_tags, lifting) filter_True less_irrefl)
  ultimately show ?thesis
    using wf_trieD(1) [OF assms] by (auto simp: find_slot_None is_null_def)
qed

text \<open>A path fits when every directory it has to extend has fewer than
  \<^verbatim>\<open>MAX_FOLDERS\<close> entries.\<close>

lemma has_room_iff:
  "wf_trie t \<Longrightarrow> has_room ps t \<longleftrightarrow>
     (\<forall>d x. prefix (d @ [x]) ps \<and> SearchPathHelperTries t d \<and> \<not> SearchPathHelperTries t (d @ [x]) \<longrightarrow>
        card {y. SearchPathHelperTries t (d @ [y])} < MAX_FOLDERS)"
proof (induction ps arbitrary: t)
  case Nil
  then show ?case by simp
next
  case (Cons p ps)
  have split: "(\<forall>d x. P d x) \<longleftrightarrow> (\<forall>x. P [] x) \<and> (\<forall>a d x. P (a # d) x)" for P :: "string list \<Rightarrow> string \<Rightarrow> bool"
    by (metis list.exhaust)
  show ?case
  proof (cases "child p t")
    case None
    then have no: "\<not> SearchPathHelperTries t (p # qs)" for qs by (simp add: search_Cons)
    have "has_room (p # ps) t \<longleftrightarrow> card {y. SearchPathHelperTries t [y]} < MAX_FOLDERS"
      using None free_slot_iff [OF Cons.prems] by (simp add: has_room_Cons)
    moreover have "prefix (d @ [x]) (p # ps) \<and> SearchPathHelperTries t d \<and> \<not> SearchPathHelperTries t (d @ [x])
        \<longleftrightarrow> d = [] \<and> x = p" for d x
      using no by (cases d) auto
    ultimately show ?thesis by simp
  next
    case (Some n)
    then have yes: "SearchPathHelperTries t (p # qs) \<longleftrightarrow> SearchPathHelperTries n qs" for qs
      by (simp add: search_Cons)
    have "has_room (p # ps) t \<longleftrightarrow> has_room ps n" using Some by (simp add: has_room_Cons)
    moreover have "prefix ((a # d) @ [x]) (p # ps) \<longleftrightarrow> a = p \<and> prefix (d @ [x]) ps" for a d x
      by auto
    ultimately show ?thesis
      using Cons.IH [OF wf_trie_child [OF Cons.prems Some]] yes [of "[]"]
      by (subst split) (auto simp: yes)
  qed
qed

section \<open>The contract of a path index\<close>

text \<open>What the naming server relies on: a set of stored paths, closed under prefixes, that
  insertion extends when every directory has room, and that deletion reduces by a subtree.\<close>

locale path_index =
  fixes wf :: "'t \<Rightarrow> bool"
    and stored :: "'t \<Rightarrow> string list \<Rightarrow> bool"
    and ins :: "string list \<Rightarrow> 't \<Rightarrow> 't"
    and del :: "string list \<Rightarrow> 't \<Rightarrow> 't"
    and capacity :: nat
  assumes wf_ins: "wf t \<Longrightarrow> wf (ins ps t)"
    and wf_del: "wf t \<Longrightarrow> wf (del ps t)"
    and stored_root: "stored t []"
    and stored_prefix: "stored t qs \<Longrightarrow> prefix ps qs \<Longrightarrow> stored t ps"
    and finite_dir: "wf t \<Longrightarrow> finite {y. stored t (d @ [y])}"
    and stored_ins:
      "wf t \<Longrightarrow>
       (\<And>d x. prefix (d @ [x]) ps \<Longrightarrow> stored t d \<Longrightarrow> \<not> stored t (d @ [x]) \<Longrightarrow>
          card {y. stored t (d @ [y])} < capacity) \<Longrightarrow>
       stored (ins ps t) qs \<longleftrightarrow> stored t qs \<or> prefix qs ps"
    and stored_del:
      "wf t \<Longrightarrow> stored t ps \<Longrightarrow> ps \<noteq> [] \<Longrightarrow> stored (del ps t) qs \<longleftrightarrow> stored t qs \<and> \<not> prefix ps qs"
begin

lemma wf_fold_ins: "wf t \<Longrightarrow> wf (fold ins pss t)"
  by (induction pss arbitrary: t) (simp_all add: wf_ins)

text \<open>Indexing a whole listing whose directories all fit stores exactly the listed paths and their
  prefixes.\<close>

lemma stored_fold_ins:
  assumes "wf t"
    and "\<And>d. finite {y. d @ [y] \<in> F}" "\<And>d. card {y. d @ [y] \<in> F} \<le> capacity"
    and "\<And>qs. stored t qs \<Longrightarrow> qs \<in> F" "\<And>ps qs. ps \<in> set pss \<Longrightarrow> prefix qs ps \<Longrightarrow> qs \<in> F"
  shows "stored (fold ins pss t) qs \<longleftrightarrow> stored t qs \<or> (\<exists>ps\<in>set pss. prefix qs ps)"
  using assms(1,4,5)
proof (induction pss arbitrary: t)
  case Nil
  then show ?case by simp
next
  case (Cons ps pss)
  have room: "card {y. stored t (d @ [y])} < capacity"
    if "prefix (d @ [x]) ps" "\<not> stored t (d @ [x])" for d x
  proof -
    have "{y. stored t (d @ [y])} \<subset> {y. d @ [y] \<in> F}"
      using that Cons.prems(2) Cons.prems(3) [of ps] by auto
    then have "card {y. stored t (d @ [y])} < card {y. d @ [y] \<in> F}"
      using assms(2) by (intro psubset_card_mono)
    with assms(3) [of d] show ?thesis by simp
  qed
  have ins: "stored (ins ps t) rs \<longleftrightarrow> stored t rs \<or> prefix rs ps" for rs
    using stored_ins [OF Cons.prems(1)] room by blast
  have "stored (fold ins pss (ins ps t)) qs \<longleftrightarrow> stored (ins ps t) qs \<or> (\<exists>ps\<in>set pss. prefix qs ps)"
    using Cons.prems by (intro Cons.IH) (auto simp: wf_ins ins)
  then show ?case by (auto simp: ins)
qed

lemma stored_del_self: "wf t \<Longrightarrow> stored t ps \<Longrightarrow> ps \<noteq> [] \<Longrightarrow> \<not> stored (del ps t) ps"
  by (simp add: stored_del)

end

lemma finite_entries: "finite {y. SearchPathHelperTries t (d @ [y])}"
proof (induction d arbitrary: t)
  case Nil
  then show ?case by (simp add: entries_eq)
next
  case (Cons p d)
  then show ?case by (cases "child p t") (simp_all add: search_Cons)
qed

interpretation trie: path_index wf_trie SearchPathHelperTries add_path del_path MAX_FOLDERS
proof (unfold_locales, goal_cases)
  case (6 t ps qs)
  then have "has_room ps t" by (auto simp: has_room_iff)
  then show ?case by (rule search_add_path)
qed (auto simp: wf_add_path wf_del_path finite_entries search_del_path intro: search_prefix_closed)

section \<open>The stored paths as a list\<close>

fun trie_paths :: "trienode \<Rightarrow> string list list"
  and children_paths :: "trienode option list \<Rightarrow> string list list" where
  "trie_paths (TrieNode cs l d) = [] # children_paths cs"
| "children_paths [] = []"
| "children_paths (None # cs) = children_paths cs"
| "children_paths (Some n # cs) = map (Cons (data n)) (trie_paths n) @ children_paths cs"

lemma set_children_paths:
  "set (children_paths cs) = {p # ps |p ps. \<exists>n. Some n \<in> set cs \<and> data n = p \<and> ps \<in> set (trie_paths n)}"
proof (induction cs)
  case Nil
  then show ?case by simp
next
  case (Cons c cs)
  then show ?case by (cases c) auto
qed

lemma child_of_member:
  assumes "wf_trie t" "Some n \<in> set (childeren t)"
  shows "child (data n) t = Some n"
proof -
  obtain i where i: "i < length (childeren t)" "childeren t ! i = Some n"
    using assms(2) by (auto simp: in_set_conv_nth)
  then have "child (data n) t \<noteq> None"
    by (auto simp: child_None_iff find_slot_None intro!: bexI [OF _ assms(2)])
  then obtain m where m: "child (data n) t = Some m" by blast
  from m obtain j where "j < length (childeren t)" "childeren t ! j = Some m" "data m = data n"
    by (rule child_SomeE)
  with i wf_trieD(2) [OF assms(1)] have "i = j" by (auto simp: uniq_names_def)
  with i \<open>childeren t ! j = Some m\<close> m show ?thesis by simp
qed

lemma trie_paths_stored: "wf_trie t \<Longrightarrow> ps \<in> set (trie_paths t) \<longleftrightarrow> SearchPathHelperTries t ps"
proof (induction ps arbitrary: t)
  case Nil
  then show ?case by (cases t) simp
next
  case (Cons p ps)
  have "p # ps \<in> set (trie_paths t) \<longleftrightarrow>
      (\<exists>n. Some n \<in> set (childeren t) \<and> data n = p \<and> ps \<in> set (trie_paths n))"
    by (cases t) (auto simp: set_children_paths)
  also have "\<dots> \<longleftrightarrow> (\<exists>n. child p t = Some n \<and> ps \<in> set (trie_paths n))"
    using child_of_member [OF Cons.prems] by (metis child_SomeE nth_mem)
  also have "\<dots> \<longleftrightarrow> SearchPathHelperTries t (p # ps)"
    using Cons.IH wf_trie_child [OF Cons.prems] by (auto simp: search_Cons split: option.splits)
  finally show ?case .
qed

lemma distinct_trie_paths:
  "wf_trie t \<Longrightarrow> distinct (trie_paths t)"
  "(\<And>n. Some n \<in> set cs \<Longrightarrow> wf_trie n) \<Longrightarrow> distinct (child_names cs) \<Longrightarrow> distinct (children_paths cs)"
proof (induction t and cs rule: trie_paths_children_paths.induct)
  case (1 cs l d)
  then show ?case
    using distinct_child_names wf_trieD(2,4) [OF "1.prems"] by (auto simp: set_children_paths)
next
  case (4 n cs)
  have "data n \<noteq> data m" if "Some m \<in> set cs" for m
    using "4.prems"(2) that by (force simp: child_names_def)
  then have "set (map (Cons (data n)) (trie_paths n)) \<inter> set (children_paths cs) = {}"
    by (force simp: set_children_paths)
  then show ?case
    using 4 by (simp add: distinct_map child_names_def)
qed (auto simp: child_names_def)

lemma CountItems_total:
  "fst (CountItems t a) + snd (CountItems t a) = fst a + snd a + int (length (trie_paths t))"
  "fst (CountChildren cs a) + snd (CountChildren cs a) = fst a + snd a + int (length (children_paths cs))"
  by (induction t a and cs a rule: CountItems_CountChildren.induct) auto

lemma PrintTree_returns_iff:
  "returns (PrintTree t depth prefx isLast) (\<lambda>_. True) \<longleftrightarrow>
     (\<forall>ps\<in>set (trie_paths t). depth + length ps + 1 < MAX_PATH)"
  "returns (PrintChildren cs depth prefx) (\<lambda>_. True) \<longleftrightarrow>
     (\<forall>ps\<in>set (children_paths cs). depth + length ps < MAX_PATH)"
proof (induction t depth prefx isLast and cs depth prefx rule: PrintTree_PrintChildren.induct)
  case (1 cs l d depth prefx isLast)
  show ?case
  proof (cases "depth + 1 < MAX_PATH")
    case True
    then obtain np where np: "extend_prefix prefx depth isLast = Inr np"
      by (simp add: extend_prefix_def)
    with "1" [of np] True show ?thesis
      by (fastforce simp: set_children_paths returns_iff)
  next
    case False
    then show ?thesis by (auto simp: extend_prefix_def)
  qed
next
  case (4 n cs depth prefx)
  show ?case
    using 4 by (auto simp: returns_iff ball_Un)
qed auto

section \<open>Properties\<close>

declare add_path.simps(2) [simp del] del_path.simps(2) [simp del]

lemma ParsePath_join_eq:
  assumes "\<forall>w\<in>set ws. w \<noteq> [] \<and> CHR ''/'' \<notin> set w \<and> w \<noteq> ''~''"
  shows "ParsePath (join CHR ''/'' ws) = (if length ws < MAX_PATH then Inr ws else Inl OutOfBounds)"
proof -
  have "strtok_all ''/'' (join CHR ''/'' ws) = ws" using assms by (intro strtok_all_join) auto
  moreover have "filter (\<lambda>w. w \<noteq> ''~'') ws = ws" using assms by (simp add: filter_id_conv)
  ultimately show ?thesis by (simp add: ParsePath_def)
qed

lemma SearchPath_eq: "ParsePath q = Inr qs \<Longrightarrow> SearchPath t q = Inr 1 \<longleftrightarrow> SearchPathHelperTries t qs"
  by (simp add: SearchPath_def)

lemma SearchPath_absent: "ParsePath q = Inr qs \<Longrightarrow> SearchPath t q = Inr (-1) \<longleftrightarrow> \<not> SearchPathHelperTries t qs"
  by (simp add: SearchPath_def)

lemma ParsePath_elements:
  "ParsePath path = Inr ps \<Longrightarrow>
     length ps < MAX_PATH \<and> (\<forall>p\<in>set ps. p \<noteq> [] \<and> CHR ''/'' \<notin> set p \<and> p \<noteq> ''~'')"
  using strtok_all_tokens [of _ "''/''" path] by (fastforce simp: ParsePath_def Let_def split: if_splits)

lemma DeletePath_eq:
  "ParsePath path = Inr ps \<Longrightarrow> ps \<noteq> [] \<Longrightarrow> SearchPathHelperTries t ps \<Longrightarrow> DeletePath path t = Inr (del_path ps t)"
  by (simp add: DeletePath_def SearchPath_def)

text \<open>C31. \<^verbatim>\<open>ParsePath\<close> inverts the joining of path elements with slashes, as long as there
  are fewer than \<^verbatim>\<open>MAX_PATH\<close> of them; with more it writes past the end of the caller's
  array.\<close>

theorem ParsePath_roundtrip:
  assumes "\<forall>w\<in>set ws. w \<noteq> [] \<and> CHR ''/'' \<notin> set w \<and> w \<noteq> ''~''"
  shows "ParsePath (join CHR ''/'' ws) = (if length ws < MAX_PATH then Inr ws else Inl OutOfBounds)"
  using assms by (rule ParsePath_join_eq)

theorem ParsePath_roundtrip_witness:
  "ParsePath (join CHR ''/'' [''.'', ''home'', ''notes.txt'']) = Inr [''.'', ''home'', ''notes.txt''] \<and>
   ParsePath (join CHR ''/'' (replicate 256 ''d'')) = Inl OutOfBounds"
  using ParsePath_roundtrip [of "[''.'', ''home'', ''notes.txt'']"]
    ParsePath_roundtrip [of "replicate 256 ''d''"]
  by (simp add: MAX_PATH_def del: join.simps)

text \<open>C25. Adding a path that fits makes exactly the path and its ancestors findable, keeps everything
  else as it was, and keeps the representation invariant.\<close>

theorem add_then_search:
  assumes "wf_trie t" "ParsePath path = Inr ps" "has_room ps t"
  shows "\<exists>t'. AddPathToTrie path t = Inr t' \<and> wf_trie t' \<and>
    (\<forall>q qs. ParsePath q = Inr qs \<longrightarrow>
       (SearchPath t' q = Inr 1 \<longleftrightarrow> SearchPath t q = Inr 1 \<or> prefix qs ps))"
  using assms by (auto simp: AddPathToTrie_def SearchPath_eq wf_add_path search_add_path)

lemma ParsePath_examples:
  "ParsePath ''./a/b'' = Inr [''.'', ''a'', ''b'']" "ParsePath ''./a'' = Inr [''.'', ''a'']"
  "ParsePath ''./c'' = Inr [''.'', ''c'']" "ParsePath ''~'' = Inr []"
  by code_simp+

theorem add_then_search_witness:
  "\<exists>t'. AddPathToTrie ''./a/b'' (CreateNode ''.'') = Inr t' \<and>
     SearchPath t' ''./a'' = Inr 1 \<and> SearchPath t' ''./c'' \<noteq> Inr 1"
  using add_then_search [OF wf_CreateNode ParsePath_examples(1) has_room_CreateNode, of "''.''"]
    ParsePath_examples by (auto simp: SearchPath_eq)

text \<open>C37. Adding a path below a directory whose \<^verbatim>\<open>MAX_FOLDERS\<close> slots are all taken changes
  nothing, and the path is not found afterwards: the new node is lost.\<close>

theorem add_to_full_directory:
  assumes "wf_trie t" "ParsePath path = Inr ps" "\<not> has_room ps t"
  shows "AddPathToTrie path t = Inr t \<and> SearchPath t path = Inr (-1)"
proof -
  have "\<not> SearchPathHelperTries t ps"
    using assms(3)
  proof (induction ps arbitrary: t)
    case (Cons p ps)
    then show ?case by (auto simp: search_Cons has_room_Cons split: option.splits)
  qed simp
  with assms show ?thesis by (simp add: AddPathToTrie_def SearchPath_absent add_path_full)
qed

definition full_dir :: trienode where
  "full_dir = TrieNode (map (\<lambda>i. Some (CreateNode (show_nat i))) [0..<MAX_FOLDERS]) False ''.''"

lemma full_dir_wf: "wf_trie full_dir"
proof -
  have "show_nat i = show_nat j \<Longrightarrow> i = j" for i j by (metis digits_val_show_nat)
  then show ?thesis by (auto simp: full_dir_def uniq_names_def intro!: wf_trieI)
qed

lemma full_dir_no_room: "\<not> is_digit c \<Longrightarrow> \<not> has_room ((c # cs) # ps) full_dir"
proof -
  assume "\<not> is_digit c"
  then have "show_nat i \<noteq> c # cs" for i using show_nat_digits [of c i] by auto
  then have "child (c # cs) full_dir = None"
    by (auto simp: child_None_iff find_slot_None full_dir_def)
  moreover have "find_slot is_null (childeren full_dir) = None"
    by (auto simp: find_slot_None full_dir_def is_null_def)
  ultimately show ?thesis by (simp add: has_room_Cons)
qed

theorem add_to_full_directory_witness:
  "AddPathToTrie ''./a'' full_dir = Inr full_dir \<and> SearchPath full_dir ''./a'' = Inr (-1)"
  by (rule add_to_full_directory [OF full_dir_wf ParsePath_examples(2)])
    (rule full_dir_no_room, simp add: is_digit_def)

text \<open>C26. Deleting a stored path other than the root removes exactly that path and what lies below it.\<close>

theorem delete_then_search:
  assumes "wf_trie t" "ParsePath path = Inr ps" "ps \<noteq> []" "SearchPath t path = Inr 1"
  shows "\<exists>t'. DeletePath path t = Inr t' \<and> wf_trie t' \<and>
    (\<forall>q qs. ParsePath q = Inr qs \<longrightarrow>
       (SearchPath t' q = Inr 1 \<longleftrightarrow> SearchPath t q = Inr 1 \<and> \<not> prefix ps qs))"
  using assms trie.stored_del by (auto simp: DeletePath_eq SearchPath_eq trie.wf_del)

definition ab_trie :: trienode where
  "ab_trie = add_path [''.'', ''c''] (add_path [''.'', ''a'', ''b''] (CreateNode ''.''))"

lemma ab_trie_wf: "wf_trie ab_trie"
  by (simp add: ab_trie_def wf_add_path)

lemma ab_trie_room: "has_room [''.'', ''c''] (add_path [''.'', ''a'', ''b''] (CreateNode ''.''))"
proof -
  have "{y. SearchPathHelperTries (add_path [''.'', ''a'', ''b''] (CreateNode ''.'')) [''.'', y]} = {''a''}"
    by (auto simp: search_add_path)
  moreover have "prefix (d @ [x]) [''.'', ''c''] \<Longrightarrow> d = [] \<or> d = [''.''] \<and> x = ''c''" for d x
    by (cases d; cases "tl d") auto
  ultimately show ?thesis
    unfolding has_room_iff [OF wf_add_path [OF wf_CreateNode]]
    by (fastforce simp: search_add_path MAX_FOLDERS_def)
qed

lemma ab_trie_search: "SearchPathHelperTries ab_trie qs \<longleftrightarrow> prefix qs [''.'', ''a'', ''b''] \<or> prefix qs [''.'', ''c'']"
  using ab_trie_room by (auto simp: ab_trie_def search_add_path)

theorem delete_then_search_witness:
  "\<exists>t'. DeletePath ''./a'' ab_trie = Inr t' \<and> SearchPath t' ''./a/b'' \<noteq> Inr 1 \<and> SearchPath t' ''./c'' = Inr 1"
proof -
  have "SearchPath ab_trie ''./a'' = Inr 1"
    by (simp add: SearchPath_eq [OF ParsePath_examples(2)] ab_trie_search)
  from delete_then_search [OF ab_trie_wf ParsePath_examples(2) _ this] show ?thesis
    using ParsePath_examples by (auto simp: SearchPath_eq ab_trie_search)
qed

text \<open>Deleting the root (a path with no element besides \<^verbatim>\<open>~\<close>) dereferences a NULL
  pointer, whatever the trie holds.\<close>

lemma delete_root_faults: "DeletePath ''~'' t = Inl NullDeref"
  using ParsePath_examples(4) by (simp add: DeletePath_def SearchPath_def)

text \<open>The summary line of \<^verbatim>\<open>DisplayTrie\<close> counts every stored path once: directories and
  files add up to the number of stored paths.\<close>

lemma display_counts:
  assumes "wf_trie t" "CountItems t (0, 0) = (dirs, files)"
  shows "dirs + files = int (card {ps. SearchPathHelperTries t ps})"
proof -
  have "set (trie_paths t) = {ps. SearchPathHelperTries t ps}"
    using trie_paths_stored [OF assms(1)] by auto
  then have "card {ps. SearchPathHelperTries t ps} = length (trie_paths t)"
    using distinct_card [OF distinct_trie_paths(1) [OF assms(1)]] by simp
  with CountItems_total(1) [of t "(0, 0)"] assms(2) show ?thesis by simp
qed

text \<open>Displaying a trie stays within its prefix buffer exactly when every stored path has at most
  254 elements; a path of 255 elements, which the parser accepts, overruns it.\<close>

lemma display_returns_iff:
  assumes "wf_trie t"
  shows "returns (DisplayTrie t) (\<lambda>_. True) \<longleftrightarrow> (\<forall>ps. SearchPathHelperTries t ps \<longrightarrow> length ps + 1 < MAX_PATH)"
proof -
  have "returns (DisplayTrie t) (\<lambda>_. True) \<longleftrightarrow> returns (PrintTree t 0 [] True) (\<lambda>_. True)"
    by (cases "CountItems t (0, 0)") (auto simp: DisplayTrie_def returns_iff)
  then show ?thesis
    using PrintTree_returns_iff(1) [of t 0 "[]" True] trie_paths_stored [OF assms] by auto
qed

end
