(* ===== verification/Ns_Index.thy ===== *)
theory Ns_Index
  imports Tries
begin

text \<open>
  The reader of a storage server's listing, the loop of \<^verbatim>\<open>indexHelper\<close> in
  \<^verbatim>\<open>naming_server.c\<close>: bytes arrive in chunks, complete lines are added to the trie, the
  partial line at the end is carried over to the next chunk, and a line with the end marker stops the
  loop. The lemmas show when the result does not depend on how the stream is cut into chunks.
\<close>

section \<open>The loop\<close>

definition NL :: char where "NL = CHR 0x0A"

definition finished_marker :: string where
  "finished_marker = ''@!-Finished Indexing-!@''"

lemma rest_shorter: "c \<in> set cur \<Longrightarrow> length (drop 1 (dropWhile (\<lambda>d. d \<noteq> c) cur)) < length cur"
proof -
  assume c: "c \<in> set cur"
  then have "0 < length (dropWhile (\<lambda>d. d \<noteq> c) cur)" by simp
  moreover have "length (dropWhile (\<lambda>d. d \<noteq> c) cur) \<le> length cur" by (rule length_dropWhile_le)
  ultimately show ?thesis unfolding length_drop by linarith
qed

text \<open>The inner loop over the complete lines of \<^verbatim>\<open>temp_buffer\<close>: whether the marker was seen,
  the text from \<^verbatim>\<open>current\<close> on, and the trie.\<close>

function drain_lines :: "string \<Rightarrow> trienode \<Rightarrow> (bool \<times> string \<times> trienode) result" where
  "drain_lines cur r =
     (if NL \<notin> set cur then Inr (False, cur, r)
      else
        (let line = takeWhile (\<lambda>c. c \<noteq> NL) cur;
             rest = drop 1 (dropWhile (\<lambda>c. c \<noteq> NL) cur) in
         if contains finished_marker line then Inr (True, line, r)
         else if length line > 0
         then andthen (AddPathToTrie line r) (\<lambda>r'. drain_lines rest r')
         else drain_lines rest r))"
  by pat_completeness auto
termination
  by (relation "measure (\<lambda>(cur, r). length cur)") (auto simp: rest_shorter [simplified])

declare drain_lines.simps [simp del]

text \<open>The outer loop. \<^verbatim>\<open>strncat\<close> appends the C string in the receive buffer, cut to the room
  left in \<^verbatim>\<open>temp_buffer\<close>. The fuel bounds the number of \<^verbatim>\<open>recv\<close> calls.\<close>

definition append_chunk :: "string \<Rightarrow> string \<Rightarrow> string" where
  "append_chunk temp_buffer path =
     temp_buffer @ take (MAX_PATH_SIZE - length temp_buffer - 1) (c_str path)"

fun index_loop :: "env \<Rightarrow> nat \<Rightarrow> int \<Rightarrow> string \<Rightarrow> trienode \<Rightarrow> world \<Rightarrow> (trienode \<times> world) result" where
  "index_loop E 0 fd temp_buffer r w = Inl NoFuel"
| "index_loop E (Suc n) fd temp_buffer r w =
     (case recv_good E fd MAX_PATH_SIZE w of
        ((bytes, path), w1) \<Rightarrow>
          if bytes > 0
          then andthen (drain_lines (append_chunk temp_buffer path) r)
            (\<lambda>(finished, cur, r'). if finished then Inr (r', w1) else index_loop E n fd cur r' w1)
          else Inr (r, w1))"

section \<open>Lines\<close>

lemma drain_lines_partial: "NL \<notin> set cur \<Longrightarrow> drain_lines cur r = Inr (False, cur, r)"
  by (simp add: drain_lines.simps)

definition add_line :: "string \<Rightarrow> trienode \<Rightarrow> trienode result" where
  "add_line line r = (if line = [] then Inr r else AddPathToTrie line r)"

lemma drain_lines_line:
  "NL \<notin> set line \<Longrightarrow>
   drain_lines (line @ NL # rest) r =
     (if contains finished_marker line then Inr (True, line, r)
      else andthen (add_line line r) (drain_lines rest))"
proof -
  assume "NL \<notin> set line"
  then have "takeWhile (\<lambda>c. c \<noteq> NL) (line @ NL # rest) = line"
      "dropWhile (\<lambda>c. c \<noteq> NL) (line @ NL # rest) = NL # rest"
    by (metis (mono_tags, lifting) takeWhile_append2 takeWhile.simps(2) append_Nil2,
        metis (mono_tags, lifting) dropWhile_append2 dropWhile.simps(2))
  then show ?thesis by (subst drain_lines.simps) (simp add: add_line_def Let_def)
qed

lemma split_line: "NL \<in> set cur \<Longrightarrow> \<exists>line rest. cur = line @ NL # rest \<and> NL \<notin> set line"
  by (metis split_list_first)

text \<open>Draining the lines of a text is draining its first part and carrying the partial line over.\<close>

lemma drain_lines_append:
  "drain_lines (xs @ ys) r =
   andthen (drain_lines xs r)
     (\<lambda>(finished, cur, r'). if finished then Inr (True, cur, r') else drain_lines (cur @ ys) r')"
proof (induction "length xs" arbitrary: xs r rule: less_induct)
  case less
  show ?case
  proof (cases "NL \<in> set xs")
    case False
    then show ?thesis by (simp add: drain_lines_partial)
  next
    case True
    then obtain line rest where xs: "xs = line @ NL # rest" "NL \<notin> set line" using split_line by blast
    then have IH: "drain_lines (rest @ ys) r' = andthen (drain_lines rest r')
        (\<lambda>(finished, cur, r'). if finished then Inr (True, cur, r') else drain_lines (cur @ ys) r')" for r'
      using less by simp
    show ?thesis
      using xs(2) by (simp add: xs(1) drain_lines_line andthen_assoc IH cong: andthen_cong)
  qed
qed

lemma drain_lines_rest:
  "drain_lines cur r = Inr (False, rest, r') \<Longrightarrow> NL \<notin> set rest \<and> suffix rest cur"
proof (induction "length cur" arbitrary: cur r rule: less_induct)
  case less
  show ?case
  proof (cases "NL \<in> set cur")
    case False
    with less.prems show ?thesis by (simp add: drain_lines_partial)
  next
    case True
    then obtain line tl where cur: "cur = line @ NL # tl" "NL \<notin> set line" using split_line by blast
    with less.prems obtain r1 where "drain_lines tl r1 = Inr (False, rest, r')"
      by (auto simp: drain_lines_line split: if_splits)
    with less.hyps [of tl] cur have "NL \<notin> set rest \<and> suffix rest tl" by simp
    then show ?thesis by (auto simp: cur(1) suffix_def)
  qed
qed

section \<open>Chunks\<close>

lemma index_loop_chunks:
  assumes "delivers E fd (clock w) cs" "\<forall>c\<in>set cs. c \<noteq> [] \<and> CHR 0x00 \<notin> set c"
    and "\<forall>c\<in>set cs. \<forall>l. sublist l (tb @ concat cs) \<longrightarrow> NL \<notin> set l \<longrightarrow> length l + length c < MAX_PATH_SIZE"
    and "NL \<notin> set tb" "drain_lines (tb @ concat cs) r = Inr (True, m, r')" "length cs \<le> n"
  shows "returns (index_loop E n fd tb r w) (\<lambda>(t, w'). t = r')"
  using assms
proof (induction cs arbitrary: tb r w n)
  case Nil
  then show ?case by (simp add: drain_lines_partial)
next
  case (Cons c cs)
  obtain n' where n: "n = Suc n'" "length cs \<le> n'" using Cons.prems(6) by (cases n) auto
  have "length tb + length c < MAX_PATH_SIZE"
    using Cons.prems(3,4) by (auto intro: sublist_append_rightI)
  then have chunk: "append_chunk tb c = tb @ c" "take MAX_PATH_SIZE c = c" "CHR 0x00 \<notin> set c"
    using Cons.prems(2) by (auto simp: append_chunk_def)
  have recv: "recv_good E fd MAX_PATH_SIZE w = ((int (length c), c), tick w)"
    using Cons.prems(1) chunk by (simp add: recv_good_def delivers_Cons)
  have "drain_lines (tb @ concat (c # cs)) r = drain_lines ((tb @ c) @ concat cs) r" by simp
  with Cons.prems(5) have dr: "andthen (drain_lines (tb @ c) r)
     (\<lambda>(finished, cur, r'). if finished then Inr (True, cur, r') else drain_lines (cur @ concat cs) r') = Inr (True, m, r')"
    unfolding drain_lines_append [of "tb @ c" "concat cs" r] by simp
  then obtain fin cur r1 where d1: "drain_lines (tb @ c) r = Inr (fin, cur, r1)" by auto
  show ?case
  proof (cases fin)
    case True
    then show ?thesis using dr d1 Cons.prems(2) by (simp add: n recv chunk)
  next
    case False
    with drain_lines_rest [of "tb @ c" r cur r1] d1 have cur: "NL \<notin> set cur" "suffix cur (tb @ c)" by auto
    then have "sublist (cur @ concat cs) (tb @ concat (c # cs))"
      by (auto simp: suffix_def intro: sublist_appendI)
    then have sub: "sublist l (cur @ concat cs) \<Longrightarrow> sublist l (tb @ concat (c # cs))" for l
      using sublist_order.order_trans by blast
    have "returns (index_loop E n' fd cur r1 (tick w)) (\<lambda>(t, w'). t = r')"
      by (rule Cons.IH) (use Cons.prems(1,2,3) cur(1) dr d1 False n sub in \<open>auto simp: delivers_Cons\<close>)
    then show ?thesis using d1 False Cons.prems(2) by (simp add: n recv chunk)
  qed
qed

section \<open>A listing\<close>

text \<open>What a storage server sends: one path per line, then the marker.\<close>

definition listing :: "string list \<Rightarrow> string" where
  "listing paths = concat (map (\<lambda>p. p @ [NL]) paths) @ finished_marker @ [NL]"

definition plain_path :: "string \<Rightarrow> string list \<Rightarrow> bool" where
  "plain_path p ps \<longleftrightarrow>
     p \<noteq> [] \<and> NL \<notin> set p \<and> \<not> contains finished_marker p \<and> ParsePath p = Inr ps"

lemma marker_line: "NL \<notin> set finished_marker" "contains finished_marker finished_marker"
  by (simp_all add: NL_def finished_marker_def starts_with_def)

lemma drain_listing:
  "list_all2 plain_path paths pss \<Longrightarrow>
   drain_lines (listing paths) r = Inr (True, finished_marker, fold add_path pss r)"
proof (induction paths pss arbitrary: r rule: list_all2_induct)
  case Nil
  then show ?case using drain_lines_line [OF marker_line(1), of "[]"] by (simp add: listing_def marker_line)
next
  case (Cons p paths ps pss)
  have "listing (p # paths) = p @ NL # listing paths" by (simp add: listing_def)
  with Cons show ?case
    by (simp add: drain_lines_line plain_path_def add_line_def AddPathToTrie_def)
qed

text \<open>A piece of the listing without a newline lies within one line.\<close>

lemma sublist_lines:
  "sublist l (concat (map (\<lambda>p. p @ [NL]) ps)) \<Longrightarrow> NL \<notin> set l \<Longrightarrow> l = [] \<or> (\<exists>p\<in>set ps. sublist l p)"
proof (induction ps)
  case (Cons p ps)
  let ?rest = "concat (map (\<lambda>p. p @ [NL]) ps)"
  from Cons.prems(1) have "sublist l (p @ NL # ?rest)" by simp
  then consider "sublist l p" | "sublist l (NL # ?rest)"
    | a b where "l = a @ b" "suffix a p" "prefix b (NL # ?rest)"
    unfolding sublist_append by blast
  then show ?case
  proof cases
    case 2
    then have "l = [] \<or> sublist l ?rest"
      using Cons.prems(2) by (cases l) (auto simp: sublist_Cons_right)
    then show ?thesis using Cons.IH Cons.prems(2) by auto
  next
    case 3
    then have "b = []" using Cons.prems(2) by (cases b) auto
    with 3 show ?thesis by (auto intro: suffix_imp_sublist)
  qed simp
qed simp

lemma listing_piece:
  assumes "sublist l (listing paths)" "NL \<notin> set l"
  shows "length l \<le> length finished_marker \<or> (\<exists>p\<in>set paths. length l \<le> length p)"
proof -
  have "listing paths = concat (map (\<lambda>p. p @ [NL]) (paths @ [finished_marker]))" by (simp add: listing_def)
  with assms sublist_lines [of l "paths @ [finished_marker]"] show ?thesis
    using sublist_length_le by fastforce
qed

end
