(* ===== verification/Lru_Cache.thy ===== *)
theory Lru_Cache
  imports Nfs_Net
begin

text \<open>
  The path cache of \<^verbatim>\<open>naming_server.c\<close>: a fixed array used as a queue, least recently
  used entry first. The array operations with their shifting loops are modelled as written;
  \<open>entries\<close> abstracts a cache to the list of its live entries, and every operation is shown to
  implement a list operation. The locale \<open>lru_queue\<close> is the contract the path lookup relies on.
\<close>

section \<open>The array\<close>

record cache_entry =
  key :: "string option"   \<comment> \<open>NULL is \<open>None\<close>\<close>
  index :: int

record lru_cache =
  queue :: "cache_entry list"
  cache_size :: nat

definition initialize_cache :: lru_cache where
  "initialize_cache =
     \<lparr>queue = replicate CACHE_CAPACITY \<lparr>key = None, index = -1\<rparr>, cache_size = 0\<rparr>"

text \<open>\<^verbatim>\<open>search_cache\<close> compares keys from the front; comparing with a NULL key is a fault.
  \<open>None\<close> is the return value \<open>-1\<close>.\<close>

fun scan_cache :: "cache_entry list \<Rightarrow> string \<Rightarrow> nat option result" where
  "scan_cache [] k = Inr None"
| "scan_cache (e # es) k =
     (case key e of
        None \<Rightarrow> Inl NullDeref
      | Some k' \<Rightarrow>
          (if k' = k then Inr (Some 0)
           else andthen (scan_cache es k) (\<lambda>r. Inr (map_option Suc r))))"

definition search_cache :: "lru_cache \<Rightarrow> string \<Rightarrow> nat option result" where
  "search_cache c k = scan_cache (take (cache_size c) (queue c)) k"

text \<open>The loop \<^verbatim>\<open>for (i = from; i < to; i++) queue[i] = queue[i + 1];\<close>\<close>

function shift_left :: "nat \<Rightarrow> nat \<Rightarrow> 'a list \<Rightarrow> 'a list" where
  "shift_left i n q = (if i < n then shift_left (Suc i) n (q[i := q ! Suc i]) else q)"
  by pat_completeness auto
termination
  by (relation "measure (\<lambda>(i, n, q). n - i)") auto

declare shift_left.simps [simp del]

definition evict_lru :: "lru_cache \<Rightarrow> lru_cache" where
  "evict_lru c =
     (if cache_size c > 0
      then c\<lparr>queue := shift_left 0 (cache_size c - 1) (queue c), cache_size := cache_size c - 1\<rparr>
      else c)"

definition add_to_cache :: "string \<Rightarrow> int \<Rightarrow> lru_cache \<Rightarrow> lru_cache" where
  "add_to_cache k i c =
     (let c1 = (if cache_size c = CACHE_CAPACITY then evict_lru c else c) in
      c1\<lparr>queue := (queue c1)[cache_size c1 := \<lparr>key = Some k, index = i\<rparr>],
         cache_size := Suc (cache_size c1)\<rparr>)"

definition move_to_back :: "nat \<Rightarrow> lru_cache \<Rightarrow> lru_cache" where
  "move_to_back j c =
     (let temp = queue c ! j;
          q = shift_left j (cache_size c - 1) (queue c) in
      c\<lparr>queue := q[cache_size c - 1 := temp]\<rparr>)"

text \<open>The removal part of \<^verbatim>\<open>delete_from_cache\<close>, once the key was found at index
  \<open>j\<close>.\<close>

definition remove_at :: "nat \<Rightarrow> lru_cache \<Rightarrow> lru_cache" where
  "remove_at j c =
     c\<lparr>queue := shift_left j (cache_size c - 1) (queue c), cache_size := cache_size c - 1\<rparr>"

section \<open>Abstraction to a list\<close>

definition wf_cache :: "lru_cache \<Rightarrow> bool" where
  "wf_cache c \<longleftrightarrow>
     length (queue c) = CACHE_CAPACITY \<and> cache_size c \<le> CACHE_CAPACITY \<and>
     (\<forall>i<cache_size c. key (queue c ! i) \<noteq> None)"

definition entry_pair :: "cache_entry \<Rightarrow> string \<times> int" where
  "entry_pair e = (the (key e), index e)"

definition entries :: "lru_cache \<Rightarrow> (string \<times> int) list" where
  "entries c = map entry_pair (take (cache_size c) (queue c))"

lemma length_shift_left [simp]: "length (shift_left i n q) = length q"
  by (induction i n q rule: shift_left.induct) (subst shift_left.simps, simp)

lemma nth_shift_left:
  "n < length q \<Longrightarrow> m < length q \<Longrightarrow> shift_left i n q ! m = (if i \<le> m \<and> m < n then q ! Suc m else q ! m)"
proof (induction i n q rule: shift_left.induct)
  case (1 i n q)
  show ?case
  proof (cases "i < n")
    case True
    with "1.IH" "1.prems" show ?thesis
      by (subst shift_left.simps) (auto simp: nth_list_update)
  next
    case False
    then show ?thesis by (subst shift_left.simps) auto
  qed
qed

lemma take_shift_left:
  assumes "i \<le> n" "n < length q"
  shows "take n (shift_left i n q) = take i q @ drop (Suc i) (take (Suc n) q)"
  using assms by (intro nth_equalityI) (auto simp: nth_shift_left nth_append min_def)

lemma length_entries [simp]: "wf_cache c \<Longrightarrow> length (entries c) = cache_size c"
  by (simp add: entries_def wf_cache_def)

lemma entries_nth: "wf_cache c \<Longrightarrow> j < cache_size c \<Longrightarrow> entries c ! j = entry_pair (queue c ! j)"
  by (simp add: entries_def wf_cache_def)

lemma wf_initialize_cache [simp]: "wf_cache initialize_cache" "entries initialize_cache = []"
  by (simp_all add: wf_cache_def initialize_cache_def entries_def)

lemma scan_cache_find:
  "(\<And>e. e \<in> set es \<Longrightarrow> key e \<noteq> None) \<Longrightarrow>
   scan_cache es k = Inr (find_slot (\<lambda>p. fst p = k) (map entry_pair es))"
proof (induction es)
  case Nil
  then show ?case by simp
next
  case (Cons e es)
  then obtain k' where "key e = Some k'" by (metis list.set_intros(1) not_None_eq)
  with Cons show ?case by (simp add: entry_pair_def)
qed

lemma search_cache_find:
  assumes "wf_cache c"
  shows "search_cache c k = Inr (find_slot (\<lambda>p. fst p = k) (entries c))"
  unfolding search_cache_def entries_def
  using assms by (intro scan_cache_find) (auto simp: wf_cache_def in_set_conv_nth)

lemma evict_lru_entries:
  assumes "wf_cache c"
  shows "wf_cache (evict_lru c)" "entries (evict_lru c) = tl (entries c)"
proof -
  show "wf_cache (evict_lru c)"
    using assms by (auto simp: wf_cache_def evict_lru_def nth_shift_left)
  show "entries (evict_lru c) = tl (entries c)"
  proof (cases "cache_size c")
    case 0
    then show ?thesis by (simp add: evict_lru_def entries_def)
  next
    case (Suc n)
    then have "take n (shift_left 0 n (queue c)) = drop 1 (take (Suc n) (queue c))"
      using assms take_shift_left [of 0 n "queue c"] by (simp add: wf_cache_def)
    with Suc show ?thesis by (simp add: evict_lru_def entries_def drop_Suc map_tl)
  qed
qed

lemma cache_size_evict [simp]: "cache_size (evict_lru c) = cache_size c - 1"
  by (simp add: evict_lru_def)

lemma add_to_cache_room:
  assumes "wf_cache c" "cache_size c < CACHE_CAPACITY"
  shows "wf_cache (add_to_cache k i c)" "entries (add_to_cache k i c) = entries c @ [(k, i)]"
  using assms
  by (auto simp: wf_cache_def add_to_cache_def entries_def entry_pair_def nth_list_update less_Suc_eq
      take_Suc_conv_app_nth take_update_cancel)

lemma add_to_cache_entries:
  assumes "wf_cache c"
  shows "wf_cache (add_to_cache k i c)"
    "entries (add_to_cache k i c) =
       (if length (entries c) = CACHE_CAPACITY then tl (entries c) else entries c) @ [(k, i)]"
proof -
  have "cache_size c \<le> CACHE_CAPACITY" using assms by (simp add: wf_cache_def)
  then consider "cache_size c < CACHE_CAPACITY" | "cache_size c = CACHE_CAPACITY" by linarith
  then have "wf_cache (add_to_cache k i c) \<and> entries (add_to_cache k i c) =
      (if length (entries c) = CACHE_CAPACITY then tl (entries c) else entries c) @ [(k, i)]"
  proof cases
    case 1
    with assms add_to_cache_room [OF assms] show ?thesis by simp
  next
    case 2
    have "cache_size (evict_lru c) < CACHE_CAPACITY" using 2 by (simp add: CACHE_CAPACITY_def)
    moreover have "add_to_cache k i c = add_to_cache k i (evict_lru c)"
      using 2 by (simp add: add_to_cache_def CACHE_CAPACITY_def)
    ultimately show ?thesis
      using add_to_cache_room [OF evict_lru_entries(1) [OF assms], of k i] evict_lru_entries [OF assms] 2 assms
      by simp
  qed
  then show "wf_cache (add_to_cache k i c)"
    "entries (add_to_cache k i c) =
       (if length (entries c) = CACHE_CAPACITY then tl (entries c) else entries c) @ [(k, i)]"
    by blast+
qed

lemma remove_at_entries:
  assumes "wf_cache c" "j < length (entries c)"
  shows "wf_cache (remove_at j c)" "entries (remove_at j c) = take j (entries c) @ drop (Suc j) (entries c)"
proof -
  obtain n where n: "cache_size c = Suc n" "j \<le> n"
    using assms by (cases "cache_size c") auto
  have len: "n < length (queue c)" using assms(1) n by (simp add: wf_cache_def)
  show "wf_cache (remove_at j c)"
    using assms(1) n len by (auto simp: wf_cache_def remove_at_def nth_shift_left)
  show "entries (remove_at j c) = take j (entries c) @ drop (Suc j) (entries c)"
    using n len by (simp add: entries_def remove_at_def take_shift_left take_map drop_map min_def)
qed

lemma move_to_back_entries:
  assumes "wf_cache c" "j < length (entries c)"
  shows "wf_cache (move_to_back j c)"
    "entries (move_to_back j c) = take j (entries c) @ drop (Suc j) (entries c) @ [entries c ! j]"
proof -
  obtain n where n: "cache_size c = Suc n" "j \<le> n"
    using assms by (cases "cache_size c") auto
  have len: "n < length (queue c)" using assms(1) n by (simp add: wf_cache_def)
  show "wf_cache (move_to_back j c)"
    using assms n len by (auto simp: wf_cache_def move_to_back_def nth_list_update nth_shift_left Let_def)
  have "take (Suc n) ((shift_left j n (queue c))[n := queue c ! j]) =
      take n (shift_left j n (queue c)) @ [queue c ! j]"
    using len by (simp add: take_Suc_conv_app_nth take_update_cancel)
  then show "entries (move_to_back j c) = take j (entries c) @ drop (Suc j) (entries c) @ [entries c ! j]"
    using n len
    by (simp add: entries_def move_to_back_def Let_def take_shift_left take_map drop_map min_def)
qed

section \<open>The contract of a recency queue\<close>

text \<open>Agreement of cached answers with a resolver of paths.\<close>

definition coherent :: "(string \<Rightarrow> int option) \<Rightarrow> (string \<times> int) list \<Rightarrow> bool" where
  "coherent f es \<longleftrightarrow> (\<forall>(k, i)\<in>set es. f k = Some i)"

locale lru_queue =
  fixes wf :: "'c \<Rightarrow> bool"
    and view :: "'c \<Rightarrow> (string \<times> int) list"
    and find :: "'c \<Rightarrow> string \<Rightarrow> nat option result"
    and push :: "string \<Rightarrow> int \<Rightarrow> 'c \<Rightarrow> 'c"
    and touch :: "nat \<Rightarrow> 'c \<Rightarrow> 'c"
    and remove :: "nat \<Rightarrow> 'c \<Rightarrow> 'c"
    and capacity :: nat
  assumes capacity_pos: "0 < capacity"
    and view_bound: "wf c \<Longrightarrow> length (view c) \<le> capacity"
    and find_first: "wf c \<Longrightarrow> find c k = Inr (find_slot (\<lambda>p. fst p = k) (view c))"
    and wf_push: "wf c \<Longrightarrow> wf (push k i c)"
    and view_push:
      "wf c \<Longrightarrow> view (push k i c) = (if length (view c) = capacity then tl (view c) else view c) @ [(k, i)]"
    and wf_touch: "wf c \<Longrightarrow> j < length (view c) \<Longrightarrow> wf (touch j c)"
    and view_touch:
      "wf c \<Longrightarrow> j < length (view c) \<Longrightarrow>
       view (touch j c) = take j (view c) @ drop (Suc j) (view c) @ [view c ! j]"
    and wf_remove: "wf c \<Longrightarrow> j < length (view c) \<Longrightarrow> wf (remove j c)"
    and view_remove:
      "wf c \<Longrightarrow> j < length (view c) \<Longrightarrow> view (remove j c) = take j (view c) @ drop (Suc j) (view c)"
begin

lemma find_returns: "wf c \<Longrightarrow> \<exists>r. find c k = Inr r"
  by (simp add: find_first)

lemma find_hit:
  "wf c \<Longrightarrow> find c k = Inr (Some j) \<Longrightarrow> j < length (view c) \<and> fst (view c ! j) = k"
  by (auto simp: find_first dest: find_slot_SomeD)

lemma find_miss: "wf c \<Longrightarrow> find c k = Inr None \<longleftrightarrow> k \<notin> fst ` set (view c)"
  by (auto simp: find_first find_slot_None)

lemma set_touch:
  assumes "wf c" "j < length (view c)"
  shows "set (view (touch j c)) = set (view c)"
proof -
  have "set (view c) = set (take j (view c) @ view c ! j # drop (Suc j) (view c))"
    using id_take_nth_drop [OF assms(2)] by simp
  then show ?thesis by (auto simp: view_touch [OF assms])
qed

lemma set_push: "wf c \<Longrightarrow> set (view (push k i c)) \<subseteq> insert (k, i) (set (view c))"
  by (auto simp: view_push dest: in_set_tlD)

lemma push_found: "wf c \<Longrightarrow> (k, i) \<in> set (view (push k i c))"
  by (simp add: view_push)

lemma set_remove: "wf c \<Longrightarrow> j < length (view c) \<Longrightarrow> set (view (remove j c)) \<subseteq> set (view c)"
  by (auto simp: view_remove dest: in_set_takeD in_set_dropD)

lemma coherent_push: "wf c \<Longrightarrow> coherent f (view c) \<Longrightarrow> f k = Some i \<Longrightarrow> coherent f (view (push k i c))"
  using set_push [of c k i] by (auto simp: coherent_def)

lemma coherent_touch: "wf c \<Longrightarrow> j < length (view c) \<Longrightarrow> coherent f (view c) \<Longrightarrow> coherent f (view (touch j c))"
  by (simp add: coherent_def set_touch)

lemma coherent_remove:
  "wf c \<Longrightarrow> j < length (view c) \<Longrightarrow> coherent f (view c) \<Longrightarrow> coherent f (view (remove j c))"
  using set_remove [of c j] by (auto simp: coherent_def)

lemma coherent_hit:
  "wf c \<Longrightarrow> coherent f (view c) \<Longrightarrow> find c k = Inr (Some j) \<Longrightarrow> f k = Some (snd (view c ! j))"
  using find_hit [of c k j] nth_mem [of j "view c"]
  by (auto simp: coherent_def case_prod_beta)

end

interpretation lru: lru_queue wf_cache entries search_cache add_to_cache move_to_back remove_at CACHE_CAPACITY
  by unfold_locales
    (simp_all add: search_cache_find add_to_cache_entries move_to_back_entries remove_at_entries,
     simp_all add: CACHE_CAPACITY_def wf_cache_def)

section \<open>Recency order\<close>

text \<open>One use of a key, as the lookup of the naming server does it: a hit moves the entry to the back,
  a miss appends it (evicting the front of a full queue).\<close>

definition cache_use :: "string \<Rightarrow> int \<Rightarrow> lru_cache \<Rightarrow> lru_cache" where
  "cache_use k i c =
     (case search_cache c k of
        Inr (Some j) \<Rightarrow> move_to_back j c
      | _ \<Rightarrow> add_to_cache k i c)"

definition last_n :: "nat \<Rightarrow> 'a list \<Rightarrow> 'a list" where
  "last_n n xs = drop (length xs - n) xs"

lemma last_n_snoc: "0 < n \<Longrightarrow> last_n n (xs @ [x]) = last_n (n - 1) xs @ [x]"
  by (cases n) (simp_all add: last_n_def)

lemma last_n_append: "last_n n (xs @ ys) = last_n (n - length ys) xs @ last_n n ys"
  by (cases "length ys \<le> n") (simp_all add: last_n_def)

lemma tl_last_n: "n \<le> length xs \<Longrightarrow> tl (last_n n xs) = last_n (n - 1) xs"
  by (cases n) (simp_all add: last_n_def drop_Suc [symmetric] tl_drop Suc_diff_Suc Suc_le_lessD)

lemma remdups_snoc: "remdups (xs @ [x]) = filter (\<lambda>y. y \<noteq> x) (remdups xs) @ [x]"
  by (induction xs) auto

lemma last_n_use:
  assumes "distinct R" "0 < n"
  shows "(if k \<in> set (last_n n R) then filter (\<lambda>y. y \<noteq> k) (last_n n R)
          else if length (last_n n R) = n then tl (last_n n R) else last_n n R) @ [k]
    = last_n n (filter (\<lambda>y. y \<noteq> k) R @ [k])"
proof (cases "k \<in> set R")
  case False
  then have "filter (\<lambda>y. y \<noteq> k) R = R" by (auto simp: filter_id_conv)
  moreover have "k \<notin> set (last_n n R)" using False by (auto simp: last_n_def dest: in_set_dropD)
  ultimately show ?thesis
    using assms(2) tl_last_n [of n R] by (auto simp: last_n_snoc) (auto simp: last_n_def)
next
  case True
  then obtain A B where R: "R = A @ k # B" by (metis split_list)
  with assms(1) have nk: "k \<notin> set A" "k \<notin> set B" by auto
  then have f: "filter (\<lambda>y. y \<noteq> k) R = A @ B" by (simp add: R)
  show ?thesis
  proof (cases "length B < n")
    case True
    then have l: "last_n n R = last_n (n - 1 - length B) A @ k # B"
      by (simp add: R last_n_append) (simp add: last_n_def)
    have "filter (\<lambda>y. y \<noteq> k) (last_n (n - 1 - length B) A) = last_n (n - 1 - length B) A"
      using nk(1) by (intro filter_neq_id) (auto simp: last_n_def dest: in_set_dropD)
    with nk True show ?thesis
      using assms(2) by (simp add: l f last_n_snoc last_n_append) (simp add: last_n_def)
  next
    case False
    then have l: "last_n n R = last_n n B"
      by (simp add: R last_n_append) (simp add: last_n_def Suc_diff_le)
    have "k \<notin> set (last_n n B)" using nk(2) by (auto simp: last_n_def dest: in_set_dropD)
    with False show ?thesis
      using assms(2) tl_last_n [of n B]
      by (simp add: l f last_n_snoc last_n_append) (simp add: last_n_def)
  qed
qed

lemma filter_remove_nth:
  assumes "distinct xs" "j < length xs"
  shows "filter (\<lambda>y. y \<noteq> xs ! j) xs = take j xs @ drop (Suc j) xs"
proof -
  have xs: "xs = take j xs @ xs ! j # drop (Suc j) xs" using assms(2) by (rule id_take_nth_drop)
  with assms(1) have "xs ! j \<notin> set (take j xs)" "xs ! j \<notin> set (drop (Suc j) xs)"
    by (metis disjoint_insert(1) distinct_append list.simps(15))
      (metis assms(1) distinct.simps(2) distinct_append xs)
  then show ?thesis by (subst (2) xs) simp
qed

lemma cache_use_keys:
  assumes "wf_cache c" "distinct (map fst (entries c))"
  shows "wf_cache (cache_use k i c)"
    "map fst (entries (cache_use k i c)) =
      (let ks = map fst (entries c) in
       (if k \<in> set ks then filter (\<lambda>y. y \<noteq> k) ks
        else if length ks = CACHE_CAPACITY then tl ks else ks) @ [k])"
proof -
  obtain r where r: "search_cache c k = Inr r" using lru.find_returns [OF assms(1)] by blast
  have "wf_cache (cache_use k i c) \<and> map fst (entries (cache_use k i c)) =
      (let ks = map fst (entries c) in
       (if k \<in> set ks then filter (\<lambda>y. y \<noteq> k) ks
        else if length ks = CACHE_CAPACITY then tl ks else ks) @ [k])"
  proof (cases r)
    case None
    with r have "k \<notin> set (map fst (entries c))" using lru.find_miss [OF assms(1), of k] by simp
    with r None assms(1) show ?thesis
      by (simp add: cache_use_def lru.wf_push lru.view_push map_tl Let_def)
  next
    case (Some j)
    with r have j: "j < length (entries c)" "map fst (entries c) ! j = k"
      using lru.find_hit [OF assms(1)] by auto
    then have "filter (\<lambda>y. y \<noteq> k) (map fst (entries c)) = map fst (take j (entries c)) @ map fst (drop (Suc j) (entries c))"
      using filter_remove_nth [OF assms(2), of j] by (simp add: take_map drop_map)
    moreover have "k \<in> set (map fst (entries c))" using j by (metis length_map nth_mem)
    ultimately show ?thesis
      using r Some j assms(1) by (simp add: cache_use_def lru.wf_touch lru.view_touch Let_def)
  qed
  then show "wf_cache (cache_use k i c)"
    "map fst (entries (cache_use k i c)) =
      (let ks = map fst (entries c) in
       (if k \<in> set ks then filter (\<lambda>y. y \<noteq> k) ks
        else if length ks = CACHE_CAPACITY then tl ks else ks) @ [k])"
    by blast+
qed

lemma cache_run:
  "wf_cache (fold (\<lambda>k. cache_use k (f k)) ks initialize_cache) \<and>
   map fst (entries (fold (\<lambda>k. cache_use k (f k)) ks initialize_cache)) = last_n CACHE_CAPACITY (remdups ks)"
proof (induction ks rule: rev_induct)
  case Nil
  then show ?case by (simp add: last_n_def)
next
  case (snoc k ks)
  let ?c = "fold (\<lambda>k. cache_use k (f k)) ks initialize_cache"
  have d: "distinct (map fst (entries ?c))" using snoc by (simp add: last_n_def)
  have "0 < CACHE_CAPACITY" by (rule lru.capacity_pos)
  with cache_use_keys [OF conjunct1 [OF snoc] d, of k "f k"] snoc
    last_n_use [of "remdups ks" CACHE_CAPACITY k]
  show ?case by (simp add: Let_def remdups_snoc)
qed

section \<open>Properties\<close>

text \<open>C28. Least recently used replacement: after any sequence of uses, the cache holds exactly the
  three most recently used distinct keys, in the order of their last use.\<close>

theorem cache_keeps_most_recent:
  "map fst (entries (fold (\<lambda>k. cache_use k (f k)) ks initialize_cache)) = last_n CACHE_CAPACITY (remdups ks)"
  using cache_run by blast

text \<open>C29. The array loops implement the list operations: eviction drops the front, adding appends
  (after an eviction when full), moving to the back rotates one entry, and each keeps the array
  well formed.\<close>

theorem cache_refines_list:
  assumes "wf_cache c" "j < length (entries c)"
  shows "wf_cache (evict_lru c) \<and> entries (evict_lru c) = tl (entries c) \<and>
    wf_cache (add_to_cache k i c) \<and>
    entries (add_to_cache k i c) =
      (if length (entries c) = CACHE_CAPACITY then tl (entries c) else entries c) @ [(k, i)] \<and>
    wf_cache (move_to_back j c) \<and>
    entries (move_to_back j c) = take j (entries c) @ drop (Suc j) (entries c) @ [entries c ! j] \<and>
    wf_cache (remove_at j c) \<and>
    entries (remove_at j c) = take j (entries c) @ drop (Suc j) (entries c)"
  using assms by (simp add: evict_lru_entries add_to_cache_entries move_to_back_entries remove_at_entries)

theorem cache_refines_list_witness:
  "entries (move_to_back 0 (add_to_cache ''b'' 1 (add_to_cache ''a'' 0 initialize_cache))) =
   [(''b'', 1), (''a'', 0)]"
proof -
  have wf: "wf_cache (add_to_cache ''b'' 1 (add_to_cache ''a'' 0 initialize_cache))"
    by (simp add: lru.wf_push)
  have es: "entries (add_to_cache ''b'' 1 (add_to_cache ''a'' 0 initialize_cache)) = [(''a'', 0), (''b'', 1)]"
    by (simp add: lru.view_push lru.wf_push CACHE_CAPACITY_def)
  show ?thesis using cache_refines_list [OF wf, of 0] by (simp add: es)
qed

end
