(* ===== verification/Ns_State.thy ===== *)
theory Ns_State
  imports Ns_Index Lru_Cache
begin

text \<open>
  The state of the naming server (\<^verbatim>\<open>naming_server.c\<close>) and its path lookup: the table of
  storage servers, the semaphore, the cache; \<^verbatim>\<open>indexHelper\<close>,
  \<^verbatim>\<open>search_in_tries\<close>, \<^verbatim>\<open>isSSUp\<close>, \<^verbatim>\<open>redundantSS\<close>,
  \<^verbatim>\<open>delete_from_cache\<close> and \<^verbatim>\<open>search_storage_server\<close>. Diagnostic
  \<^verbatim>\<open>printf\<close> and \<^verbatim>\<open>perror\<close> output is left out; the output of
  \<^verbatim>\<open>printErrorDetails\<close> and \<^verbatim>\<open>DisplayTrie\<close> is on the trace.
\<close>

section \<open>State\<close>

record connection_info =
  socket :: int
  ip :: string    \<comment> \<open>\<^verbatim>\<open>inet_ntoa(addr.sin_addr)\<close>\<close>
  port :: int     \<comment> \<open>\<^verbatim>\<open>ntohs(addr.sin_port)\<close>\<close>

record storage_server_info =
  clientInfo :: connection_info
  portClient :: int
  ss_socket :: int
  root :: "trienode option"
  backupServer1 :: int
  backupServer2 :: int
  isUp :: bool

record ns =
  net :: world
  cache :: lru_cache
  storage_servers :: "storage_server_info list"
  storage_server_index :: nat
  storage_semaphore :: nat

text \<open>The globals after \<^verbatim>\<open>initialize_cache\<close> and \<^verbatim>\<open>sem_init\<close> in
  \<^verbatim>\<open>main\<close>; static storage is zero.\<close>

definition ns_init :: "world \<Rightarrow> ns" where
  "ns_init w =
     \<lparr>net = w, cache = initialize_cache,
      storage_servers = replicate MAX_STORAGE_SERVERS
        \<lparr>clientInfo = \<lparr>socket = 0, ip = ''0.0.0.0'', port = 0\<rparr>, portClient = 0, ss_socket = 0, root = None,
         backupServer1 = 0, backupServer2 = 0, isUp = False\<rparr>,
      storage_server_index = 0, storage_semaphore = 1\<rparr>"

definition sem_wait :: "ns \<Rightarrow> ns result" where
  "sem_wait s =
     (if storage_semaphore s = 0 then Inl Blocked
      else Inr (s\<lparr>storage_semaphore := storage_semaphore s - 1\<rparr>))"

definition sem_post :: "ns \<Rightarrow> ns" where
  "sem_post s = s\<lparr>storage_semaphore := Suc (storage_semaphore s)\<rparr>"

text \<open>Reading and writing \<^verbatim>\<open>storage_servers[i]\<close>.\<close>

definition server :: "ns \<Rightarrow> int \<Rightarrow> storage_server_info result" where
  "server s i =
     (if 0 \<le> i \<and> i < int MAX_STORAGE_SERVERS then Inr (storage_servers s ! nat i) else Inl OutOfBounds)"

definition upd_server :: "int \<Rightarrow> (storage_server_info \<Rightarrow> storage_server_info) \<Rightarrow> ns \<Rightarrow> ns" where
  "upd_server i f s =
     s\<lparr>storage_servers := (storage_servers s)[nat i := f (storage_servers s ! nat i)]\<rparr>"

text \<open>The node \<^verbatim>\<open>root->childeren[0]->childeren[0]\<close>: the directory a storage server
  exports, below the path element \<^verbatim>\<open>.\<close>.\<close>

definition deref :: "'a option \<Rightarrow> 'a result" where
  "deref p = (case p of None \<Rightarrow> Inl NullDeref | Some x \<Rightarrow> Inr x)"

definition top_node :: "trienode option \<Rightarrow> trienode result" where
  "top_node r =
     andthen (deref r) (\<lambda>t. andthen (deref (childeren t ! 0)) (\<lambda>d. deref (childeren d ! 0)))"

definition top_name :: "storage_server_info \<Rightarrow> string result" where
  "top_name ss = andthen (top_node (root ss)) (\<lambda>n. Inr (data n))"

text \<open>Input and output of a handler.\<close>

definition io :: "(world \<Rightarrow> world) \<Rightarrow> ns \<Rightarrow> ns" where
  "io f s = s\<lparr>net := f (net s)\<rparr>"

definition io_val :: "(world \<Rightarrow> 'a \<times> world) \<Rightarrow> ns \<Rightarrow> 'a \<times> ns" where
  "io_val f s = (case f (net s) of (v, w) \<Rightarrow> (v, s\<lparr>net := w\<rparr>))"

definition io_result :: "(world \<Rightarrow> world result) \<Rightarrow> ns \<Rightarrow> ns result" where
  "io_result f s = andthen (f (net s)) (\<lambda>w. Inr (s\<lparr>net := w\<rparr>))"

text \<open>A log entry without an address: \<^verbatim>\<open>log_it(NULL, -1, log_message)\<close>.\<close>

definition ns_log :: "env \<Rightarrow> string \<Rightarrow> ns \<Rightarrow> ns result" where
  "ns_log E message s = io_result (log_line E [] (-1) message) s"

section \<open>Indexing\<close>

definition indexHelper :: "env \<Rightarrow> nat \<Rightarrow> int \<Rightarrow> trienode \<Rightarrow> ns \<Rightarrow> (trienode \<times> ns) result" where
  "indexHelper E n storage_socket r s =
     andthen (sem_wait s) (\<lambda>s1.
     andthen (index_loop E n storage_socket [] r (net s1)) (\<lambda>(r', w).
     Inr (r', sem_post (s1\<lparr>net := w\<rparr>))))"

section \<open>Lookup in the tries\<close>

fun SearchPathHelper :: "trienode option \<Rightarrow> string list \<Rightarrow> bool result" where
  "SearchPathHelper cur [] = Inr True"
| "SearchPathHelper cur (p # ps) =
     andthen (deref cur) (\<lambda>n.
       case find_slot (is_child p) (childeren n) of
         Some j \<Rightarrow> SearchPathHelper (childeren n ! j) ps
       | None \<Rightarrow> Inr False)"

fun search_from :: "ns \<Rightarrow> string list \<Rightarrow> nat list \<Rightarrow> int result" where
  "search_from s path_arr [] = Inr (-1)"
| "search_from s path_arr (i # is) =
     andthen (server s (int i)) (\<lambda>ss.
     andthen (SearchPathHelper (root ss) path_arr) (\<lambda>found.
     if found then Inr (int i) else search_from s path_arr is))"

definition search_in_tries :: "ns \<Rightarrow> string \<Rightarrow> int result" where
  "search_in_tries s buffer =
     andthen (ParsePath buffer) (\<lambda>path_arr. search_from s path_arr [0..<storage_server_index s])"

section \<open>Reachability of a storage server\<close>

text \<open>\<^verbatim>\<open>isSSUp\<close>: a failed \<^verbatim>\<open>connect\<close>, \<^verbatim>\<open>send\<close> or
  \<^verbatim>\<open>recv\<close> clears the flag \<^verbatim>\<open>isUp\<close>; an end of file on the answer does not count
  as a failure.\<close>

definition set_up :: "int \<Rightarrow> bool \<Rightarrow> ns \<Rightarrow> ns" where
  "set_up i b = upd_server i (\<lambda>ss. ss\<lparr>isUp := b\<rparr>)"

definition ping_down :: "int \<Rightarrow> int \<Rightarrow> int \<Rightarrow> ns \<Rightarrow> bool \<times> ns" where
  "ping_down i sock code s = (False, io (\<lambda>w. close sock (printErrorDetails code w)) (set_up i False s))"

definition isSSUp :: "env \<Rightarrow> int \<Rightarrow> ns \<Rightarrow> (bool \<times> ns) result" where
  "isSSUp E i s =
     andthen (server s i) (\<lambda>ss.
       let sock = sys_socket E (clock (net s)); s1 = io tick s in
       if sock < 0 then Inr (False, io (printErrorDetails 7) s1)
       else if \<not> sys_inet_pton E (ip (clientInfo ss))
       then Inr (False, io (\<lambda>w. close sock (printErrorDetails 8 w)) s1)
       else if \<not> sys_connect E (clock (net s1)) sock (ip (clientInfo ss)) (portClient ss)
       then Inr (ping_down i sock 45 (io tick s1))
       else
         (case io_val (send_good E sock ''ping'') (io tick s1) of
            (sent, s2) \<Rightarrow>
              if sent < 0 then Inr (ping_down i sock 10 s2)
              else
                (case io_val (recv_good E sock BUFFER_SIZE) s2 of
                   ((bytes, b), s3) \<Rightarrow>
                     if bytes < 0 then Inr (ping_down i sock 11 s3)
                     else Inr (True, io (close sock) (set_up i True s3)))))"

text \<open>The condition \<^verbatim>\<open>BS != -1 && isSSUp(BS)\<close>.\<close>

definition backup_up :: "env \<Rightarrow> int \<Rightarrow> ns \<Rightarrow> (bool \<times> ns) result" where
  "backup_up E b s = (if b \<noteq> -1 then isSSUp E b s else Inr (False, s))"

definition redundantSS :: "env \<Rightarrow> int \<Rightarrow> ns \<Rightarrow> (int \<times> ns) result" where
  "redundantSS E i s =
     andthen (isSSUp E i s) (\<lambda>(up, s1).
     if up then Inr (i, s1)
     else
       andthen (server s1 i) (\<lambda>ss.
       let indexOfBS1 = backupServer1 ss in
       andthen (backup_up E indexOfBS1 s1) (\<lambda>(up1, s2).
       if up1 then Inr (indexOfBS1, s2)
       else
         andthen (server s2 i) (\<lambda>ss'.
         let indexOfBS2 = backupServer2 ss' in
         andthen (backup_up E indexOfBS2 s2) (\<lambda>(up2, s3).
         if up2 then Inr (indexOfBS2, s3) else Inr (-1, s3))))))"

section \<open>Lookup through the cache\<close>

definition delete_from_cache :: "string \<Rightarrow> ns \<Rightarrow> ns result" where
  "delete_from_cache k s =
     andthen (search_cache (cache s) k) (\<lambda>found.
       case found of
         None \<Rightarrow> Inr (sem_post s)
       | Some j \<Rightarrow> Inr (s\<lparr>cache := remove_at j (cache s)\<rparr>))"

definition search_storage_server :: "env \<Rightarrow> string \<Rightarrow> ns \<Rightarrow> (int \<times> ns) result" where
  "search_storage_server E buffer s =
     andthen (sem_wait s) (\<lambda>s1.
     andthen (search_cache (cache s1) buffer) (\<lambda>hit.
       case hit of
         Some j \<Rightarrow>
           (let k = index (queue (cache s1) ! j);
                s2 = sem_post (s1\<lparr>cache := move_to_back j (cache s1)\<rparr>);
                indexToSend = index (queue (cache s2) ! j) in
            andthen (isSSUp E indexToSend s2) (\<lambda>(up, s3). Inr (k, s3)))
       | None \<Rightarrow>
           andthen (search_in_tries s1 buffer) (\<lambda>found.
             if found \<noteq> -1
             then andthen (isSSUp E found (sem_post (s1\<lparr>cache := add_to_cache buffer found (cache s1)\<rparr>)))
                    (\<lambda>(up, s2). Inr (found, s2))
             else Inr (-1, sem_post s1))))"

end
