(* ===== verification/Ns_Lookup.thy ===== *)
theory Ns_Lookup
  imports Ns_State
begin

text \<open>
  The path lookup of the naming server is correct: the state invariant \<open>ns_wf\<close> is kept, the answer is
  the first storage server whose trie stores the path as long as the cache is coherent with the tries,
  and the lookup never faults or blocks on a path the parser accepts.
\<close>

section \<open>Frames\<close>

lemma io_simps [simp]:
  "cache (io f s) = cache s" "storage_servers (io f s) = storage_servers s"
  "storage_server_index (io f s) = storage_server_index s"
  "storage_semaphore (io f s) = storage_semaphore s" "net (io f s) = f (net s)"
  by (simp_all add: io_def)

lemma sem_post_simps [simp]:
  "cache (sem_post s) = cache s" "storage_servers (sem_post s) = storage_servers s"
  "storage_server_index (sem_post s) = storage_server_index s"
  "storage_semaphore (sem_post s) = Suc (storage_semaphore s)" "net (sem_post s) = net s"
  by (simp_all add: sem_post_def)

lemma upd_server_simps [simp]:
  "cache (upd_server i f s) = cache s" "net (upd_server i f s) = net s"
  "storage_server_index (upd_server i f s) = storage_server_index s"
  "storage_semaphore (upd_server i f s) = storage_semaphore s"
  "storage_servers (upd_server i f s) = (storage_servers s)[nat i := f (storage_servers s ! nat i)]"
  by (simp_all add: upd_server_def)

lemma set_up_simps [simp]:
  "cache (set_up i b s) = cache s" "net (set_up i b s) = net s"
  "storage_server_index (set_up i b s) = storage_server_index s"
  "storage_semaphore (set_up i b s) = storage_semaphore s"
  "storage_servers (set_up i b s) = (storage_servers s)[nat i := (storage_servers s ! nat i)\<lparr>isUp := b\<rparr>]"
  by (simp_all add: set_up_def)

lemma io_val_wp: "io_val f s = (v, s') \<Longrightarrow> \<exists>w. f (net s) = (v, w) \<and> s' = s\<lparr>net := w\<rparr>"
  by (auto simp: io_val_def split: prod.splits)

text \<open>What a ping may change: the socket, the output, and the flag \<^verbatim>\<open>isUp\<close>.\<close>

definition no_flag :: "storage_server_info \<Rightarrow> storage_server_info" where
  "no_flag ss = ss\<lparr>isUp := False\<rparr>"

definition same_table :: "ns \<Rightarrow> ns \<Rightarrow> bool" where
  "same_table s s' \<longleftrightarrow>
     map no_flag (storage_servers s') = map no_flag (storage_servers s) \<and>
     storage_server_index s' = storage_server_index s \<and> storage_semaphore s' = storage_semaphore s"

lemma same_table_refl [simp]: "same_table s s"
  by (simp add: same_table_def)

lemma same_table_trans [trans]: "same_table s s' \<Longrightarrow> same_table s' s'' \<Longrightarrow> same_table s s''"
  by (simp add: same_table_def)

lemma same_table_length: "same_table s s' \<Longrightarrow> length (storage_servers s') = length (storage_servers s)"
  by (metis same_table_def length_map)

lemma same_table_nth:
  assumes "same_table s s'" "i < length (storage_servers s)"
  shows "no_flag (storage_servers s' ! i) = no_flag (storage_servers s ! i)"
proof -
  have "map no_flag (storage_servers s') ! i = map no_flag (storage_servers s) ! i"
    using assms(1) by (simp add: same_table_def)
  with assms(2) same_table_length [OF assms(1)] show ?thesis by simp
qed

lemma no_flag_eqD:
  "no_flag a = no_flag b \<Longrightarrow>
   clientInfo a = clientInfo b \<and> portClient a = portClient b \<and> ss_socket a = ss_socket b \<and>
   root a = root b \<and> backupServer1 a = backupServer1 b \<and> backupServer2 a = backupServer2 b"
  by (cases a; cases b) (simp add: no_flag_def)

lemma no_flag_isUp [simp]: "no_flag (ss\<lparr>isUp := b\<rparr>) = no_flag ss"
  by (simp add: no_flag_def)

lemma map_no_flag_set [simp]: "map no_flag (xs[i := (xs ! i)\<lparr>isUp := b\<rparr>]) = map no_flag xs"
  by (cases "i < length xs") (simp_all add: map_update list_update_same_conv list_update_beyond)

section \<open>The invariant\<close>

definition valid_index :: "ns \<Rightarrow> int \<Rightarrow> bool" where
  "valid_index s i \<longleftrightarrow> 0 \<le> i \<and> i < int (storage_server_index s)"

definition wf_server :: "ns \<Rightarrow> storage_server_info \<Rightarrow> bool" where
  "wf_server s ss \<longleftrightarrow>
     (\<exists>t. root ss = Some t \<and> wf_trie t) \<and>
     (backupServer1 ss = -1 \<or> valid_index s (backupServer1 ss)) \<and>
     (backupServer2 ss = -1 \<or> valid_index s (backupServer2 ss))"

definition wf_table :: "ns \<Rightarrow> bool" where
  "wf_table s \<longleftrightarrow>
     length (storage_servers s) = MAX_STORAGE_SERVERS \<and> storage_server_index s \<le> MAX_STORAGE_SERVERS \<and>
     (\<forall>i<storage_server_index s. wf_server s (storage_servers s ! i)) \<and>
     (\<forall>i<MAX_STORAGE_SERVERS. storage_server_index s \<le> i \<longrightarrow> root (storage_servers s ! i) = None)"

definition wf_entries :: "ns \<Rightarrow> bool" where
  "wf_entries s \<longleftrightarrow> wf_cache (cache s) \<and> (\<forall>(k, i)\<in>set (entries (cache s)). valid_index s i)"

text \<open>Until three servers are known none has a backup; from then on every server has two, different
  from each other and from itself.\<close>

definition backups_of :: "storage_server_info list \<Rightarrow> nat \<Rightarrow> int \<times> int" where
  "backups_of sss i = (backupServer1 (sss ! i), backupServer2 (sss ! i))"

definition backups_ok :: "nat \<Rightarrow> nat \<Rightarrow> int \<times> int \<Rightarrow> bool" where
  "backups_ok n i b \<longleftrightarrow>
     (if n < 3 then b = (-1, -1)
      else 0 \<le> fst b \<and> fst b < int n \<and> 0 \<le> snd b \<and> snd b < int n \<and>
        fst b \<noteq> snd b \<and> fst b \<noteq> int i \<and> snd b \<noteq> int i)"

definition replicated :: "ns \<Rightarrow> bool" where
  "replicated s \<longleftrightarrow>
     (\<forall>i<storage_server_index s. backups_ok (storage_server_index s) i (backups_of (storage_servers s) i))"

definition ns_wf :: "ns \<Rightarrow> bool" where
  "ns_wf s \<longleftrightarrow> wf_table s \<and> wf_entries s \<and> replicated s \<and> storage_semaphore s = 1"

lemma ns_wf_init: "ns_wf (ns_init w)"
  by (simp add: ns_wf_def wf_table_def wf_entries_def replicated_def ns_init_def MAX_STORAGE_SERVERS_def)

lemma valid_index_same [simp]: "same_table s s' \<Longrightarrow> valid_index s' = valid_index s"
  by (auto simp: valid_index_def same_table_def fun_eq_iff)

lemma wf_server_no_flag: "no_flag a = no_flag b \<Longrightarrow> valid_index s' = valid_index s \<Longrightarrow> wf_server s' a = wf_server s b"
  by (drule no_flag_eqD) (simp add: wf_server_def)

lemma wf_table_same:
  assumes "same_table s s'" "wf_table s"
  shows "wf_table s'"
proof -
  have ix: "storage_server_index s' = storage_server_index s" using assms(1) by (simp add: same_table_def)
  have nth: "no_flag (storage_servers s' ! i) = no_flag (storage_servers s ! i)" if "i < MAX_STORAGE_SERVERS" for i
    using same_table_nth [OF assms(1), of i] that assms(2) by (simp add: wf_table_def)
  then have "root (storage_servers s' ! i) = root (storage_servers s ! i)" if "i < MAX_STORAGE_SERVERS" for i
    using that no_flag_eqD by blast
  with assms(2) ix nth show ?thesis
    by (auto simp: wf_table_def same_table_length [OF assms(1)] wf_server_no_flag [OF nth valid_index_same [OF assms(1)]])
qed

lemma replicated_same:
  assumes "same_table s s'" "wf_table s" "replicated s"
  shows "replicated s'"
proof -
  have ix: "storage_server_index s' = storage_server_index s" using assms(1) by (simp add: same_table_def)
  have "backups_of (storage_servers s') i = backups_of (storage_servers s) i" if "i < storage_server_index s" for i
    using no_flag_eqD [OF same_table_nth [OF assms(1), of i]] that assms(2) by (simp add: wf_table_def backups_of_def)
  with assms(3) show ?thesis by (simp add: replicated_def ix)
qed

lemma ns_wf_same: "same_table s s' \<Longrightarrow> ns_wf s \<Longrightarrow> wf_entries s' \<Longrightarrow> ns_wf s'"
  using wf_table_same [of s s'] replicated_same [of s s'] by (auto simp: ns_wf_def same_table_def)

lemma ns_wf_same_cache: "same_table s s' \<Longrightarrow> ns_wf s \<Longrightarrow> cache s' = cache s \<Longrightarrow> ns_wf s'"
  by (rule ns_wf_same) (auto simp: ns_wf_def wf_entries_def)

lemma server_returns:
  "wf_table s \<Longrightarrow> valid_index s i \<Longrightarrow> server s i = Inr (storage_servers s ! nat i)"
  by (auto simp: server_def valid_index_def wf_table_def)

lemma server_wf:
  "wf_table s \<Longrightarrow> valid_index s i \<Longrightarrow> wf_server s (storage_servers s ! nat i)"
  by (auto simp: wf_table_def valid_index_def)

section \<open>Pinging\<close>

definition pinged :: "int \<Rightarrow> ns \<Rightarrow> bool \<Rightarrow> ns \<Rightarrow> bool" where
  "pinged i s up s' \<longleftrightarrow>
     cache s' = cache s \<and> storage_server_index s' = storage_server_index s \<and>
     storage_semaphore s' = storage_semaphore s \<and>
     (\<exists>b. storage_servers s' = (storage_servers s)[nat i := (storage_servers s ! nat i)\<lparr>isUp := b\<rparr>] \<and>
        (up \<longrightarrow> b) \<and> (b \<longrightarrow> up \<or> isUp (storage_servers s ! nat i)))"

lemma pinged_same: "pinged i s up s' \<Longrightarrow> same_table s s' \<and> cache s' = cache s"
  by (auto simp: pinged_def same_table_def)

text \<open>Two states that differ in the socket and output part only.\<close>

lemma pinged_net:
  assumes "s2 = s\<lparr>net := w\<rparr>"
  shows "pinged i s False (io f s2)"
    and "ping_down i sock code s2 = (up, s') \<Longrightarrow> pinged i s up s'"
    and "pinged i s True (io f (set_up i True s2))"
  using assms
  by (auto simp: pinged_def ping_down_def intro: exI [of _ "isUp (storage_servers s ! nat i)"])

lemma io_net: "io f (s\<lparr>net := w\<rparr>) = s\<lparr>net := f w\<rparr>" "io f s = s\<lparr>net := f (net s)\<rparr>"
  by (simp_all add: io_def)

lemma isSSUp_pinged:
  assumes "isSSUp E i s = Inr (up, s')"
  shows "pinged i s up s'"
proof -
  obtain ss where ss: "server s i = Inr ss" using assms by (auto simp: isSSUp_def)
  obtain sent s2 where send: "io_val (send_good E (sys_socket E (clock (net s))) ''ping'') (io tick (io tick s)) = (sent, s2)"
    by fastforce
  obtain bytes b s3 where recv: "io_val (recv_good E (sys_socket E (clock (net s))) BUFFER_SIZE) s2 = ((bytes, b), s3)"
    by (metis prod.collapse)
  obtain w2 w3 where net: "s2 = s\<lparr>net := w2\<rparr>" "s3 = s\<lparr>net := w3\<rparr>"
    using io_val_wp [OF send] io_val_wp [OF recv] by (auto simp: io_def)
  have t: "io tick s = s\<lparr>net := tick (net s)\<rparr>" "io tick (io tick s) = s\<lparr>net := tick (tick (net s))\<rparr>"
    by (simp_all add: io_def)
  show ?thesis
    using assms ss send recv pinged_net [OF t(1)] pinged_net [OF t(2)] pinged_net [OF net(1)] pinged_net [OF net(2)]
    by (auto simp: isSSUp_def Let_def split: if_splits)
qed

lemma isSSUp_returns: "0 \<le> i \<Longrightarrow> i < int MAX_STORAGE_SERVERS \<Longrightarrow> \<exists>up s'. isSSUp E i s = Inr (up, s')"
  by (auto simp: isSSUp_def server_def Let_def split: prod.splits)

lemma isSSUp_wf:
  assumes "ns_wf s" "isSSUp E i s = Inr (up, s')"
  shows "ns_wf s' \<and> same_table s s' \<and> cache s' = cache s"
  using assms pinged_same [OF isSSUp_pinged [OF assms(2)]] ns_wf_same_cache by blast

lemma valid_isSSUp: "ns_wf s \<Longrightarrow> valid_index s i \<Longrightarrow> \<exists>up s'. isSSUp E i s = Inr (up, s')"
  by (rule isSSUp_returns) (auto simp: valid_index_def ns_wf_def wf_table_def)

section \<open>Tries\<close>

text \<open>The naming server's own copy of the trie search is the one of \<^verbatim>\<open>tries.c\<close>.\<close>

lemma SearchPathHelper_eq: "SearchPathHelper (Some t) ps = Inr (SearchPathHelperTries t ps)"
proof (induction ps arbitrary: t)
  case Nil
  then show ?case by simp
next
  case (Cons p ps)
  show ?case
  proof (cases "find_slot (is_child p) (childeren t)")
    case None
    then show ?thesis by (simp add: deref_def search_Cons child_def)
  next
    case (Some j)
    then obtain n where "childeren t ! j = Some n" using find_child_SomeD by blast
    with Some Cons show ?thesis by (simp add: deref_def search_Cons child_def)
  qed
qed

definition stores :: "string list \<Rightarrow> storage_server_info \<Rightarrow> bool" where
  "stores ps ss \<longleftrightarrow> (\<exists>t. root ss = Some t \<and> SearchPathHelperTries t ps)"

text \<open>The specification of the lookup: the first registered server whose trie stores the path.\<close>

definition resolve :: "ns \<Rightarrow> string \<Rightarrow> int option" where
  "resolve s path =
     (case ParsePath path of
        Inl e \<Rightarrow> None
      | Inr ps \<Rightarrow> map_option int (find_slot (stores ps) (take (storage_server_index s) (storage_servers s))))"

definition answer :: "int option \<Rightarrow> int" where
  "answer r = (case r of None \<Rightarrow> -1 | Some i \<Rightarrow> i)"

lemma search_from_find:
  assumes "wf_table s" "m \<le> storage_server_index s"
  shows "search_from s ps [m..<storage_server_index s] =
    Inr (answer (map_option (\<lambda>j. int (m + j)) (find_slot (stores ps) (drop m (take (storage_server_index s) (storage_servers s))))))"
  using assms(2)
proof (induction "storage_server_index s - m" arbitrary: m)
  case 0
  then show ?case by (simp add: answer_def)
next
  case (Suc k)
  let ?N = "storage_server_index s"
  from Suc.hyps(2) have m: "m < ?N" by simp
  then have up: "[m..<?N] = m # [Suc m..<?N]" by (simp add: upt_conv_Cons)
  have len: "m < length (take ?N (storage_servers s))" using assms(1) m by (simp add: wf_table_def)
  have dr: "drop m (take ?N (storage_servers s)) = storage_servers s ! m # drop (Suc m) (take ?N (storage_servers s))"
    using Cons_nth_drop_Suc [OF len] m by simp
  have "valid_index s (int m)" using m by (simp add: valid_index_def)
  then have sv: "server s (int m) = Inr (storage_servers s ! m)" and "wf_server s (storage_servers s ! m)"
    using server_returns [OF assms(1), of "int m"] server_wf [OF assms(1), of "int m"] by simp_all
  then obtain t where t: "root (storage_servers s ! m) = Some t" by (auto simp: wf_server_def)
  have IH: "search_from s ps [Suc m..<?N] =
    Inr (answer (map_option (\<lambda>j. int (Suc m + j)) (find_slot (stores ps) (drop (Suc m) (take ?N (storage_servers s))))))"
    using Suc.hyps(1) [of "Suc m"] Suc.hyps(2) m by simp
  show ?case
    unfolding up dr search_from.simps sv
    by (simp add: t SearchPathHelper_eq stores_def IH answer_def algebra_simps split: option.split)
qed

lemma search_in_tries_resolve:
  "wf_table s \<Longrightarrow> ParsePath path = Inr ps \<Longrightarrow> search_in_tries s path = Inr (answer (resolve s path))"
  using search_from_find [of s 0 ps] by (simp add: search_in_tries_def resolve_def)

lemma resolve_same: "same_table s s' \<Longrightarrow> resolve s' = resolve s"
proof -
  assume same: "same_table s s'"
  have "find_slot (stores ps) xs = find_slot (stores ps) (map no_flag xs)" for ps xs
    by (induction xs) (auto simp: stores_def no_flag_def)
  then show ?thesis
    using same by (auto simp: resolve_def same_table_def fun_eq_iff take_map [symmetric] split: sum.splits)
      (metis take_map)+
qed

lemma resolve_valid: "wf_table s \<Longrightarrow> resolve s path = Some i \<Longrightarrow> valid_index s i"
  by (auto simp: resolve_def valid_index_def wf_table_def split: sum.splits dest!: find_slot_SomeD)

section \<open>Lookup\<close>

text \<open>The answer of a lookup: a cached answer first, then the tries.\<close>

definition lookup :: "ns \<Rightarrow> string \<Rightarrow> int option" where
  "lookup s path =
     (case map_of (entries (cache s)) path of None \<Rightarrow> resolve s path | Some i \<Rightarrow> Some i)"

definition after_lookup :: "ns \<Rightarrow> string \<Rightarrow> ns \<Rightarrow> bool" where
  "after_lookup s path s' \<longleftrightarrow>
     same_table s s' \<and> wf_entries s' \<and>
     (case lookup s path of
        None \<Rightarrow> cache s' = cache s
      | Some i \<Rightarrow>
          (path, i) \<in> set (entries (cache s')) \<and> set (entries (cache s')) \<subseteq> insert (path, i) (set (entries (cache s))))"

lemma map_of_find_slot:
  "map_of xs k = map_option (\<lambda>j. snd (xs ! j)) (find_slot (\<lambda>p. fst p = k) xs)"
  by (induction xs) (auto simp: option.map_comp comp_def)

lemma search_cache_hit:
  assumes "wf_cache c"
  shows "search_cache c k = Inr (Some j) \<Longrightarrow> j < cache_size c \<and> map_of (entries c) k = Some (index (queue c ! j))"
    and "search_cache c k = Inr None \<Longrightarrow> map_of (entries c) k = None"
  using lru.find_first [OF assms, of k] lru.find_hit [OF assms, of k j] assms
  by (auto simp: map_of_find_slot entries_nth entry_pair_def)

lemma wf_entries_cache:
  assumes "wf_entries s" "storage_server_index s' = storage_server_index s" "wf_cache (cache s')"
    "set (entries (cache s')) \<subseteq> insert (k, i) (set (entries (cache s)))" "valid_index s i"
  shows "wf_entries s'"
  using assms by (fastforce simp: wf_entries_def valid_index_def)

lemma sem_wait_post:
  "sem_wait s = Inr s1 \<Longrightarrow> same_table s (sem_post (s1\<lparr>cache := c\<rparr>)) \<and> cache s1 = cache s \<and> net s1 = net s \<and>
     storage_servers s1 = storage_servers s \<and> storage_server_index s1 = storage_server_index s"
  by (auto simp: sem_wait_def same_table_def split: if_splits)

lemma after_lookup_hit:
  assumes wf: "ns_wf s" and hit: "search_cache (cache s) path = Inr (Some j)"
    and c: "cache s' = move_to_back j (cache s)" and same: "same_table s s'"
  shows "after_lookup s path s' \<and> lookup s path = Some (index (queue (cache s) ! j)) \<and>
    (\<forall>i<cache_size (cache s). valid_index s' (index (queue (cache s') ! i)))"
proof -
  have wfc: "wf_cache (cache s)" and ent: "wf_entries s" using wf by (auto simp: ns_wf_def wf_entries_def)
  note hit' = search_cache_hit(1) [OF wfc hit]
  then have j: "j < length (entries (cache s))" using wfc by simp
  let ?i = "index (queue (cache s) ! j)"
  have mem: "(path, ?i) \<in> set (entries (cache s))" using hit' map_of_SomeD by fast
  have v: "valid_index s ?i" using ent mem by (auto simp: wf_entries_def)
  have set': "set (entries (cache s')) = set (entries (cache s))" unfolding c by (rule lru.set_touch [OF wfc j])
  have wfc': "wf_cache (cache s')" unfolding c by (rule lru.wf_touch [OF wfc j])
  have ix: "storage_server_index s' = storage_server_index s" using same by (simp add: same_table_def)
  have ent': "wf_entries s'"
    by (rule wf_entries_cache [OF ent ix wfc' _ v]) (simp add: set' subset_insertI)
  have len: "length (entries (cache s')) = cache_size (cache s)"
    unfolding c lru.view_touch [OF wfc j] using j wfc by simp
  have "valid_index s' (index (queue (cache s') ! i))" if i: "i < cache_size (cache s)" for i
  proof -
    have "entries (cache s') ! i \<in> set (entries (cache s'))" using i len by simp
    moreover have "i < cache_size (cache s')" using i len wfc' by simp
    then have "snd (entries (cache s') ! i) = index (queue (cache s') ! i)"
      by (simp add: entries_nth [OF wfc'] entry_pair_def)
    ultimately show ?thesis using ent' by (auto simp: wf_entries_def)
  qed
  moreover have "lookup s path = Some ?i" using hit' by (simp add: lookup_def)
  ultimately show ?thesis
    using same ent' mem by (simp add: after_lookup_def set' subset_insertI)
qed

lemma after_lookup_miss:
  assumes wf: "ns_wf s" and miss: "search_cache (cache s) path = Inr None" and r: "resolve s path = Some i"
    and c: "cache s' = add_to_cache path i (cache s)" and same: "same_table s s'"
  shows "after_lookup s path s' \<and> lookup s path = Some i \<and> valid_index s' i"
proof -
  have wfc: "wf_cache (cache s)" using wf by (auto simp: ns_wf_def wf_entries_def)
  have v: "valid_index s i" using wf r resolve_valid by (auto simp: ns_wf_def)
  have "wf_entries s'"
    using wf same v lru.set_push [OF wfc, of path i]
    by (intro wf_entries_cache [of s s' path i]) (auto simp: same_table_def ns_wf_def c lru.wf_push [OF wfc])
  moreover have "lookup s path = Some i"
    using search_cache_hit(2) [OF wfc miss] r by (simp add: lookup_def)
  ultimately show ?thesis
    using same v lru.set_push [OF wfc, of path i] lru.push_found [OF wfc, of path i]
    by (simp add: after_lookup_def c)
qed

lemma after_lookup_ping:
  assumes "after_lookup s path s1" "isSSUp E i s1 = Inr (up, s2)"
  shows "after_lookup s path s2"
proof -
  have "same_table s1 s2" and c: "cache s2 = cache s1" using pinged_same [OF isSSUp_pinged [OF assms(2)]] by auto
  with assms(1) have "same_table s s2" by (auto simp: after_lookup_def intro: same_table_trans)
  moreover have "wf_entries s2"
    using assms(1) \<open>same_table s1 s2\<close> by (simp add: after_lookup_def wf_entries_def c valid_index_same [of s1 s2])
  ultimately show ?thesis using assms(1) unfolding after_lookup_def c by simp
qed

lemma ns_wf_after_lookup: "ns_wf s \<Longrightarrow> after_lookup s path s' \<Longrightarrow> ns_wf s'"
  by (auto simp: after_lookup_def intro: ns_wf_same)

lemma search_in_tries_same:
  "storage_servers s1 = storage_servers s \<Longrightarrow> storage_server_index s1 = storage_server_index s \<Longrightarrow>
   search_in_tries s1 path = search_in_tries s path"
proof -
  assume *: "storage_servers s1 = storage_servers s" "storage_server_index s1 = storage_server_index s"
  have "search_from s1 ps is = search_from s ps is" for ps "is"
    by (induction "is") (simp_all add: server_def * cong: if_cong)
  then show ?thesis by (simp add: search_in_tries_def *)
qed

lemma answer_None: "wf_table s \<Longrightarrow> answer (resolve s path) = -1 \<longleftrightarrow> resolve s path = None"
  using resolve_valid [of s path] by (auto simp: answer_def valid_index_def split: option.splits)

text \<open>The three ways through \<^verbatim>\<open>search_storage_server\<close>.\<close>

lemma search_storage_server_unfold [consumes 1, case_names hit miss absent overrun]:
  assumes wf: "ns_wf s"
  obtains
    (hit) j s2 where "search_cache (cache s) path = Inr (Some j)" "cache s2 = move_to_back j (cache s)" "same_table s s2"
      "net s2 = net s" "storage_servers s2 = storage_servers s"
      "search_storage_server E path s =
         andthen (isSSUp E (index (queue (cache s2) ! j)) s2) (\<lambda>(up, s3). Inr (index (queue (cache s) ! j), s3))"
  | (miss) i s2 where "search_cache (cache s) path = Inr None" "resolve s path = Some i"
      "cache s2 = add_to_cache path i (cache s)" "same_table s s2" "net s2 = net s" "storage_servers s2 = storage_servers s"
      "search_storage_server E path s = andthen (isSSUp E i s2) (\<lambda>(up, s3). Inr (i, s3))"
  | (absent) ps where "search_cache (cache s) path = Inr None" "ParsePath path = Inr ps" "resolve s path = None"
      "search_storage_server E path s = Inr (-1, s)"
  | (overrun) e where "search_cache (cache s) path = Inr None" "ParsePath path = Inl e"
      "search_storage_server E path s = Inl e"
proof -
  have sem: "storage_semaphore s = Suc 0" and tab: "wf_table s" and wfc: "wf_cache (cache s)"
    using wf by (auto simp: ns_wf_def wf_entries_def)
  define s1 where "s1 = s\<lparr>storage_semaphore := 0\<rparr>"
  have w: "sem_wait s = Inr s1" using sem by (simp add: sem_wait_def s1_def)
  have tr: "search_in_tries s1 path = search_in_tries s path"
    by (rule search_in_tries_same) (simp_all add: s1_def)
  have post: "sem_post s1 = s" by (simp add: s1_def sem_post_def sem [symmetric])
  let ?s = "\<lambda>c. sem_post (s1\<lparr>cache := c\<rparr>)"
  have same: "same_table s (?s c)" "net (?s c) = net s" "storage_servers (?s c) = storage_servers s" for c
    using sem by (simp_all add: same_table_def s1_def)
  have s1: "net s1 = net s" "storage_servers s1 = storage_servers s" by (simp_all add: s1_def)
  obtain r where r: "search_cache (cache s) path = Inr r" using lru.find_returns [OF wfc] by blast
  have c1: "cache s1 = cache s" by (simp add: s1_def)
  show ?thesis
  proof (cases r)
    case (Some j)
    show ?thesis
      by (rule hit [of j "?s (move_to_back j (cache s))"])
        (simp_all add: same s1 r Some search_storage_server_def w c1 Let_def)
  next
    case None
    show ?thesis
    proof (cases "ParsePath path")
      case (Inl e)
      then show ?thesis
        by (intro overrun [of e]) (simp_all add: r None search_storage_server_def w c1 search_in_tries_def)
    next
      case (Inr ps)
      note st = search_in_tries_resolve [OF tab Inr]
      show ?thesis
      proof (cases "resolve s path")
        case None
        then show ?thesis
          using r \<open>r = None\<close> Inr st
          by (intro absent [of ps]) (simp_all add: search_storage_server_def w c1 tr post answer_def)
      next
        case (Some i)
        then have "i \<noteq> -1" using answer_None [OF tab, of path] by (simp add: answer_def)
        with Some show ?thesis
          using r \<open>r = None\<close> st
          by (intro miss [of i "?s (add_to_cache path i (cache s))"])
            (simp_all add: same s1 search_storage_server_def w c1 tr answer_def)
      qed
    qed
  qed
qed

lemma search_storage_server_post:
  assumes wf: "ns_wf s" and ret: "search_storage_server E path s = Inr (k, s')"
  shows "after_lookup s path s' \<and> k = answer (lookup s path) \<and> ns_wf s'"
proof -
  have wfc: "wf_cache (cache s)" using wf by (simp add: ns_wf_def wf_entries_def)
  have "after_lookup s path s' \<and> k = answer (lookup s path)"
    using wf
  proof (cases rule: search_storage_server_unfold [where E = E and path = path])
    case (hit j s2)
    from after_lookup_hit [OF wf hit(1,2,3)] ret hit(6) show ?thesis
      by (auto simp: answer_def intro: after_lookup_ping)
  next
    case (miss i s2)
    from after_lookup_miss [OF wf miss(1,2,3,4)] ret miss(7) show ?thesis
      by (auto simp: answer_def intro: after_lookup_ping)
  next
    case (absent ps)
    then have "lookup s path = None" using search_cache_hit(2) [OF wfc absent(1)] by (simp add: lookup_def)
    with absent(4) ret wf show ?thesis by (simp add: after_lookup_def ns_wf_def answer_def)
  next
    case (overrun e)
    with ret show ?thesis by simp
  qed
  then show ?thesis using ns_wf_after_lookup [OF wf] by blast
qed

lemma search_storage_server_returns:
  assumes wf: "ns_wf s" and p: "ParsePath path = Inr ps"
  shows "\<exists>k s'. search_storage_server E path s = Inr (k, s')"
  using wf
proof (cases rule: search_storage_server_unfold [where E = E and path = path])
  case (hit j s2)
  have wfc: "wf_cache (cache s)" using wf by (simp add: ns_wf_def wf_entries_def)
  have "valid_index s2 (index (queue (cache s2) ! j))"
    using after_lookup_hit [OF wf hit(1,2,3)] search_cache_hit(1) [OF wfc hit(1)] by blast
  moreover have "ns_wf s2" using after_lookup_hit [OF wf hit(1,2,3)] ns_wf_after_lookup [OF wf] by blast
  ultimately show ?thesis using valid_isSSUp [of s2] hit(6) by fastforce
next
  case (miss i s2)
  have "valid_index s2 i" "ns_wf s2"
    using after_lookup_miss [OF wf miss(1,2,3,4)] ns_wf_after_lookup [OF wf] by blast+
  then show ?thesis using valid_isSSUp [of s2] miss(7) by fastforce
next
  case (absent ps)
  then show ?thesis by blast
next
  case (overrun e)
  with p show ?thesis by simp
qed

lemma lookup_valid:
  assumes "ns_wf s" "lookup s path = Some i"
  shows "valid_index s i"
proof (cases "map_of (entries (cache s)) path")
  case None
  with assms show ?thesis using resolve_valid by (auto simp: lookup_def ns_wf_def)
next
  case (Some j)
  with assms map_of_SomeD [OF Some] show ?thesis by (auto simp: lookup_def ns_wf_def wf_entries_def)
qed

text \<open>Coherence: every cached answer is the answer of the tries.\<close>

definition ns_coherent :: "ns \<Rightarrow> bool" where
  "ns_coherent s \<longleftrightarrow> coherent (resolve s) (entries (cache s))"

lemma lookup_coherent: "ns_coherent s \<Longrightarrow> lookup s path = resolve s path"
  by (auto simp: lookup_def ns_coherent_def coherent_def split: option.splits dest!: map_of_SomeD)

lemma after_lookup_coherent:
  assumes "ns_coherent s" "after_lookup s path s'"
  shows "ns_coherent s'"
proof (cases "lookup s path")
  case None
  then show ?thesis
    using assms resolve_same [of s s'] by (simp add: after_lookup_def ns_coherent_def)
next
  case (Some i)
  then have "set (entries (cache s')) \<subseteq> insert (path, i) (set (entries (cache s)))" "resolve s' = resolve s"
    "resolve s path = Some i"
    using assms lookup_coherent resolve_same by (auto simp: after_lookup_def)
  then show ?thesis using assms(1) by (fastforce simp: ns_coherent_def coherent_def)
qed

section \<open>Backups and removal from the cache\<close>

lemma isUp_pinged: "pinged i s True s' \<Longrightarrow> nat i < length (storage_servers s) \<Longrightarrow> isUp (storage_servers s' ! nat i)"
  by (auto simp: pinged_def)

lemma isSSUp_up:
  assumes "ns_wf s" "valid_index s i" "isSSUp E i s = Inr (True, s')"
  shows "isUp (storage_servers s' ! nat i)"
  using isUp_pinged [OF isSSUp_pinged [OF assms(3)]] assms(1,2)
  by (auto simp: ns_wf_def wf_table_def valid_index_def)

lemma same_table_backups:
  assumes "ns_wf s" "valid_index s i" "same_table s s'"
  shows "backupServer1 (storage_servers s' ! nat i) = backupServer1 (storage_servers s ! nat i)"
    "backupServer2 (storage_servers s' ! nat i) = backupServer2 (storage_servers s ! nat i)"
proof -
  have "nat i < length (storage_servers s)"
    using assms(1,2) by (auto simp: ns_wf_def wf_table_def valid_index_def)
  from no_flag_eqD [OF same_table_nth [OF assms(3) this]]
  show "backupServer1 (storage_servers s' ! nat i) = backupServer1 (storage_servers s ! nat i)"
    "backupServer2 (storage_servers s' ! nat i) = backupServer2 (storage_servers s ! nat i)" by simp_all
qed

lemma try_backup:
  assumes "ns_wf s" "b = -1 \<or> valid_index s b"
  obtains up s' where "backup_up E b s = Inr (up, s')" "ns_wf s'" "same_table s s'"
    "cache s' = cache s" "up \<longrightarrow> valid_index s b \<and> isUp (storage_servers s' ! nat b)"
proof (cases "b = -1")
  case True
  then show ?thesis using that [of False s] assms(1) by (simp add: backup_up_def)
next
  case False
  then have v: "valid_index s b" using assms(2) by simp
  then obtain up s' where r: "isSSUp E b s = Inr (up, s')" using valid_isSSUp [OF assms(1)] by blast
  with isSSUp_wf [OF assms(1) r] isSSUp_up [OF assms(1) v] v False that show ?thesis by (cases up) (auto simp: backup_up_def)
qed

lemma redundantSS_post:
  assumes wf: "ns_wf s" and v: "valid_index s i"
  obtains k s' where "redundantSS E i s = Inr (k, s')" "ns_wf s'" "same_table s s'" "cache s' = cache s"
    "k = -1 \<or> k \<in> {i, backupServer1 (storage_servers s ! nat i), backupServer2 (storage_servers s ! nat i)} \<and>
       valid_index s k \<and> isUp (storage_servers s' ! nat k)"
proof -
  have srv: "wf_server s (storage_servers s ! nat i)" using server_wf v wf by (simp add: ns_wf_def)
  have rd: "server s' i = Inr (storage_servers s' ! nat i)" if "ns_wf s'" "same_table s s'" for s'
    using that v server_returns [of s' i] by (simp add: ns_wf_def)
  obtain up s1 where p: "isSSUp E i s = Inr (up, s1)" using valid_isSSUp [OF wf v] by blast
  have s1: "ns_wf s1" "same_table s s1" "cache s1 = cache s" using isSSUp_wf [OF wf p] by auto
  let ?b1 = "backupServer1 (storage_servers s ! nat i)" and ?b2 = "backupServer2 (storage_servers s ! nat i)"
  have "?b1 = -1 \<or> valid_index s1 ?b1" using srv s1(2) by (simp add: wf_server_def)
  from try_backup [OF s1(1) this, of E] obtain up1 s2 where b1:
    "backup_up E ?b1 s1 = Inr (up1, s2)"
    "ns_wf s2" "same_table s1 s2" "cache s2 = cache s1" "up1 \<longrightarrow> valid_index s1 ?b1 \<and> isUp (storage_servers s2 ! nat ?b1)"
    by blast
  have s2: "same_table s s2" using s1(2) b1(3) by (rule same_table_trans)
  have "?b2 = -1 \<or> valid_index s2 ?b2" using srv s2 by (simp add: wf_server_def)
  from try_backup [OF b1(2) this, of E] obtain up2 s3 where b2:
    "backup_up E ?b2 s2 = Inr (up2, s3)"
    "ns_wf s3" "same_table s2 s3" "cache s3 = cache s2" "up2 \<longrightarrow> valid_index s2 ?b2 \<and> isUp (storage_servers s3 ! nat ?b2)"
    by blast
  have s3: "same_table s s3" using s2 b2(3) by (rule same_table_trans)
  note bk = same_table_backups [OF wf v s1(2)] same_table_backups [OF wf v s2]
  have red: "redundantSS E i s = Inr (if up then (i, s1) else if up1 then (?b1, s2) else if up2 then (?b2, s3) else (-1, s3))"
    using b1(1) b2(1) by (simp add: redundantSS_def p rd [OF s1(1,2)] rd [OF b1(2) s2] bk Let_def)
  show ?thesis
  proof (cases up)
    case True
    with red s1 v isSSUp_up [OF wf v] p that show ?thesis by simp
  next
    case False
    show ?thesis
    proof (cases up1)
      case True
      with red False b1 s1 s2 that show ?thesis by simp
    next
      case up1: False
      show ?thesis
        by (rule that [of "if up2 then ?b2 else -1" s3])
          (use red False up1 b1 b2 s1 s2 s3 in \<open>auto split: if_splits\<close>)
    qed
  qed
qed

lemma delete_from_cache_hit:
  assumes "wf_cache (cache s)" "k \<in> fst ` set (entries (cache s))"
  obtains j where "delete_from_cache k s = Inr (s\<lparr>cache := remove_at j (cache s)\<rparr>)" "j < length (entries (cache s))"
    "fst (entries (cache s) ! j) = k"
proof -
  obtain r where r: "search_cache (cache s) k = Inr r" using lru.find_returns [OF assms(1)] by blast
  then obtain j where "r = Some j" using lru.find_miss [OF assms(1), of k] assms(2) by (cases r) auto
  with r lru.find_hit [OF assms(1), of k j] that [of j] show ?thesis by (simp add: delete_from_cache_def)
qed

lemma delete_from_cache_miss:
  assumes "wf_cache (cache s)" "k \<notin> fst ` set (entries (cache s))"
  shows "delete_from_cache k s = Inr (sem_post s)"
  using lru.find_miss [OF assms(1), of k] assms(2) by (simp add: delete_from_cache_def)

end
