(* ===== verification/Ns_Register.thy ===== *)
theory Ns_Register
  imports Ns_Lookup
begin

text \<open>
  Copy requests and the registration of storage servers (\<^verbatim>\<open>handle_copy_request\<close>,
  \<^verbatim>\<open>create_backup_helper\<close>, \<^verbatim>\<open>register_storage_server\<close> of
  \<^verbatim>\<open>naming_server.c\<close>). Every in-place edit of a command buffer checks that the result
  still fits the \<^verbatim>\<open>BUFFER_SIZE\<close> bytes of the buffer.
\<close>

section \<open>Operations\<close>

definition send_quiet :: "env \<Rightarrow> int \<Rightarrow> string \<Rightarrow> ns \<Rightarrow> ns" where
  "send_quiet E fd msg s = io (\<lambda>w. snd (send_good E fd msg w)) s"

definition send_rep :: "env \<Rightarrow> int \<Rightarrow> string \<Rightarrow> int \<Rightarrow> ns \<Rightarrow> ns" where
  "send_rep E fd msg code s = io (send_or_report E fd msg code) s"

text \<open>The address part of a copy command: \<^verbatim>\<open>" %s %d"\<close>.\<close>

definition dest_address :: "storage_server_info \<Rightarrow> string" where
  "dest_address ss = snprintf BUFFER_SIZE ('' '' @ ip (clientInfo ss) @ '' '' @ show_int (portClient ss))"

text \<open>The backup branch of \<^verbatim>\<open>handle_copy_request\<close>, taken when
  \<^verbatim>\<open>client_socket == -1\<close>.\<close>

definition copy_backup :: "env \<Rightarrow> string \<Rightarrow> int \<Rightarrow> int \<Rightarrow> ns \<Rightarrow> ns result" where
  "copy_backup E buffer src_sock dest_index s =
     andthen (if \<not> starts_with ''lcopy'' buffer then sprintf BUFFER_SIZE (''copydifferent'' @ drop 4 buffer)
              else Inr buffer) (\<lambda>buffer1.
     andthen (server s dest_index) (\<lambda>ss.
     andthen (sprintf BUFFER_SIZE (buffer1 @ dest_address ss)) (\<lambda>buffer2.
       case io_val (send_good E src_sock buffer2) s of
         (sent, s1) \<Rightarrow>
           if sent < 0 then Inr (io (printErrorDetails 49) s1)
           else
             (case io_val (recv_good E src_sock BUFFER_SIZE) s1 of
                ((bytes, b), s2) \<Rightarrow>
                  if bytes \<le> 0 then Inr (io (printErrorDetails 50) s2)
                  else andthen (buf_str BUFFER_SIZE b) (\<lambda>response. Inr s2)))))"

text \<open>The text after the last slash.\<close>

definition base_name :: "string \<Rightarrow> string" where
  "base_name src = (case strrchr src CHR ''/'' of None \<Rightarrow> src | Some i \<Rightarrow> drop (Suc i) src)"

text \<open>The pointer \<^verbatim>\<open>dest + 2\<close> into the tokenised buffer: for a token of one character it
  skips the NUL that replaced the delimiter, and points past the block when the token ended it.\<close>

definition skip_two :: "string \<Rightarrow> string \<Rightarrow> string result" where
  "skip_two dest after =
     (if length dest \<ge> 2 then Inr (drop 2 dest)
      else case after of [] \<Rightarrow> Inl OutOfBounds | d # rest \<Rightarrow> Inr rest)"

text \<open>The copy to one backup server at the end of a client's copy.\<close>

definition copy_to_backup :: "env \<Rightarrow> int \<Rightarrow> string \<Rightarrow> string \<Rightarrow> string \<Rightarrow> int \<Rightarrow> ns \<Rightarrow> ns result" where
  "copy_to_backup E dest_sock src dest after bs s =
     andthen (backup_up E bs s) (\<lambda>(up, s1).
       if \<not> up then Inr s1
       else
         andthen (server s1 bs) (\<lambda>b.
         andthen (top_name b) (\<lambda>top.
         andthen (skip_two dest after) (\<lambda>dest2.
           Inr (send_quiet E dest_sock
             (snprintf BUFFER_SIZE
               (''copydifferentb '' @ dest @ ''/'' @ base_name src @ '' ./backupfolderforss/'' @ top @ ''/'' @ dest2 @
                '' '' @ ip (clientInfo b) @ '' '' @ show_int (portClient b))) s1)))))"

definition copy_command :: "string \<Rightarrow> int \<Rightarrow> int \<Rightarrow> storage_server_info \<Rightarrow> string result" where
  "copy_command buffer src_index dest_index dst =
     (if src_index = dest_index then sprintf BUFFER_SIZE (''copysame'' @ drop 4 buffer)
      else
        andthen (sprintf BUFFER_SIZE (''copydifferent'' @ drop 4 buffer)) (\<lambda>buffer1.
        sprintf BUFFER_SIZE (buffer1 @ dest_address dst)))"

text \<open>After the reply: the destination server is indexed again and the copy is repeated on its
  backups.\<close>

definition reindex_dest :: "env \<Rightarrow> nat \<Rightarrow> int \<Rightarrow> int \<Rightarrow> ns \<Rightarrow> ns result" where
  "reindex_dest E n dest_sock dest_index s =
     andthen (indexHelper E n dest_sock (CreateNode ''.'') (io (\<lambda>w. snd (send E dest_sock ''reindex'' w)) s))
       (\<lambda>(r, s1). Inr (upd_server dest_index (\<lambda>ss. ss\<lparr>root := Some r\<rparr>) s1))"

definition copy_between ::
  "env \<Rightarrow> nat \<Rightarrow> string \<Rightarrow> int \<Rightarrow> string \<Rightarrow> string \<Rightarrow> string \<Rightarrow> int \<Rightarrow> int \<Rightarrow> ns \<Rightarrow> ns result" where
  "copy_between E n buffer client_socket src dest after src_index dest_index s =
     andthen (server s src_index) (\<lambda>a. andthen (server s dest_index) (\<lambda>d.
     let src_sock = socket (clientInfo a); dest_sock = socket (clientInfo d) in
     andthen (copy_command buffer src_index dest_index d) (\<lambda>buffer2.
       case io_val (send_good E src_sock buffer2) s of
         (sent, s1) \<Rightarrow>
           if sent < 0 then Inr (io (printErrorDetails 49) s1)
           else
             (case io_val (recv_good E src_sock BUFFER_SIZE) s1 of
                ((bytes, b), s2) \<Rightarrow>
                  if bytes \<le> 0 then Inr (io (printErrorDetails 50) s2)
                  else
                    andthen (buf_str BUFFER_SIZE b) (\<lambda>response.
                      case io_val (send_good E client_socket response) s2 of
                        (sent2, s3) \<Rightarrow>
                          if sent2 < 0 then Inr (io (printErrorDetails 52) s3)
                          else
                            andthen (reindex_dest E n dest_sock dest_index s3) (\<lambda>s4.
                            andthen (server s4 dest_index) (\<lambda>d'.
                            andthen (copy_to_backup E dest_sock src dest after (backupServer1 d') s4) (\<lambda>s5.
                            copy_to_backup E dest_sock src dest after (backupServer2 d') s5))))))))"

definition copy_for_client :: "env \<Rightarrow> nat \<Rightarrow> string \<Rightarrow> int \<Rightarrow> string \<Rightarrow> string \<Rightarrow> string \<Rightarrow> ns \<Rightarrow> ns result" where
  "copy_for_client E n buffer client_socket src dest after s =
     (if src = ''/'' \<or> src = ''./'' \<or> dest = ''/'' \<or> dest = ''./''
      then Inr (send_rep E client_socket ''Invalid source or destination path.'' 51 s)
      else
        andthen (search_storage_server E src s) (\<lambda>(src_index, s1).
        andthen (search_storage_server E dest s1) (\<lambda>(dest_index, s2).
          let not_found = send_rep E client_socket (''Storage server not found'' @ [CHR 0x00]) 51 s2 in
          if src_index = -1 \<or> dest_index = -1 then Inr not_found
          else
            andthen (server s2 src_index) (\<lambda>a. andthen (server s2 dest_index) (\<lambda>d.
              if \<not> isUp a \<or> \<not> isUp d then Inr not_found
              else copy_between E n buffer client_socket src dest after src_index dest_index s2)))))"

definition handle_copy_request :: "env \<Rightarrow> nat \<Rightarrow> string \<Rightarrow> int \<Rightarrow> int \<Rightarrow> int \<Rightarrow> ns \<Rightarrow> ns result" where
  "handle_copy_request E n buffer client_socket src_sock dest_index s =
     (if client_socket = -1 then copy_backup E buffer src_sock dest_index s
      else if starts_with ''copy'' buffer
      then
        (let invalid = Inr (send_quiet E client_socket ''Invalid request. Source or destination path missing.'' s) in
         case strtok '' '' buffer of
           None \<Rightarrow> invalid
         | Some (command, r1) \<Rightarrow>
             (case strtok '' '' r1 of
                None \<Rightarrow> invalid
              | Some (src, r2) \<Rightarrow>
                  (case strtok '' '' r2 of
                     None \<Rightarrow> invalid
                   | Some (dest, r3) \<Rightarrow>
                       copy_for_client E n buffer client_socket src dest
                         (dropWhile (\<lambda>c. c \<noteq> CHR '' '') (dropWhile (\<lambda>c. c = CHR '' '') r2)) s)))
      else Inr s)"

definition create_backup_helper :: "env \<Rightarrow> int \<Rightarrow> int \<Rightarrow> ns \<Rightarrow> ns result" where
  "create_backup_helper E source_server_index dest_server_index s =
     andthen (server s dest_server_index) (\<lambda>d.
     andthen (top_name d) (\<lambda>dest_top.
     let s1 = send_rep E (socket (clientInfo d))
                (snprintf BUFFER_SIZE (''mkdirb ./backfolderforss/'' @ dest_top)) 38 s in
     andthen (server s1 source_server_index) (\<lambda>a.
     andthen (top_name a) (\<lambda>src_top.
       handle_copy_request E 0
         (snprintf BUFFER_SIZE (''copy ./'' @ src_top @ '' ./backupfolderforss/'' @ dest_top))
         (-1) (ss_socket a) dest_server_index s1))))"

fun create_backups :: "env \<Rightarrow> (int \<times> int) list \<Rightarrow> ns \<Rightarrow> ns result" where
  "create_backups E [] s = Inr s"
| "create_backups E ((a, b) # ps) s = andthen (create_backup_helper E a b s) (create_backups E ps)"

text \<open>The loop that looks for a server already known by the name of its exported directory.\<close>

fun redundancy_slot :: "trienode \<Rightarrow> storage_server_info list \<Rightarrow> nat option result" where
  "redundancy_slot r [] = Inr None"
| "redundancy_slot r (ss # sss) =
     (case root ss of
        None \<Rightarrow> andthen (redundancy_slot r sss) (\<lambda>j. Inr (map_option Suc j))
      | Some t \<Rightarrow>
          andthen (top_node (Some r)) (\<lambda>m. andthen (top_name ss) (\<lambda>name.
            if data m = name then Inr (Some 0)
            else andthen (redundancy_slot r sss) (\<lambda>j. Inr (map_option Suc j)))))"

definition set_backups :: "int \<Rightarrow> int \<Rightarrow> storage_server_info \<Rightarrow> storage_server_info" where
  "set_backups b1 b2 ss = ss\<lparr>backupServer1 := b1, backupServer2 := b2\<rparr>"

text \<open>The part of \<^verbatim>\<open>register_storage_server\<close> under the semaphore.\<close>

definition insert_server :: "env \<Rightarrow> storage_server_info \<Rightarrow> ns \<Rightarrow> ns result" where
  "insert_server E ss_info s =
     andthen (sem_wait s) (\<lambda>s1.
     let i = storage_server_index s1 in
     andthen
       (if i \<ge> MAX_STORAGE_SERVERS then Inr s1
        else
          (let s2 = s1\<lparr>storage_servers := (storage_servers s1)[i := ss_info]\<rparr> in
           if i = 2
           then create_backups E [(0, 1), (0, 2), (1, 2), (1, 0), (1, 2), (2, 0), (2, 1)]
                  (upd_server 2 (set_backups 0 1) (upd_server 1 (set_backups 0 2) (upd_server 0 (set_backups 1 2) s2)))
           else if i > 2
           then create_backups E
                  [(int i, int i - 1), (int i, int i - 2), (int i - 1, int i), (int i - 2, int i)]
                  (upd_server (int i) (set_backups (int i - 1) (int i - 2)) s2)
           else Inr s2))
       (\<lambda>s3. Inr (sem_post (s3\<lparr>storage_server_index := Suc (storage_server_index s3)\<rparr>))))"

definition register_storage_server :: "env \<Rightarrow> nat \<Rightarrow> connection_info \<Rightarrow> ns \<Rightarrow> ns result" where
  "register_storage_server E n ssc_info s =
     andthen (io_result (log_line E (ip ssc_info) (port ssc_info)
       (''Registered a Storage Server with fd ['' @ show_int (socket ssc_info) @ '']'')) s) (\<lambda>s1.
       case io_val (recv_good E (socket ssc_info) (sizeof_ss_info E)) s1 of
         ((bytes, b), s2) \<Rightarrow>
           if bytes \<le> 0 then Inr (io (\<lambda>w. close (socket ssc_info) (printErrorDetails 39 w)) s2)
           else
             andthen (indexHelper E n (socket ssc_info) (CreateNode ''.'') s2) (\<lambda>(r, s3).
             andthen (DisplayTrie r) (\<lambda>text.
             let s4 = io (emit (Stdout text)) s3;
                 ss_info = \<lparr>clientInfo = ssc_info, portClient = portClient_of E b, ss_socket = socket ssc_info,
                            root = Some r, backupServer1 = -1, backupServer2 = -1, isUp = True\<rparr> in
             andthen (redundancy_slot r (storage_servers s4)) (\<lambda>found.
               case found of
                 Some i \<Rightarrow>
                   Inr (upd_server (int i) (\<lambda>ss. ss\<lparr>isUp := True, clientInfo := ssc_info,
                          ss_socket := socket ssc_info, portClient := portClient ss_info\<rparr>) s4)
               | None \<Rightarrow> insert_server E ss_info s4))))"

end
