(* ===== verification/Ns_Client.thy ===== *)
theory Ns_Client
  imports Ns_Register
begin

text \<open>
  The client side of the naming server: the command loop \<^verbatim>\<open>process_client\<close> with its
  branches, and the notifications \<^verbatim>\<open>listen_async\<close> handles. A handler returns whether the
  client's thread goes on and the new state. Reading \<^verbatim>\<open>storage_servers[-1]\<close> into variables
  that are not used afterwards is left out; where the value is used, it is a fault.
\<close>

section \<open>Replies\<close>

definition not_found_msg :: string where "not_found_msg = ''Storage server not found''"

definition log_to_client :: "env \<Rightarrow> string \<Rightarrow> int \<Rightarrow> ns \<Rightarrow> ns result" where
  "log_to_client E msg client_socket s =
     ns_log E (''Sending: '' @ [CHR 0x27] @ msg @ [CHR 0x27] @ '' -to- Client fd['' @ show_int client_socket @ '']'') s"

definition log_to_ss :: "env \<Rightarrow> string \<Rightarrow> int \<Rightarrow> ns \<Rightarrow> ns result" where
  "log_to_ss E msg ss_sock s =
     ns_log E (''Sending: '' @ [CHR 0x27] @ msg @ [CHR 0x27] @ '' -to- Storage Server fd['' @ show_int ss_sock @ '']'') s"

definition log_from_ss :: "env \<Rightarrow> string \<Rightarrow> int \<Rightarrow> ns \<Rightarrow> ns result" where
  "log_from_ss E msg ss_sock s =
     ns_log E (''recieved: '' @ [CHR 0x27] @ msg @ [CHR 0x27] @ '' -from- Storage Server fd['' @ show_int ss_sock @ '']'') s"

definition reply_not_found :: "env \<Rightarrow> int \<Rightarrow> ns \<Rightarrow> ns" where
  "reply_not_found E client_socket s = send_rep E client_socket not_found_msg 51 s"

text \<open>The condition \<^verbatim>\<open>ssindex != -1 && storage_servers[ssindex].isUp\<close>.\<close>

definition server_up :: "ns \<Rightarrow> int \<Rightarrow> bool result" where
  "server_up s ssindex = (if ssindex = -1 then Inr False else andthen (server s ssindex) (\<lambda>ss. Inr (isUp ss)))"

text \<open>The assignment \<^verbatim>\<open>response[bytes] = '\\0'\<close> in a block of
  \<^verbatim>\<open>BUFFER_SIZE\<close> bytes, and the string in it.\<close>

definition terminated :: "string \<Rightarrow> string result" where
  "terminated b = (if length b < BUFFER_SIZE then Inr (c_str b) else Inl OutOfBounds)"

section \<open>Commands\<close>

fun list_roots :: "env \<Rightarrow> int \<Rightarrow> nat list \<Rightarrow> ns \<Rightarrow> ns result" where
  "list_roots E client_socket [] s = Inr s"
| "list_roots E client_socket (i # is) s =
     andthen (server s (int i)) (\<lambda>ss. andthen (top_node (root ss)) (\<lambda>n.
     andthen (io_result (DisplayTrieNetwork E client_socket n) s) (list_roots E client_socket is)))"

definition handle_ls :: "env \<Rightarrow> int \<Rightarrow> ns \<Rightarrow> ns result" where
  "handle_ls E client_socket s =
     andthen (list_roots E client_socket [0..<storage_server_index s] s)
       (\<lambda>s1. Inr (send_quiet E client_socket ''@#!@#over@$'' s1))"

text \<open>The answer to \<^verbatim>\<open>write\<close>: the flag, then the address of the storage server. A command
  without a third word passes NULL to the lookup.\<close>

definition write_reply :: "string \<Rightarrow> storage_server_info \<Rightarrow> string result" where
  "write_reply flag ss =
     sprintf BUFFER_SIZE
       ((if flag = ''-s'' then ''PATH_OK_SYNC'' else if flag = ''-a'' then ''PATH_OK_ASYNC'' else []) @
        snprintf BUFFER_SIZE (''|'' @ ip (clientInfo ss) @ ''|'' @ show_int (portClient ss)))"

definition handle_write :: "env \<Rightarrow> string \<Rightarrow> string option \<Rightarrow> int \<Rightarrow> ns \<Rightarrow> ns result" where
  "handle_write E flag path client_socket s =
     (case path of
        None \<Rightarrow> andthen (sem_wait s) (\<lambda>s1. Inl NullDeref)
      | Some p \<Rightarrow>
          andthen (search_storage_server E p s) (\<lambda>(ssindex, s1).
          andthen (server_up s1 ssindex) (\<lambda>up.
            if up
            then
              andthen (server s1 ssindex) (\<lambda>ss. andthen (write_reply flag ss) (\<lambda>send_buffer.
                Inr (send_rep E client_socket (send_buffer @ [CHR 0x00]) 10 s1)))
            else log_to_client E not_found_msg client_socket (reply_not_found E client_socket s1))))"

text \<open>Repeat a command on a backup server with \<^verbatim>\<open>b\<close> appended to its name.\<close>

definition forward_backup :: "env \<Rightarrow> bool \<Rightarrow> string \<Rightarrow> string \<Rightarrow> int \<Rightarrow> ns \<Rightarrow> ns result" where
  "forward_backup E logged command path bs s =
     andthen (backup_up E bs s) (\<lambda>(up, s1).
       if \<not> up then Inr s1
       else
         andthen (server s1 bs) (\<lambda>b.
           let backup_buffer = snprintf BUFFER_SIZE (command @ ''b '' @ path);
               s2 = send_rep E (socket (clientInfo b)) backup_buffer 38 s1 in
           if logged then log_to_ss E backup_buffer (socket (clientInfo b)) s2 else Inr s2))"

text \<open>Apply an operation of \<^verbatim>\<open>tries.c\<close> to the trie of a storage server.\<close>

definition edit_trie :: "(trienode \<Rightarrow> trienode result) \<Rightarrow> int \<Rightarrow> ns \<Rightarrow> ns result" where
  "edit_trie f i s =
     andthen (server s i) (\<lambda>ss. andthen (deref (root ss)) (\<lambda>t. andthen (f t) (\<lambda>t'.
       Inr (upd_server i (\<lambda>ss. ss\<lparr>root := Some t'\<rparr>) s))))"

definition invalid_paths :: "string list" where
  "invalid_paths = [''./'', ''.'', ''/'', [], '' '']"

definition parent_path :: "string \<Rightarrow> string" where
  "parent_path path = (case strrchr path CHR ''/'' of None \<Rightarrow> path | Some i \<Rightarrow> take i path)"

definition create_on :: "env \<Rightarrow> string \<Rightarrow> string \<Rightarrow> string \<Rightarrow> int \<Rightarrow> int \<Rightarrow> ns \<Rightarrow> ns result" where
  "create_on E buffer command path client_socket ssindex s =
     andthen (server s ssindex) (\<lambda>ss.
       case io_val (send_good E (socket (clientInfo ss)) buffer) s of
         (sent, s1) \<Rightarrow>
           if sent < 0 then Inr (io (printErrorDetails 51) s1)
           else
             (case io_val (recv_good E (socket (clientInfo ss)) BUFFER_SIZE) s1 of
                ((bytes, b), s2) \<Rightarrow>
                  if bytes \<le> 0
                  then Inr (send_rep E client_socket ''Storage server not responding'' 51 (io (printErrorDetails 54) s2))
                  else
                    andthen (terminated b) (\<lambda>response.
                      let s3 = send_rep E client_socket response 51 s2 in
                      if starts_with ''Could not'' response then Inr s3
                      else
                        andthen (server s3 ssindex) (\<lambda>ss'.
                        andthen (forward_backup E False command path (backupServer1 ss') s3) (\<lambda>s4.
                        andthen (forward_backup E False command path (backupServer2 ss') s4) (\<lambda>s5.
                        edit_trie (AddPathToTrie path) ssindex s5))))))"

definition handle_create :: "env \<Rightarrow> string \<Rightarrow> string \<Rightarrow> string \<Rightarrow> int \<Rightarrow> ns \<Rightarrow> (bool \<times> ns) result" where
  "handle_create E buffer command path client_socket s =
     (if parent_path path \<in> set invalid_paths
      then
        (case io_val (send_good E client_socket ''Invalid Path'') s of
           (sent, s1) \<Rightarrow> if sent < 0 then Inr (False, io (printErrorDetails 51) s1) else Inr (True, s1))
      else
        andthen (search_storage_server E (parent_path path) s) (\<lambda>(ssindex, s1).
        let s2 = (if ssindex \<noteq> -1 then s1\<lparr>cache := add_to_cache path ssindex (cache s1)\<rparr> else s1) in
        andthen (server_up s2 ssindex) (\<lambda>up.
          if up
          then andthen (create_on E buffer command path client_socket ssindex s2) (\<lambda>s3. Inr (True, s3))
          else Inr (True, reply_not_found E client_socket s2))))"

definition remove_on :: "env \<Rightarrow> string \<Rightarrow> string \<Rightarrow> string \<Rightarrow> int \<Rightarrow> int \<Rightarrow> ns \<Rightarrow> ns result" where
  "remove_on E buffer command path client_socket ssindex s =
     andthen (server s ssindex) (\<lambda>ss.
       let ss_sock = socket (clientInfo ss) in
       case io_val (send_good E ss_sock buffer) s of
         (sent, s1) \<Rightarrow>
           if sent < 0 then Inr (io (printErrorDetails 51) s1)
           else
             andthen (log_to_ss E buffer ss_sock s1) (\<lambda>s2.
               case io_val (recv_good E ss_sock BUFFER_SIZE) s2 of
                 ((bytes, b), s3) \<Rightarrow>
                   if bytes \<le> 0
                   then log_from_ss E ''Storage server not responding'' ss_sock
                          (send_rep E client_socket ''Storage server not responding'' 51 s3)
                   else
                     andthen (terminated b) (\<lambda>response.
                     andthen (log_from_ss E response ss_sock s3) (\<lambda>s4.
                     andthen (log_to_client E response client_socket (send_rep E client_socket response 51 s4)) (\<lambda>s5.
                       if starts_with ''Could not'' response then Inr s5
                       else
                         andthen (server s5 ssindex) (\<lambda>ss'.
                         andthen (deref (root ss')) (\<lambda>t.
                         andthen (DisplayTrie t) (\<lambda>text.
                         andthen (forward_backup E False command path (backupServer1 ss') (io (emit (Stdout text)) s5)) (\<lambda>s6.
                         andthen (forward_backup E True command path (backupServer2 ss') s6) (\<lambda>s7.
                         edit_trie (DeletePath path) ssindex s7))))))))))"

definition handle_remove :: "env \<Rightarrow> string \<Rightarrow> string \<Rightarrow> string \<Rightarrow> int \<Rightarrow> ns \<Rightarrow> (bool \<times> ns) result" where
  "handle_remove E buffer command path client_socket s =
     (if path \<in> set invalid_paths
      then
        (case io_val (send_good E client_socket ''Invalid Path'') s of
           (sent, s1) \<Rightarrow>
             if sent < 0 then Inr (False, io (printErrorDetails 51) s1)
             else andthen (log_to_client E ''Invalid Path'' client_socket s1) (\<lambda>s2. Inr (True, s2)))
      else
        andthen (search_storage_server E path s) (\<lambda>(ssindex, s1).
        andthen (if ssindex \<noteq> -1 then delete_from_cache path s1 else Inr s1) (\<lambda>s2.
        andthen (server_up s2 ssindex) (\<lambda>up.
        andthen
          (if up then remove_on E buffer command path client_socket ssindex s2
           else log_to_client E not_found_msg client_socket (reply_not_found E client_socket s2))
          (\<lambda>s3. Inr (True, s3))))))"

text \<open>Every other command: the address of the storage server, or of a backup when it is down. With no
  server up, \<^verbatim>\<open>redundantSS\<close> gives -1, which is then used as an index.\<close>

definition handle_other :: "env \<Rightarrow> string \<Rightarrow> int \<Rightarrow> ns \<Rightarrow> ns result" where
  "handle_other E path client_socket s =
     andthen (search_storage_server E path s) (\<lambda>(ssindex, s1).
       if ssindex = -1
       then log_to_client E not_found_msg client_socket (reply_not_found E client_socket s1)
       else
         andthen (server s1 ssindex) (\<lambda>ss.
         andthen (if \<not> isUp ss then redundantSS E ssindex s1 else Inr (ssindex, s1)) (\<lambda>(idx, s2).
         andthen (server s2 idx) (\<lambda>ss'.
           if idx \<noteq> ssindex
           then
             andthen (top_name ss') (\<lambda>top.
               Inr (send_quiet E client_socket
                 (snprintf BUFFER_SIZE
                   (''Backup '' @ ip (clientInfo ss') @ '','' @ show_int (portClient ss') @ '','' @ top)) s2))
           else
             (let ss_info = snprintf BUFFER_SIZE (ip (clientInfo ss') @ '','' @ show_int (portClient ss') @ '' '') in
              log_to_client E ss_info client_socket (send_rep E client_socket ss_info 51 s2))))))"

text \<open>The chain of tests on one command. A \<^verbatim>\<open>write\<close> command is answered and then goes on to
  the last branch, which looks its flag up as a path and answers again.\<close>

definition dispatch :: "env \<Rightarrow> nat \<Rightarrow> string \<Rightarrow> int \<Rightarrow> ns \<Rightarrow> (bool \<times> ns) result" where
  "dispatch E n buffer client_socket s =
     (let go = (\<lambda>s'. Inr (True, s')) in
      if buffer = ''ls ~'' \<or> buffer = ''ls .'' then andthen (handle_ls E client_socket s) go
      else if starts_with ''copy'' buffer
      then andthen (handle_copy_request E n buffer client_socket (-1) (-1) s) go
      else
        (case strtok '' '' buffer of
           None \<Rightarrow> go (reply_not_found E client_socket s)
         | Some (command, r1) \<Rightarrow>
             (case strtok '' '' r1 of
                None \<Rightarrow> go (reply_not_found E client_socket s)
              | Some (path, r2) \<Rightarrow>
                  if path = ''/'' \<or> path = ''./'' then go (reply_not_found E client_socket s)
                  else
                    andthen
                      (if starts_with ''write'' buffer
                       then handle_write E path (map_option fst (strtok '' '' r2)) client_socket s
                       else Inr s)
                      (\<lambda>s1.
                        if command = ''mkdir'' \<or> command = ''touch''
                        then handle_create E buffer command path client_socket s1
                        else if command = ''rmdir'' \<or> command = ''rm''
                        then handle_remove E buffer command path client_socket s1
                        else andthen (handle_other E path client_socket s1) go))))"

text \<open>One iteration of the client's thread: does the loop go on?\<close>

definition serve_command :: "env \<Rightarrow> nat \<Rightarrow> int \<Rightarrow> ns \<Rightarrow> (bool \<times> ns) result" where
  "serve_command E n client_socket s =
     (case io_val (recv_good E client_socket BUFFER_SIZE) s of
        ((bytes, b), s1) \<Rightarrow>
          if bytes \<le> 0 then Inr (False, io (\<lambda>w. close client_socket (printErrorDetails 53 w)) s1)
          else
            andthen (buf_str BUFFER_SIZE b) (\<lambda>buffer.
            andthen (ns_log E (''Recieved: '' @ [CHR 0x27] @ buffer @ [CHR 0x27] @ '' -from- Client fd['' @
              show_int client_socket @ '']'') s1) (\<lambda>s2.
            dispatch E n buffer client_socket s2)))"

text \<open>The loop; the fuel bounds the number of commands.\<close>

fun process_client :: "env \<Rightarrow> nat \<Rightarrow> nat \<Rightarrow> int \<Rightarrow> ns \<Rightarrow> ns result" where
  "process_client E n 0 client_socket s = Inl NoFuel"
| "process_client E n (Suc k) client_socket s =
     andthen (serve_command E n client_socket s) (\<lambda>(go, s1).
       if go then process_client E n k client_socket s1 else Inr s1)"

section \<open>Notifications of finished writes\<close>

definition lcopy_to :: "env \<Rightarrow> string \<Rightarrow> int \<Rightarrow> int \<Rightarrow> ns \<Rightarrow> ns result" where
  "lcopy_to E path ssindex bs s =
     andthen (backup_up E bs s) (\<lambda>(up, s1).
       if \<not> up then Inr s1
       else
         andthen (server s1 bs) (\<lambda>b. andthen (top_name b) (\<lambda>top. andthen (server s1 ssindex) (\<lambda>a.
           handle_copy_request E 0 (snprintf BUFFER_SIZE (''lcopy '' @ path @ '' ./backupfolderforss/'' @ top))
             (-1) (ss_socket a) bs s1))))"

definition copy_to_backups :: "env \<Rightarrow> string option \<Rightarrow> ns \<Rightarrow> ns result" where
  "copy_to_backups E path s =
     (case path of
        None \<Rightarrow> andthen (sem_wait s) (\<lambda>s1. Inl NullDeref)
      | Some p \<Rightarrow>
          andthen (search_storage_server E p s) (\<lambda>(ssindex, s1).
          andthen (server s1 ssindex) (\<lambda>ss.
          andthen (lcopy_to E p ssindex (backupServer1 ss) s1) (\<lambda>s2.
          lcopy_to E p ssindex (backupServer2 ss) s2))))"

definition create_client_socket :: "env \<Rightarrow> string \<Rightarrow> int \<Rightarrow> ns \<Rightarrow> int \<times> ns" where
  "create_client_socket E ip_address prt s =
     (let sock = sys_socket E (clock (net s)); s1 = io tick s in
      if sock < 0 then (-1, s1)
      else if \<not> sys_inet_pton E ip_address then (-1, io (close sock) s1)
      else if \<not> sys_connect E (clock (net s1)) sock ip_address prt then (-1, io (close sock) (io tick s1))
      else (sock, io tick s1))"

definition send_write_ack :: "env \<Rightarrow> string \<Rightarrow> string \<Rightarrow> string \<Rightarrow> ns \<Rightarrow> ns" where
  "send_write_ack E src_path client_ip client_port s =
     (case create_client_socket E client_ip (atoi client_port) s of
        (client_sock, s1) \<Rightarrow>
          if client_sock \<noteq> -1
          then io (\<lambda>w. close client_sock
                 (snd (send E client_sock (snprintf BUFFER_SIZE (''ACK: Backup completed for '' @ src_path)) w))) s1
          else s1)"

definition write_sync_done :: "env \<Rightarrow> string list \<Rightarrow> ns \<Rightarrow> ns result" where
  "write_sync_done E tokens s =
     (case tokens of
        token # path # _ \<Rightarrow> copy_to_backups E (Some path) s
      | _ \<Rightarrow> copy_to_backups E None s)"

definition write_async_done :: "env \<Rightarrow> string list \<Rightarrow> ns \<Rightarrow> ns result" where
  "write_async_done E tokens s =
     (case tokens of
        token # src_path # client_ip # client_port # _ \<Rightarrow>
          andthen (copy_to_backups E (Some src_path) s)
            (\<lambda>s1. Inr (send_write_ack E src_path client_ip client_port s1))
      | token # src_path # _ \<Rightarrow> andthen (copy_to_backups E (Some src_path) s) (\<lambda>s1. Inl NullDeref)
      | _ \<Rightarrow> copy_to_backups E None s)"

definition listen_async :: "env \<Rightarrow> int \<Rightarrow> ns \<Rightarrow> ns result" where
  "listen_async E client s =
     (case io_val (recv_good E client BUFFER_SIZE) s of
        ((bytes, b), s1) \<Rightarrow>
          if bytes \<le> 0 then Inr (io (close client) s1)
          else
            andthen (buf_str BUFFER_SIZE b) (\<lambda>buffer.
              if starts_with ''WRITE_SYNC'' buffer then write_sync_done E (strtok_all ''|'' buffer) s1
              else if starts_with ''writeasync'' buffer then write_async_done E (strtok_all '' '' buffer) s1
              else Inr s1))"

end
