(* ===== verification/Ns_Safety.thy ===== *)
theory Ns_Safety
  imports Ns_Client
begin

text \<open>
  Every operation of the naming server keeps the state invariant \<open>ns_wf\<close>, whatever the clients, the
  storage servers and the network do. The collection \<open>wf_intros\<close> holds one rule per operation.
\<close>

named_theorems wf_intros \<open>rules that carry the invariant through an operation\<close>

section \<open>Reads and output\<close>

lemma ensures_any: "(\<And>x. Q x) \<Longrightarrow> ensures m Q"
  by (simp add: ensures_def split: sum.splits)

lemmas ensures_read [wf_intros] =
  ensures_any [of _ "server s i" for s i] ensures_any [of _ "top_name b" for b]
  ensures_any [of _ "top_node r" for r] ensures_any [of _ "deref (root ss)" for ss]
  ensures_any [of _ "terminated b" for b] ensures_any [of _ "buf_str n b" for n b]
  ensures_any [of _ "DisplayTrie t" for t] ensures_any [of _ "skip_two d a" for d a]
  ensures_any [of _ "copy_command b i j d" for b i j d] ensures_any [of _ "write_reply f ss" for f ss]
  ensures_any [of _ "server_up s i" for s i]

lemma ns_wf_net [simp]: "ns_wf (s\<lparr>net := w\<rparr>) = ns_wf s" "valid_index (s\<lparr>net := w\<rparr>) = valid_index s"
  "wf_entries (s\<lparr>net := w\<rparr>) = wf_entries s" "wf_table (s\<lparr>net := w\<rparr>) = wf_table s"
  by (auto simp: ns_wf_def wf_table_def wf_server_def wf_entries_def replicated_def valid_index_def fun_eq_iff)

lemma ns_wf_io [simp]: "ns_wf (io f s) = ns_wf s" "valid_index (io f s) = valid_index s"
  by (simp_all add: io_def)

lemma ns_wf_send [simp]:
  "ns_wf (send_quiet E fd m s) = ns_wf s" "ns_wf (send_rep E fd m c s) = ns_wf s"
  "ns_wf (reply_not_found E fd s) = ns_wf s"
  "valid_index (send_quiet E fd m s) = valid_index s" "valid_index (send_rep E fd m c s) = valid_index s"
  "valid_index (reply_not_found E fd s) = valid_index s"
  by (simp_all add: send_quiet_def send_rep_def reply_not_found_def)

lemma ensures_io_result [wf_intros]:
  "(\<And>w. Q (s\<lparr>net := w\<rparr>)) \<Longrightarrow> ensures (io_result f s) Q"
  by (simp add: io_result_def ensures_any)

lemma ensures_logs [wf_intros]:
  "(\<And>w. Q (s\<lparr>net := w\<rparr>)) \<Longrightarrow> ensures (ns_log E m s) Q"
  "(\<And>w. Q (s\<lparr>net := w\<rparr>)) \<Longrightarrow> ensures (log_to_client E m fd s) Q"
  "(\<And>w. Q (s\<lparr>net := w\<rparr>)) \<Longrightarrow> ensures (log_to_ss E m fd s) Q"
  "(\<And>w. Q (s\<lparr>net := w\<rparr>)) \<Longrightarrow> ensures (log_from_ss E m fd s) Q"
  by (simp_all add: ns_log_def log_to_client_def log_to_ss_def log_from_ss_def ensures_io_result)

text \<open>Case distinction on the result of a system call.\<close>

lemma io_val_cases [wf_intros]:
  "(\<And>v w. ensures (f v (s\<lparr>net := w\<rparr>)) Q) \<Longrightarrow> ensures (case io_val g s of (v, s1) \<Rightarrow> f v s1) Q"
  by (simp add: io_val_def split: prod.splits)

section \<open>Lookups and pings\<close>

lemma ensures_isSSUp [wf_intros]:
  "ns_wf s \<Longrightarrow> (\<And>up s'. ns_wf s' \<Longrightarrow> valid_index s' = valid_index s \<Longrightarrow> Q (up, s')) \<Longrightarrow> ensures (isSSUp E i s) Q"
  by (auto simp: ensures_iff dest!: isSSUp_wf [rotated])

lemma ensures_backup_up [wf_intros]:
  "ns_wf s \<Longrightarrow> (\<And>up s'. ns_wf s' \<Longrightarrow> valid_index s' = valid_index s \<Longrightarrow> Q (up, s')) \<Longrightarrow> ensures (backup_up E i s) Q"
  by (simp add: backup_up_def ensures_isSSUp)

lemma ensures_redundantSS [wf_intros]:
  "ns_wf s \<Longrightarrow> (\<And>k s'. ns_wf s' \<Longrightarrow> Q (k, s')) \<Longrightarrow> ensures (redundantSS E i s) Q"
  by (auto simp: redundantSS_def Let_def intro!: wf_intros)

lemma ensures_search [wf_intros]:
  assumes "ns_wf s"
    and "\<And>k s'. ns_wf s' \<Longrightarrow> k = -1 \<or> valid_index s' k \<and> p \<in> fst ` set (entries (cache s')) \<Longrightarrow>
           valid_index s' = valid_index s \<Longrightarrow> Q (k, s')"
  shows "ensures (search_storage_server E p s) Q"
  unfolding ensures_iff
proof (intro allI impI)
  fix x
  assume r: "search_storage_server E p s = Inr x"
  obtain k s' where x: "x = (k, s')" by (cases x)
  from search_storage_server_post [OF assms(1)] r x
  have post: "after_lookup s p s'" "k = answer (lookup s p)" "ns_wf s'" by auto
  then have v: "valid_index s' = valid_index s" by (simp add: after_lookup_def)
  have "k = -1 \<or> valid_index s' k \<and> p \<in> fst ` set (entries (cache s'))"
    using post lookup_valid [OF assms(1), of p]
    by (cases "lookup s p") (force simp: after_lookup_def answer_def v)+
  with assms(2) [OF post(3) _ v] x show "Q x" by simp
qed

lemma ns_wf_cache:
  assumes "ns_wf s" "wf_cache c" "\<forall>(k, i)\<in>set (entries c). valid_index s i"
  shows "ns_wf (s\<lparr>cache := c\<rparr>)"
  using assms by (auto simp: ns_wf_def wf_table_def wf_server_def wf_entries_def replicated_def valid_index_def)

lemma ns_wf_push: "ns_wf s \<Longrightarrow> valid_index s i \<Longrightarrow> ns_wf (s\<lparr>cache := add_to_cache p i (cache s)\<rparr>)"
  using lru.set_push [of "cache s" p i] lru.wf_push [of "cache s" p i]
  by (intro ns_wf_cache) (auto simp: ns_wf_def wf_entries_def)

lemma ensures_delete_from_cache [wf_intros]:
  assumes "ns_wf s" "p \<in> fst ` set (entries (cache s))"
    and "\<And>s'. ns_wf s' \<Longrightarrow> valid_index s' = valid_index s \<Longrightarrow> Q s'"
  shows "ensures (delete_from_cache p s) Q"
proof -
  have wfc: "wf_cache (cache s)" using assms(1) by (simp add: ns_wf_def wf_entries_def)
  obtain j where j: "delete_from_cache p s = Inr (s\<lparr>cache := remove_at j (cache s)\<rparr>)" "j < length (entries (cache s))"
    using delete_from_cache_hit [OF wfc assms(2)] by metis
  have "ns_wf (s\<lparr>cache := remove_at j (cache s)\<rparr>)"
    using assms(1) lru.set_remove [OF wfc j(2)] lru.wf_remove [OF wfc j(2)]
    by (intro ns_wf_cache) (auto simp: ns_wf_def wf_entries_def)
  then show ?thesis using assms(3) j(1) by (simp add: valid_index_def fun_eq_iff)
qed

section \<open>Changes of the table\<close>

lemma ns_wf_upd:
  assumes "ns_wf s" "valid_index s i" "wf_server s (f (storage_servers s ! nat i))"
    and "\<And>ss. backupServer1 (f ss) = backupServer1 ss \<and> backupServer2 (f ss) = backupServer2 ss"
  shows "ns_wf (upd_server i f s)"
proof -
  have v: "valid_index (upd_server i f s) = valid_index s" by (simp add: valid_index_def fun_eq_iff)
  have i: "nat i < storage_server_index s" using assms(2) by (auto simp: valid_index_def)
  have "wf_server (upd_server i f s) ss = wf_server s ss" for ss by (simp add: wf_server_def v)
  moreover have "replicated (upd_server i f s)"
    using assms(1,4) i by (auto simp: ns_wf_def wf_table_def replicated_def backups_of_def v nth_list_update)
  ultimately show ?thesis
    using assms i by (auto simp: ns_wf_def wf_table_def wf_entries_def nth_list_update v)
qed

lemma ns_wf_root:
  assumes "ns_wf s" "valid_index s i" "wf_trie t"
  shows "ns_wf (upd_server i (\<lambda>ss. ss\<lparr>root := Some t\<rparr>) s)"
proof (rule ns_wf_upd [OF assms(1,2)])
  have "wf_server s (storage_servers s ! nat i)" using assms(1,2) server_wf by (simp add: ns_wf_def)
  then show "wf_server s ((storage_servers s ! nat i)\<lparr>root := Some t\<rparr>)"
    using assms(3) by (simp add: wf_server_def)
qed simp

lemma valid_if_root:
  assumes "ns_wf s" "server s i = Inr ss" "root ss = Some t"
  shows "valid_index s i \<and> wf_trie t"
proof -
  have i: "0 \<le> i" "nat i < MAX_STORAGE_SERVERS" "ss = storage_servers s ! nat i"
    using assms(2) by (auto simp: server_def split: if_splits)
  then have "nat i < storage_server_index s"
    using assms(1,3) by (metis ns_wf_def not_less option.distinct(1) wf_table_def)
  then have v: "valid_index s i" using i by (simp add: valid_index_def nat_less_iff)
  with server_wf [of s i] assms(1,3) i show ?thesis by (auto simp: ns_wf_def wf_server_def)
qed

lemma ensures_edit_trie [wf_intros]:
  assumes "ns_wf s" "\<And>t. wf_trie t \<Longrightarrow> ensures (f t) wf_trie" "\<And>s'. ns_wf s' \<Longrightarrow> Q s'"
  shows "ensures (edit_trie f i s) Q"
proof -
  have "Q (upd_server i (\<lambda>ss. ss\<lparr>root := Some t'\<rparr>) s)"
    if "server s i = Inr ss" "root ss = Some t" "f t = Inr t'" for ss t t'
  proof -
    have "valid_index s i" "wf_trie t" using valid_if_root [OF assms(1) that(1,2)] by auto
    with assms(2) [of t] that(3) show ?thesis by (intro assms(3) ns_wf_root [OF assms(1)]) (auto simp: ensures_iff)
  qed
  then show ?thesis
    by (auto simp: edit_trie_def ensures_iff deref_def split: option.splits)
qed

lemma ensures_trie_ops [wf_intros]:
  "wf_trie t \<Longrightarrow> ensures (AddPathToTrie p t) wf_trie"
  "wf_trie t \<Longrightarrow> ensures (DeletePath p t) wf_trie"
  by (auto simp: AddPathToTrie_def DeletePath_def ensures_iff intro: wf_add_path wf_del_path split: if_splits list.splits)

lemma drain_lines_wf: "wf_trie r \<Longrightarrow> drain_lines cur r = Inr (fin, rest, r') \<Longrightarrow> wf_trie r'"
proof (induction "length cur" arbitrary: cur r rule: less_induct)
  case less
  show ?case
  proof (cases "NL \<in> set cur")
    case False
    with less.prems show ?thesis by (simp add: drain_lines_partial)
  next
    case True
    then obtain line tl where cur: "cur = line @ NL # tl" "NL \<notin> set line" using split_line by blast
    show ?thesis
    proof (cases "contains finished_marker line")
      case True
      with less.prems cur show ?thesis by (simp add: drain_lines_line)
    next
      case False
      with less.prems cur obtain r1 where r1: "add_line line r = Inr r1" "drain_lines tl r1 = Inr (fin, rest, r')"
        by (auto simp: drain_lines_line)
      then have "wf_trie r1"
        using less.prems(1) ensures_trie_ops(1) [of r line] by (auto simp: add_line_def ensures_iff split: if_splits)
      with r1 less.hyps [of tl] cur show ?thesis by simp
    qed
  qed
qed

lemma index_loop_wf: "wf_trie r \<Longrightarrow> index_loop E n fd tb r w = Inr (r', w') \<Longrightarrow> wf_trie r'"
  by (induction E n fd tb r w rule: index_loop.induct)
    (auto split: prod.splits if_splits dest: drain_lines_wf)

lemma indexHelper_eq:
  "ns_wf s \<Longrightarrow> indexHelper E n fd r s = andthen (index_loop E n fd [] r (net s)) (\<lambda>(t, w). Inr (t, s\<lparr>net := w\<rparr>))"
proof -
  assume "ns_wf s"
  then have sem: "storage_semaphore s = Suc 0" by (simp add: ns_wf_def)
  then show ?thesis by (cases s) (simp add: indexHelper_def sem_wait_def sem_post_def)
qed

lemma ensures_indexHelper [wf_intros]:
  assumes "ns_wf s" "wf_trie r" and "\<And>t w. wf_trie t \<Longrightarrow> Q (t, s\<lparr>net := w\<rparr>)"
  shows "ensures (indexHelper E n fd r s) Q"
  using assms(3) index_loop_wf [OF assms(2)] by (auto simp: indexHelper_eq [OF assms(1)] ensures_iff)

section \<open>Copying\<close>

lemma ensures_copy_backup [wf_intros]:
  "(\<And>w. Q (s\<lparr>net := w\<rparr>)) \<Longrightarrow> ensures (copy_backup E b src di s) Q"
  by (auto simp: copy_backup_def io_net intro!: wf_intros split: prod.splits dest!: io_val_wp)

lemma ensures_copy_to_backup [wf_intros]:
  "ns_wf s \<Longrightarrow> (\<And>s'. ns_wf s' \<Longrightarrow> Q s') \<Longrightarrow> ensures (copy_to_backup E fd src dest after bs s) Q"
  by (auto simp: copy_to_backup_def intro!: wf_intros)

lemma ensures_reindex_dest [wf_intros]:
  "ns_wf s \<Longrightarrow> valid_index s i \<Longrightarrow> (\<And>s'. ns_wf s' \<Longrightarrow> Q s') \<Longrightarrow> ensures (reindex_dest E n fd i s) Q"
  by (auto simp: reindex_dest_def intro!: wf_intros) (simp add: ns_wf_root)

lemma ensures_copy_between [wf_intros]:
  "ns_wf s \<Longrightarrow> valid_index s j \<Longrightarrow> ensures (copy_between E n b fd src dest after i j s) ns_wf"
  by (auto simp: copy_between_def Let_def intro!: wf_intros split: prod.splits dest!: io_val_wp)

lemma ensures_copy_for_client [wf_intros]:
  "ns_wf s \<Longrightarrow> ensures (copy_for_client E n b fd src dest after s) ns_wf"
  by (auto simp: copy_for_client_def Let_def intro!: wf_intros)

lemma ensures_handle_copy_request [wf_intros]:
  "ns_wf s \<Longrightarrow> ensures (handle_copy_request E n b fd src di s) ns_wf"
  by (auto simp: handle_copy_request_def Let_def intro!: wf_intros split: option.splits)

lemma ensures_create_backup_helper:
  "(\<And>w. Q (s\<lparr>net := w\<rparr>)) \<Longrightarrow> ensures (create_backup_helper E i j s) Q"
  by (auto simp: create_backup_helper_def handle_copy_request_def Let_def send_rep_def io_def intro!: wf_intros)

section \<open>Commands\<close>

lemma ensures_list_roots: "ns_wf s \<Longrightarrow> ensures (list_roots E fd is s) ns_wf"
  by (induction "is" arbitrary: s) (auto intro!: wf_intros)

lemma ensures_handle_ls: "ns_wf s \<Longrightarrow> ensures (handle_ls E fd s) ns_wf"
  using ensures_list_roots [of s E fd] by (simp add: handle_ls_def)

lemma ensures_handle_write: "ns_wf s \<Longrightarrow> ensures (handle_write E flag p fd s) ns_wf"
  by (auto simp: handle_write_def sem_wait_def intro!: wf_intros split: option.splits)

lemma ensures_forward_backup [wf_intros]:
  "ns_wf s \<Longrightarrow> (\<And>s'. ns_wf s' \<Longrightarrow> Q s') \<Longrightarrow> ensures (forward_backup E l c p bs s) Q"
  by (auto simp: forward_backup_def Let_def intro!: wf_intros)

lemma ensures_create_on [wf_intros]: "ns_wf s \<Longrightarrow> ensures (create_on E b c p fd i s) ns_wf"
  by (auto simp: create_on_def Let_def intro!: wf_intros split: prod.splits dest!: io_val_wp)

lemma ensures_remove_on [wf_intros]: "ns_wf s \<Longrightarrow> ensures (remove_on E b c p fd i s) ns_wf"
  by (auto simp: remove_on_def Let_def intro!: wf_intros split: prod.splits dest!: io_val_wp)

lemma ensures_handle_create: "ns_wf s \<Longrightarrow> ensures (handle_create E b c p fd s) (\<lambda>(go, s'). ns_wf s')"
  by (auto simp: handle_create_def Let_def intro!: wf_intros ns_wf_push)

lemma ensures_handle_remove: "ns_wf s \<Longrightarrow> ensures (handle_remove E b c p fd s) (\<lambda>(go, s'). ns_wf s')"
  by (auto simp: handle_remove_def Let_def intro!: wf_intros) force

lemma ensures_handle_other: "ns_wf s \<Longrightarrow> ensures (handle_other E p fd s) ns_wf"
  by (auto simp: handle_other_def Let_def intro!: wf_intros)

lemma ensures_go: "ensures m ns_wf \<Longrightarrow> ensures (andthen m (\<lambda>s'. Inr (True, s'))) (\<lambda>(go, s'). ns_wf s')"
  by simp

lemma ensures_then: "ensures m ns_wf \<Longrightarrow> (\<And>s'. ns_wf s' \<Longrightarrow> ensures (f s') Q) \<Longrightarrow> ensures (andthen m f) Q"
  by (auto intro: ensures_mono)

lemma ensures_if: "ensures a Q \<Longrightarrow> ensures b Q \<Longrightarrow> ensures (if c then a else b) Q"
  by simp

lemma ensures_prod: "(\<And>a b. ensures (f a b) Q) \<Longrightarrow> ensures (case v of (a, b) \<Rightarrow> f a b) Q"
  by (simp split: prod.splits)

lemma ensures_token:
  "ensures a Q \<Longrightarrow> (\<And>t r. ensures (f t r) Q) \<Longrightarrow> ensures (case m of None \<Rightarrow> a | Some (t, r) \<Rightarrow> f t r) Q"
  by (auto split: option.splits)

lemma ensures_dispatch: "ns_wf s \<Longrightarrow> ensures (dispatch E n b fd s) (\<lambda>(go, s'). ns_wf s')"
  unfolding dispatch_def Let_def
  by (intro ensures_if ensures_token ensures_go ensures_then [of _ "\<lambda>s. if _ then _ s else _ s"] ensures_handle_ls
      ensures_handle_copy_request ensures_handle_write ensures_handle_create ensures_handle_remove ensures_handle_other)
    simp_all

lemma ensures_serve_command: "ns_wf s \<Longrightarrow> ensures (serve_command E n fd s) (\<lambda>(go, s'). ns_wf s')"
proof -
  assume wf: "ns_wf s"
  have "ensures (andthen (buf_str BUFFER_SIZE b) (\<lambda>buffer. andthen (ns_log E (f buffer) s1) (\<lambda>s2. dispatch E n buffer fd s2)))
      (\<lambda>(go, s'). ns_wf s')" if "ns_wf s1" for b f s1
    using that by (subst ensures_simps, intro wf_intros, subst ensures_simps, intro wf_intros ensures_dispatch) simp
  with wf show ?thesis
    by (auto simp: serve_command_def simp del: ensures_simps(3) split: prod.splits dest!: io_val_wp)
qed

lemma ensures_process_client: "ns_wf s \<Longrightarrow> ensures (process_client E n k fd s) ns_wf"
proof (induction k arbitrary: s)
  case 0
  then show ?case by simp
next
  case (Suc k)
  show ?case
    unfolding process_client.simps ensures_simps
    by (rule ensures_mono [OF ensures_serve_command [OF Suc.prems]]) (auto intro: Suc.IH)
qed

section \<open>Notifications\<close>

lemma ensures_lcopy_to [wf_intros]:
  "ns_wf s \<Longrightarrow> (\<And>s'. ns_wf s' \<Longrightarrow> Q s') \<Longrightarrow> ensures (lcopy_to E p i bs s) Q"
  using ensures_mono [OF ensures_handle_copy_request] by (auto simp: lcopy_to_def intro!: wf_intros)

lemma ensures_copy_to_backups: "ns_wf s \<Longrightarrow> ensures (copy_to_backups E p s) ns_wf"
  by (auto simp: copy_to_backups_def sem_wait_def intro!: wf_intros split: option.splits)

lemma ns_wf_send_write_ack: "ns_wf s \<Longrightarrow> ns_wf (send_write_ack E p a b s)"
  by (auto simp: send_write_ack_def create_client_socket_def Let_def split: prod.splits if_splits)

lemma ensures_listen_async: "ns_wf s \<Longrightarrow> ensures (listen_async E fd s) ns_wf"
proof -
  assume wf: "ns_wf s"
  have sync: "ensures (write_sync_done E ts s1) ns_wf" if "ns_wf s1" for ts s1
    using ensures_copy_to_backups [OF that] by (simp add: write_sync_done_def split: list.splits)
  have async: "ensures (write_async_done E ts s1) ns_wf" if "ns_wf s1" for ts s1
    using ensures_mono [OF ensures_copy_to_backups [OF that]] ensures_copy_to_backups [OF that]
    by (auto simp: write_async_done_def ns_wf_send_write_ack split: list.splits)
  have "ensures (andthen (buf_str BUFFER_SIZE b) (\<lambda>buffer.
      if starts_with ''WRITE_SYNC'' buffer then write_sync_done E (strtok_all ''|'' buffer) s1
      else if starts_with ''writeasync'' buffer then write_async_done E (strtok_all '' '' buffer) s1
      else Inr s1)) ns_wf" if "ns_wf s1" for b s1
    using that by (subst ensures_simps, intro wf_intros ensures_if sync async) simp_all
  with wf show ?thesis
    by (auto simp: listen_async_def simp del: ensures_simps(3) split: prod.splits dest!: io_val_wp)
qed

section \<open>Registration\<close>

declare create_backups.simps [simp del]

lemma create_backups_net: "create_backups E ps s = Inr s' \<Longrightarrow> \<exists>w. s' = s\<lparr>net := w\<rparr>"
proof (induction E ps s rule: create_backups.induct)
  case (1 E s)
  then show ?case by (metis create_backups.simps(1) ns.surjective ns.update_convs(1) old.sum.inject(2))
next
  case (2 E a b ps s)
  then obtain s1 where s1: "create_backup_helper E a b s = Inr s1" "create_backups E ps s1 = Inr s'"
    by (auto simp: create_backups.simps)
  have "ensures (create_backup_helper E a b s) (\<lambda>s1. \<exists>w. s1 = s\<lparr>net := w\<rparr>)"
    by (rule ensures_create_backup_helper) blast
  then obtain w where "s1 = s\<lparr>net := w\<rparr>" using s1(1) by (auto simp: ensures_iff)
  with "2.IH" [OF s1(2)] show ?case by auto
qed

definition enlisted :: "storage_server_info list \<Rightarrow> nat \<Rightarrow> storage_server_info \<Rightarrow> storage_server_info list" where
  "enlisted sss i ss =
     (let sss1 = sss[i := ss] in
      if i = 2 then sss1[0 := set_backups 1 2 (sss1 ! 0), 1 := set_backups 0 2 (sss1 ! 1), 2 := set_backups 0 1 ss]
      else if i > 2 then sss[i := set_backups (int i - 1) (int i - 2) ss]
      else sss1)"

lemma insert_server_post:
  assumes wf: "ns_wf s" and i: "storage_server_index s < MAX_STORAGE_SERVERS" and r: "insert_server E ss s = Inr s'"
  shows "storage_server_index s' = Suc (storage_server_index s) \<and> storage_semaphore s' = 1 \<and> cache s' = cache s \<and>
    storage_servers s' = enlisted (storage_servers s) (storage_server_index s) ss"
proof -
  let ?i = "storage_server_index s"
  have sem: "storage_semaphore s = Suc 0" and len: "length (storage_servers s) = MAX_STORAGE_SERVERS"
    using wf by (auto simp: ns_wf_def wf_table_def)
  then have l: "?i < length (storage_servers s)" using i by simp
  show ?thesis
  proof (cases "?i = 2")
    case True
    with r i sem l show ?thesis
      by (auto simp: insert_server_def sem_wait_def Let_def enlisted_def dest!: create_backups_net)
  next
    case False
    with r i sem l show ?thesis
      by (auto simp: insert_server_def sem_wait_def Let_def enlisted_def split: if_splits dest!: create_backups_net)
  qed
qed

lemma enlisted_fields:
  assumes "i < length sss"
  shows "length (enlisted sss i ss) = length sss"
    and "j < length sss \<Longrightarrow> root (enlisted sss i ss ! j) = (if j = i then root ss else root (sss ! j))"
    and "j < i \<Longrightarrow> i \<noteq> 2 \<Longrightarrow> enlisted sss i ss ! j = sss ! j"
    and "i > 2 \<Longrightarrow> enlisted sss i ss ! i = set_backups (int i - 1) (int i - 2) ss"
    and "i < 2 \<Longrightarrow> enlisted sss i ss ! i = ss"
proof -
  have "sss \<noteq> []" using assms by auto
  then show "length (enlisted sss i ss) = length sss"
    "j < length sss \<Longrightarrow> root (enlisted sss i ss ! j) = (if j = i then root ss else root (sss ! j))"
    "j < i \<Longrightarrow> i \<noteq> 2 \<Longrightarrow> enlisted sss i ss ! j = sss ! j"
    "i > 2 \<Longrightarrow> enlisted sss i ss ! i = set_backups (int i - 1) (int i - 2) ss"
    "i < 2 \<Longrightarrow> enlisted sss i ss ! i = ss"
    using assms by (auto simp: enlisted_def Let_def nth_list_update set_backups_def)
qed

lemma enlisted_three:
  assumes "2 < length sss" "j < 3"
  shows "enlisted sss 2 ss ! j = set_backups (if j = 0 then 1 else 0) (if j = 2 then 1 else 2) (if j = 2 then ss else sss ! j)"
proof -
  from assms(2) consider "j = 0" | "j = 1" | "j = 2" by linarith
  moreover have "sss \<noteq> []" using assms(1) by auto
  ultimately show ?thesis using assms(1) by cases (auto simp: enlisted_def Let_def nth_list_update)
qed

lemma wf_server_grow:
  "wf_server s ss \<Longrightarrow> storage_server_index s \<le> storage_server_index s' \<Longrightarrow> wf_server s' ss"
  by (auto simp: wf_server_def valid_index_def)

lemma insert_server_wf:
  assumes wf: "ns_wf s" and i: "storage_server_index s < MAX_STORAGE_SERVERS"
    and r: "insert_server E ss s = Inr s'" and t: "root ss = Some t" "wf_trie t"
    and b: "backupServer1 ss = -1" "backupServer2 ss = -1"
  shows "ns_wf s'"
proof -
  have rep: "replicated s" using wf by (simp add: ns_wf_def)
  let ?i = "storage_server_index s" and ?T = "storage_servers s"
  have len: "length ?T = MAX_STORAGE_SERVERS" using wf by (auto simp: ns_wf_def wf_table_def)
  note post = insert_server_post [OF wf i r]
  note en = enlisted_fields [of ?i ?T, unfolded len, OF i]
  have v: "valid_index s' j \<longleftrightarrow> 0 \<le> j \<and> j \<le> int ?i" for j using post by (auto simp: valid_index_def)
  have old: "wf_server s (?T ! j)" if "j < ?i" for j using wf that by (simp add: ns_wf_def wf_table_def)
  have root: "\<exists>t. root (storage_servers s' ! j) = Some t \<and> wf_trie t" if "j \<le> ?i" for j
    using that post en(2) [of j ss] t old [of j] i by (auto simp: wf_server_def)
  have bk: "backups_ok (Suc ?i) j (backups_of (storage_servers s') j)" if j: "j \<le> ?i" for j
  proof (cases "?i = 2")
    case True
    with post enlisted_three [of ?T j ss] j i len show ?thesis by (auto simp: set_backups_def backups_ok_def backups_of_def)
  next
    case False
    show ?thesis
    proof (cases "j = ?i")
      case True
      with post False en(4,5) [of ss] b show ?thesis
        by (cases "?i < 2") (auto simp: set_backups_def backups_ok_def backups_of_def)
    next
      case ne: False
      then have "j < ?i" using j by simp
      with rep have "backups_ok ?i j (backups_of ?T j)" by (simp add: replicated_def)
      with post False en(3) [of j ss] \<open>j < ?i\<close> show ?thesis by (auto simp: backups_ok_def backups_of_def split: if_splits)
    qed
  qed
  have "wf_server s' (storage_servers s' ! j)" if "j \<le> ?i" for j
    using root [OF that] bk [OF that] by (auto simp: wf_server_def v backups_ok_def backups_of_def split: if_splits)
  moreover have "root (storage_servers s' ! j) = None" if "?i < j" "j < MAX_STORAGE_SERVERS" for j
    using wf that post en(2) [of j ss] by (auto simp: ns_wf_def wf_table_def)
  moreover have "wf_entries s'"
    using wf post by (auto simp: ns_wf_def wf_entries_def valid_index_def)
  ultimately show ?thesis
    using post en(1) i len bk by (auto simp: ns_wf_def wf_table_def replicated_def less_Suc_eq_le)
qed

lemma redundancy_slot_SomeD:
  "redundancy_slot r sss = Inr (Some j) \<Longrightarrow> j < length sss \<and> root (sss ! j) \<noteq> None"
  by (induction r sss arbitrary: j rule: redundancy_slot.induct) (auto split: option.splits if_splits)

lemma rejoin_wf:
  assumes wf: "ns_wf s" and j: "redundancy_slot r (storage_servers s) = Inr (Some j)"
  shows "ns_wf (upd_server (int j) (\<lambda>ss. ss\<lparr>isUp := True, clientInfo := ci, ss_socket := k, portClient := p\<rparr>) s)"
proof -
  have jl: "j < MAX_STORAGE_SERVERS" "root (storage_servers s ! j) \<noteq> None"
    using redundancy_slot_SomeD [OF j] wf by (auto simp: ns_wf_def wf_table_def)
  then have ji: "j < storage_server_index s" using wf by (metis ns_wf_def not_less wf_table_def)
  then have "wf_server s (storage_servers s ! j)" using wf by (simp add: ns_wf_def wf_table_def)
  then show ?thesis
    using ji by (intro ns_wf_upd [OF wf]) (simp_all add: valid_index_def wf_server_def)
qed

lemma register_wf:
  assumes wf: "ns_wf s" and i: "storage_server_index s < MAX_STORAGE_SERVERS"
  shows "ensures (register_storage_server E n ci s) ns_wf"
proof -
  have enroll: "ensures (insert_server E ss s1) ns_wf"
    if "ns_wf s1" "storage_server_index s1 = storage_server_index s" "root ss = Some t" "wf_trie t"
      "backupServer1 ss = -1" "backupServer2 ss = -1" for ss s1 t
    using insert_server_wf [OF that(1)] that(2-) i unfolding ensures_iff by metis
  have tail: "ensures (andthen (redundancy_slot r (storage_servers s1)) (\<lambda>found.
      case found of
        Some j \<Rightarrow> Inr (upd_server (int j) (\<lambda>ss. ss\<lparr>isUp := True, clientInfo := ci, ss_socket := k, portClient := p\<rparr>) s1)
      | None \<Rightarrow> insert_server E ss s1)) ns_wf"
    if "ns_wf s1" "storage_server_index s1 = storage_server_index s" "root ss = Some r" "wf_trie r"
      "backupServer1 ss = -1" "backupServer2 ss = -1" for s1 r k p ss
    using enroll [OF that] rejoin_wf [OF that(1)] by (auto simp: ensures_iff split: option.splits)
  have indexed: "ensures (andthen (indexHelper E n (socket ci) (CreateNode ''.'') s1) (\<lambda>(r, s3).
      andthen (DisplayTrie r) (\<lambda>text. G r text s3))) Q"
    if "ns_wf s1" "\<And>r w text. wf_trie r \<Longrightarrow> ensures (G r text (s1\<lparr>net := w\<rparr>)) Q" for s1 G and Q :: "ns \<Rightarrow> bool"
    using that by (subst ensures_simps, intro wf_intros) (auto intro!: wf_intros)
  show ?thesis
    unfolding register_storage_server_def Let_def
    by (subst ensures_simps, intro wf_intros ensures_prod ensures_if indexed tail) (simp_all add: wf)
qed

end
