(* ===== verification/Ns_Properties.thy ===== *)
theory Ns_Properties
  imports Ns_Safety
begin

text \<open>
  Properties of the operations of the naming server: the index does not depend on how the stream is cut;
  what a lookup answers; what each command does to the tries and which replies a client gets.
\<close>

section \<open>Examples\<close>

text \<open>An environment in which every system call succeeds and every send is accepted whole; the answers
  to \<^verbatim>\<open>recv\<close> are given.\<close>

definition ok_env :: "(nat \<Rightarrow> int \<Rightarrow> recv_raw) \<Rightarrow> env" where
  "ok_env f =
     \<lparr>sys_recv = f, sys_send = (\<lambda>t fd b. SentBytes (length b)), sys_socket = (\<lambda>t. 7), sys_inet_pton = (\<lambda>a. True),
      sys_connect = (\<lambda>t fd a p. True), sys_log_open = (\<lambda>t. True), sys_setsockopt = (\<lambda>t. True), sys_fs_ok = (\<lambda>t p. True),
      sizeof_ss_info = 64, portClient_of = (\<lambda>b. 8080)\<rparr>"

definition example_server :: "int \<Rightarrow> string \<Rightarrow> storage_server_info" where
  "example_server fd d =
     \<lparr>clientInfo = \<lparr>socket = fd, ip = ''10.0.0.1'', port = 9\<rparr>, portClient = 8, ss_socket = fd,
      root = Some (add_path [''.'', d] (CreateNode ''.'')), backupServer1 = -1, backupServer2 = -1, isUp = True\<rparr>"

definition no_server :: storage_server_info where
  "no_server =
     \<lparr>clientInfo = \<lparr>socket = 0, ip = ''0.0.0.0'', port = 0\<rparr>, portClient = 0, ss_socket = 0, root = None,
      backupServer1 = 0, backupServer2 = 0, isUp = False\<rparr>"

definition example_ns :: "lru_cache \<Rightarrow> ns" where
  "example_ns c =
     \<lparr>net = \<lparr>clock = 0, trace = []\<rparr>, cache = c,
      storage_servers = [example_server 4 ''a'', example_server 5 ''b''] @ replicate 8 no_server,
      storage_server_index = 2, storage_semaphore = 1\<rparr>"

lemma example_ns_wf:
  "wf_cache c \<Longrightarrow> (\<forall>(k, i)\<in>set (entries c). i = 0 \<or> i = 1) \<Longrightarrow> ns_wf (example_ns c)"
  by (auto simp: ns_wf_def wf_table_def wf_server_def wf_entries_def replicated_def backups_ok_def backups_of_def
      example_ns_def example_server_def no_server_def valid_index_def MAX_STORAGE_SERVERS_def less_Suc_eq numeral_2_eq_2
      wf_add_path nth_append)

lemma example_resolve:
  "resolve (example_ns c) ''./a'' = Some 0" "resolve (example_ns c) ''./b'' = Some 1"
  "resolve (example_ns c) ''./c'' = None"
  using ParsePath_examples ParsePath_join_eq [of "[''.'', ''b'']"]
  by (simp_all add: resolve_def example_ns_def example_server_def stores_def search_add_path MAX_PATH_def)

section \<open>Indexing\<close>

lemma finite_dir_prefixes: "finite {y. \<exists>ps\<in>set pss. prefix (d @ [y]) ps}"
proof (rule finite_subset)
  show "{y. \<exists>ps\<in>set pss. prefix (d @ [y]) ps} \<subseteq> set (concat pss)"
    by (auto simp: prefix_def)
qed simp

lemma fold_add_path_stored:
  assumes "\<forall>d. card {y. \<exists>ps\<in>set pss. prefix (d @ [y]) ps} \<le> MAX_FOLDERS"
  shows "SearchPathHelperTries (fold add_path pss (CreateNode d0)) qs \<longleftrightarrow> qs = [] \<or> (\<exists>ps\<in>set pss. prefix qs ps)"
proof -
  let ?F = "{qs. qs = [] \<or> (\<exists>ps\<in>set pss. prefix qs ps)}"
  have "{y. d @ [y] \<in> ?F} = {y. \<exists>ps\<in>set pss. prefix (d @ [y]) ps}" for d by simp
  then show ?thesis
    using trie.stored_fold_ins [of "CreateNode d0" ?F pss qs] assms finite_dir_prefixes [of pss] by auto
qed

lemma index_chunked:
  assumes "ns_wf s" "list_all2 plain_path paths pss" "concat cs = listing paths"
    "delivers E fd (clock (net s)) cs" "\<forall>c\<in>set cs. c \<noteq> [] \<and> CHR 0x00 \<notin> set c"
    "\<forall>c\<in>set cs. \<forall>l. sublist l (listing paths) \<longrightarrow> NL \<notin> set l \<longrightarrow> length l + length c < MAX_PATH_SIZE"
    "length cs \<le> n" "\<forall>d. card {y. \<exists>ps\<in>set pss. prefix (d @ [y]) ps} \<le> MAX_FOLDERS"
  shows "\<exists>t w. indexHelper E n fd (CreateNode ''.'') s = Inr (t, s\<lparr>net := w\<rparr>) \<and> wf_trie t \<and>
    (\<forall>qs. SearchPathHelperTries t qs \<longleftrightarrow> qs = [] \<or> (\<exists>ps\<in>set pss. prefix qs ps))"
proof -
  let ?t = "fold add_path pss (CreateNode ''.'')"
  have "drain_lines ([] @ concat cs) (CreateNode ''.'') = Inr (True, finished_marker, ?t)"
    using drain_listing [OF assms(2)] assms(3) by simp
  from index_loop_chunks [OF assms(4,5) _ _ this assms(7)] assms(3,6)
  have "returns (index_loop E n fd [] (CreateNode ''.'') (net s)) (\<lambda>(t, w). t = ?t)" by simp
  then obtain w where "index_loop E n fd [] (CreateNode ''.'') (net s) = Inr (?t, w)"
    by (auto simp: returns_iff)
  then show ?thesis
    using fold_add_path_stored [OF assms(8)] trie.wf_fold_ins [OF wf_CreateNode]
    by (auto simp: indexHelper_eq [OF assms(1)])
qed

text \<open>C19. Indexing reads a listing of paths, one per line, and builds the trie that stores exactly these
  paths and their ancestors, however the stream is cut into chunks: it returns after at most as many
  \<^verbatim>\<open>recv\<close> calls as there are chunks, leaves the rest of the state alone, and neither blocks nor
  faults. The buffer must have room for a partial line and a chunk, and no directory may have more than
  \<^verbatim>\<open>MAX_FOLDERS\<close> entries.\<close>

theorem index_any_chunking:
  assumes "ns_wf s" "list_all2 plain_path paths pss" "concat cs = listing paths"
    "delivers E fd (clock (net s)) cs" "\<forall>c\<in>set cs. c \<noteq> [] \<and> CHR 0x00 \<notin> set c"
    "\<forall>c\<in>set cs. \<forall>l. sublist l (listing paths) \<longrightarrow> NL \<notin> set l \<longrightarrow> length l + length c < MAX_PATH_SIZE"
    "length cs \<le> n" "\<forall>d. card {y. \<exists>ps\<in>set pss. prefix (d @ [y]) ps} \<le> MAX_FOLDERS"
  shows "\<exists>t w. indexHelper E n fd (CreateNode ''.'') s = Inr (t, s\<lparr>net := w\<rparr>) \<and> wf_trie t \<and>
    (\<forall>qs. SearchPathHelperTries t qs \<longleftrightarrow> qs = [] \<or> (\<exists>ps\<in>set pss. prefix qs ps))"
  using assms by (rule index_chunked)

definition example_chunks :: "string list" where
  "example_chunks = [''./a'' @ [NL] @ ''./'', ''b'' @ [NL] @ finished_marker @ [NL]]"

lemma example_listing:
  "concat example_chunks = listing [''./a'', ''./b'']" "length (listing [''./a'', ''./b'']) = 32"
  "\<forall>c\<in>set example_chunks. c \<noteq> [] \<and> CHR 0x00 \<notin> set c \<and> length c < 100"
  "list_all2 plain_path [''./a'', ''./b''] [[''.'', ''a''], [''.'', ''b'']]"
  by (simp_all add: example_chunks_def listing_def finished_marker_def NL_def plain_path_def) code_simp+

theorem index_any_chunking_witness:
  "\<exists>t w. indexHelper (ok_env (\<lambda>t fd. RecvBytes (example_chunks ! t))) 2 4 (CreateNode ''.'')
        (ns_init \<lparr>clock = 0, trace = []\<rparr>) = Inr (t, (ns_init \<lparr>clock = 0, trace = []\<rparr>)\<lparr>net := w\<rparr>) \<and>
     wf_trie t \<and> SearchPathHelperTries t [''.'', ''a''] \<and> SearchPathHelperTries t [''.'', ''b''] \<and>
     \<not> SearchPathHelperTries t [''.'', ''c'']"
proof -
  let ?E = "ok_env (\<lambda>t fd. RecvBytes (example_chunks ! t))" and ?s = "ns_init \<lparr>clock = 0, trace = []\<rparr>"
  have "\<exists>t w. indexHelper ?E 2 4 (CreateNode ''.'') ?s = Inr (t, ?s\<lparr>net := w\<rparr>) \<and> wf_trie t \<and>
    (\<forall>qs. SearchPathHelperTries t qs \<longleftrightarrow> qs = [] \<or> (\<exists>ps\<in>set [[''.'', ''a''], [''.'', ''b'']]. prefix qs ps))"
  proof (rule index_any_chunking [OF ns_wf_init example_listing(4,1)])
    show "delivers ?E 4 (clock (net ?s)) example_chunks" by (simp add: delivers_def ok_env_def ns_init_def)
    show "\<forall>c\<in>set example_chunks. \<forall>l. sublist l (listing [''./a'', ''./b'']) \<longrightarrow> NL \<notin> set l \<longrightarrow> length l + length c < MAX_PATH_SIZE"
    proof (intro ballI allI impI)
      fix c l
      assume "c \<in> set example_chunks" "sublist l (listing [''./a'', ''./b''])"
      then have "length c < 100" "length l \<le> 32" using example_listing(2,3) sublist_length_le by (blast, fastforce)
      then show "length l + length c < MAX_PATH_SIZE" by (simp add: MAX_PATH_SIZE_def)
    qed
    show "\<forall>d. card {y. \<exists>ps\<in>set [[''.'', ''a''], [''.'', ''b'']]. prefix (d @ [y]) ps} \<le> MAX_FOLDERS"
    proof
      fix d :: "string list"
      have "{y. \<exists>ps\<in>set [[''.'', ''a''], [''.'', ''b'']]. prefix (d @ [y]) ps} \<subseteq> {''.'', ''a'', ''b''}"
        by (cases d; cases "tl d") (auto simp: prefix_Cons)
      then have "card {y. \<exists>ps\<in>set [[''.'', ''a''], [''.'', ''b'']]. prefix (d @ [y]) ps} \<le> card {''.'', ''a'', ''b''}"
        by (rule card_mono [rotated]) simp
      then show "card {y. \<exists>ps\<in>set [[''.'', ''a''], [''.'', ''b'']]. prefix (d @ [y]) ps} \<le> MAX_FOLDERS"
        by (simp add: MAX_FOLDERS_def)
    qed
  qed (use example_listing(3) in \<open>auto simp: example_chunks_def\<close>)
  then show ?thesis by auto
qed

section \<open>Lookup\<close>

text \<open>C8. While the cache is coherent with the tries, a lookup of any path the parser accepts returns (it
  neither blocks nor faults), answers the first registered server whose trie stores the path and -1 when
  there is none, and keeps the invariant and the coherence; of the server table it changes at most
  reachability flags.\<close>

theorem lookup_correct:
  assumes "ns_wf s" "ns_coherent s" "ParsePath path = Inr ps"
  shows "\<exists>s'. search_storage_server E path s = Inr (answer (resolve s path), s') \<and>
    ns_wf s' \<and> ns_coherent s' \<and> same_table s s'"
proof -
  obtain k s' where r: "search_storage_server E path s = Inr (k, s')"
    using search_storage_server_returns [OF assms(1,3)] by blast
  from search_storage_server_post [OF assms(1) r]
  have post: "after_lookup s path s'" "k = answer (resolve s path)" "ns_wf s'"
    using lookup_coherent [OF assms(2), of path] by simp_all
  then show ?thesis
    using r after_lookup_coherent [OF assms(2) post(1)] by (simp add: after_lookup_def)
qed

theorem lookup_correct_witness:
  "\<exists>s'. search_storage_server (ok_env (\<lambda>t fd. RecvBytes ''pong'')) ''./a'' (example_ns initialize_cache) = Inr (0, s')"
proof -
  have "ns_wf (example_ns initialize_cache)" by (rule example_ns_wf) simp_all
  moreover have "ns_coherent (example_ns initialize_cache)"
    by (simp add: ns_coherent_def coherent_def example_ns_def)
  ultimately show ?thesis
    using lookup_correct [OF _ _ ParsePath_examples(2)] by (fastforce simp: example_resolve answer_def)
qed

text \<open>C34. A cache hit that is not the most recent entry pings the wrong server: after the entry was moved
  to the back, its old slot is read again, so the flag of the server that is answered is not refreshed
  whenever the next entry belongs to another server.\<close>

theorem cache_hit_pings_next:
  assumes "ns_wf s" "Suc j < length (entries (cache s))" "entries (cache s) ! j = (path, i)"
    "\<forall>l<j. fst (entries (cache s) ! l) \<noteq> path" "snd (entries (cache s) ! Suc j) \<noteq> i"
  shows "\<exists>s'. search_storage_server E path s = Inr (i, s') \<and> storage_servers s' ! nat i = storage_servers s ! nat i"
  using assms(1)
proof (cases rule: search_storage_server_unfold [where E = E and path = path])
  case (hit j' s2)
  have wfc: "wf_cache (cache s)" using assms(1) by (simp add: ns_wf_def wf_entries_def)
  have j: "j < length (entries (cache s))" using assms(2) by simp
  have "find_slot (\<lambda>p. fst p = path) (entries (cache s)) = Some j"
    using assms(2,3,4) by (simp add: find_slot_Some_iff)
  with hit(1) have [simp]: "j' = j" using lru.find_first [OF wfc, of path] by simp
  have js: "j < cache_size (cache s)" using j wfc by simp
  have i: "index (queue (cache s) ! j) = i"
    using assms(3) entries_nth [OF wfc js] by (simp add: entry_pair_def)
  have wfc2: "wf_cache (cache s2)" using hit(2) lru.wf_touch [OF wfc j] by simp
  have view: "entries (cache s2) = take j (entries (cache s)) @ drop (Suc j) (entries (cache s)) @ [entries (cache s) ! j]"
    using hit(2) lru.view_touch [OF wfc j] by simp
  then have "entries (cache s2) ! j = entries (cache s) ! Suc j"
    using assms(2) by (simp add: nth_append)
  moreover have "cache_size (cache s2) = cache_size (cache s)"
    using arg_cong [OF view, of length] wfc wfc2 j by simp
  ultimately have k: "index (queue (cache s2) ! j) = snd (entries (cache s) ! Suc j)"
    using entries_nth [OF wfc2, of j] js by (metis entry_pair_def snd_conv)
  let ?k = "snd (entries (cache s) ! Suc j)"
  note al = after_lookup_hit [OF assms(1) hit(1,2,3)]
  have s2: "ns_wf s2" using al ns_wf_after_lookup [OF assms(1)] by blast
  have v: "valid_index s2 ?k" "valid_index s2 i"
    using al js k lookup_valid [OF assms(1), of path] hit(3) i by auto
  then obtain up s3 where r: "isSSUp E ?k s2 = Inr (up, s3)" using valid_isSSUp [OF s2] by blast
  have "nat ?k \<noteq> nat i" using v assms(5) by (auto simp: valid_index_def)
  then have "storage_servers s3 ! nat i = storage_servers s ! nat i"
    using isSSUp_pinged [OF r] hit(5) by (auto simp: pinged_def)
  then show ?thesis using hit(6) r i k by auto
next
  case (miss i' s2)
  then show ?thesis using assms(1-3) lru.find_miss [of "cache s" path]
    by (metis Suc_lessD fst_conv image_eqI ns_wf_def nth_mem wf_entries_def)
next
  case (absent ps)
  then show ?thesis using assms(1-3) lru.find_miss [of "cache s" path]
    by (metis Suc_lessD fst_conv image_eqI ns_wf_def nth_mem wf_entries_def)
next
  case (overrun e)
  then show ?thesis using assms(1-3) lru.find_miss [of "cache s" path]
    by (metis Suc_lessD fst_conv image_eqI ns_wf_def nth_mem wf_entries_def)
qed

definition example_cache :: lru_cache where
  "example_cache = add_to_cache ''./b'' 1 (add_to_cache ''./a'' 0 initialize_cache)"

lemma example_cache_entries: "wf_cache example_cache" "entries example_cache = [(''./a'', 0), (''./b'', 1)]"
  by (simp_all add: example_cache_def lru.wf_push lru.view_push CACHE_CAPACITY_def)

theorem cache_hit_pings_next_witness:
  "\<exists>s'. search_storage_server (ok_env (\<lambda>t fd. RecvErr EOTHER)) ''./a'' (example_ns example_cache) = Inr (0, s') \<and>
     isUp (storage_servers s' ! 0)"
proof -
  have "ns_wf (example_ns example_cache)" by (rule example_ns_wf) (simp_all add: example_cache_entries)
  from cache_hit_pings_next [OF this, of 0 "''./a''" 0 "ok_env (\<lambda>t fd. RecvErr EOTHER)"]
  show ?thesis by (fastforce simp: example_cache_entries example_ns_def example_server_def)
qed



end
