(* ===== verification/Ns_Commands.thy ===== *)
theory Ns_Commands
  imports Ns_Properties
begin

text \<open>
  What the commands of a client do: which tries change and how, which cache entries appear and
  disappear, and which replies the client gets.
\<close>

section \<open>Effects on the tries\<close>

definition tries :: "ns \<Rightarrow> trienode option list" where
  "tries s = map root (storage_servers s)"

lemma tries_same: "same_table s s' \<Longrightarrow> tries s' = tries s"
proof -
  assume "same_table s s'"
  then have "map root (map no_flag (storage_servers s')) = map root (map no_flag (storage_servers s))"
    by (simp add: same_table_def)
  then show ?thesis by (simp add: tries_def no_flag_def comp_def)
qed

lemma tries_net [simp]:
  "tries (s\<lparr>net := w\<rparr>) = tries s" "tries (io f s) = tries s" "tries (s\<lparr>cache := c\<rparr>) = tries s"
  "tries (send_rep E fd m c' s) = tries s" "tries (send_quiet E fd m s) = tries s"
  "tries (reply_not_found E fd s) = tries s"
  by (simp_all add: tries_def send_rep_def send_quiet_def reply_not_found_def)

lemma same_table_net [simp]:
  "same_table s (s'\<lparr>net := w\<rparr>) = same_table s s'" "same_table s (io f s') = same_table s s'"
  "same_table s (send_rep E fd m c' s') = same_table s s'" "same_table s (send_quiet E fd m s') = same_table s s'"
  "same_table s (reply_not_found E fd s') = same_table s s'" "same_table s (s'\<lparr>cache := c\<rparr>) = same_table s s'"
  "same_table (io f s) s' = same_table s s'"
  by (simp_all add: same_table_def send_rep_def send_quiet_def reply_not_found_def)

lemma ensures_backup_same:
  "ns_wf s \<Longrightarrow> (\<And>up s'. ns_wf s' \<Longrightarrow> same_table s s' \<Longrightarrow> cache s' = cache s \<Longrightarrow> Q (up, s')) \<Longrightarrow> ensures (backup_up E i s) Q"
  using isSSUp_wf [of s E i] by (auto simp: backup_up_def ensures_iff)

lemma ensures_forward_same:
  "ns_wf s \<Longrightarrow> (\<And>s'. ns_wf s' \<Longrightarrow> same_table s s' \<Longrightarrow> cache s' = cache s \<Longrightarrow> Q s') \<Longrightarrow>
   ensures (forward_backup E l c p bs s) Q"
  by (auto simp: forward_backup_def Let_def send_rep_def intro!: wf_intros ensures_backup_same)

lemma edit_trie_tries:
  assumes "edit_trie f i s = Inr s'" "nat i < length (storage_servers s)"
  obtains t t' where "tries s ! nat i = Some t" "f t = Inr t'" "tries s' = (tries s)[nat i := Some t']" "cache s' = cache s"
    "storage_server_index s' = storage_server_index s"
  using assms by (auto simp: edit_trie_def server_def deref_def tries_def map_update split: if_splits option.splits)

text \<open>The storage server's answer to a forwarded command, read after the world \<open>w\<close>: it counts as a success
  unless it is missing or starts with \<^verbatim>\<open>Could not\<close>.\<close>

definition confirms :: "env \<Rightarrow> int \<Rightarrow> world \<Rightarrow> bool" where
  "confirms E fd w \<longleftrightarrow>
     (case recv_good E fd BUFFER_SIZE w of
        ((bytes, b), w1) \<Rightarrow> bytes > 0 \<and> \<not> starts_with ''Could not'' (c_str b))"

definition create_confirmed :: "env \<Rightarrow> string \<Rightarrow> int \<Rightarrow> ns \<Rightarrow> bool" where
  "create_confirmed E buffer fd s \<longleftrightarrow>
     (case send_good E fd buffer (net s) of (sent, w) \<Rightarrow> sent \<ge> 0 \<and> confirms E fd w)"

definition remove_confirmed :: "env \<Rightarrow> string \<Rightarrow> int \<Rightarrow> ns \<Rightarrow> bool" where
  "remove_confirmed E buffer fd s \<longleftrightarrow>
     (case send_good E fd buffer (net s) of
        (sent, w) \<Rightarrow>
          sent \<ge> 0 \<and> (case log_to_ss E buffer fd (s\<lparr>net := w\<rparr>) of Inl e \<Rightarrow> False | Inr s1 \<Rightarrow> confirms E fd (net s1)))"

lemma ensures_andthen: "ensures m (\<lambda>x. ensures (f x) Q) \<Longrightarrow> ensures (andthen m f) Q"
  by simp

lemma finish_edit:
  assumes "ns_wf s" "valid_index s i" "same_table s0 s" "cache s = c"
    and "\<And>t. f t = andthen (ParsePath path) (\<lambda>ps. Inr (g ps t)) \<or> f t = Inl NullDeref"
    and "ParsePath path = Inr ps"
  shows "ensures (edit_trie f i s) (\<lambda>s'. tries s' = (tries s0)[nat i := map_option (g ps) (tries s0 ! nat i)] \<and> cache s' = c \<and>
    storage_server_index s' = storage_server_index s0)"
  unfolding ensures_iff
proof (intro allI impI)
  fix s'
  assume r: "edit_trie f i s = Inr s'"
  have "nat i < length (storage_servers s)" using assms(1,2) by (auto simp: ns_wf_def wf_table_def valid_index_def)
  from edit_trie_tries [OF r this] obtain t t' where t: "tries s ! nat i = Some t" "f t = Inr t'"
    "tries s' = (tries s)[nat i := Some t']" "cache s' = cache s" "storage_server_index s' = storage_server_index s" by metis
  have "t' = g ps t" using t(2) assms(5) [of t] assms(6) by auto
  with t assms(3,4) tries_same [of s0 s]
  show "tries s' = (tries s0)[nat i := map_option (g ps) (tries s0 ! nat i)] \<and> cache s' = c \<and>
    storage_server_index s' = storage_server_index s0" by (simp add: same_table_def)
qed

lemma create_on_effect:
  assumes wf: "ns_wf s" and v: "valid_index s i" and p: "ParsePath path = Inr ps"
  shows "ensures (create_on E buffer command path fd i s) (\<lambda>s'.
    tries s' = (if create_confirmed E buffer (socket (clientInfo (storage_servers s ! nat i))) s
      then (tries s)[nat i := map_option (add_path ps) (tries s ! nat i)] else tries s) \<and> cache s' = cache s \<and> storage_server_index s' = storage_server_index s)"
proof -
  let ?ss = "storage_servers s ! nat i"
  let ?fd = "socket (clientInfo ?ss)"
  have sv: "server s i = Inr ?ss" using server_returns wf v by (simp add: ns_wf_def)
  obtain sent w1 where send: "send_good E ?fd buffer (net s) = (sent, w1)" by fastforce
  obtain bytes b w2 where recv: "recv_good E ?fd BUFFER_SIZE w1 = ((bytes, b), w2)" by (metis surj_pair)
  have fin: "ensures (edit_trie (AddPathToTrie path) i s5)
      (\<lambda>s'. tries s' = (tries s)[nat i := map_option (add_path ps) (tries s ! nat i)] \<and> cache s' = cache s \<and>
        storage_server_index s' = storage_server_index s)"
    if "ns_wf s5" "same_table s s5" "cache s5 = cache s" for s5
    using that v by (intro finish_edit [OF that(1) _ that(2,3) _ p]) (simp_all add: AddPathToTrie_def)
  show ?thesis
  proof (cases "sent < 0 \<or> bytes \<le> 0")
    case True
    then show ?thesis
      by (auto simp: create_on_def sv io_val_def send recv create_confirmed_def confirms_def send_rep_def)
  next
    case False
    have fwd: "ensures (andthen (server s3 i) (\<lambda>ss'.
        andthen (forward_backup E False command path (backupServer1 ss') s3) (\<lambda>s4.
        andthen (forward_backup E False command path (backupServer2 ss') s4) (\<lambda>s5.
        edit_trie (AddPathToTrie path) i s5))))
      (\<lambda>s'. tries s' = (tries s)[nat i := map_option (add_path ps) (tries s ! nat i)] \<and> cache s' = cache s \<and>
        storage_server_index s' = storage_server_index s)"
      if "ns_wf s3" "same_table s s3" "cache s3 = cache s" for s3
      using that by (auto intro!: wf_intros ensures_forward_same fin intro: same_table_trans)
    show ?thesis
      using False fwd [of "send_rep E fd (c_str b) 51 (s\<lparr>net := w2\<rparr>)"] wf
      by (auto simp: create_on_def sv io_val_def send recv create_confirmed_def confirms_def terminated_def Let_def
          send_rep_def simp del: ensures_simps(3))
  qed
qed

lemma DeletePath_total:
  "ParsePath path = Inr ps \<Longrightarrow>
   DeletePath path t = andthen (ParsePath path) (\<lambda>ps. Inr (if SearchPathHelperTries t ps then del_path ps t else t)) \<or>
   DeletePath path t = Inl NullDeref"
  by (cases "ps = []") (auto simp: DeletePath_def SearchPath_def)

definition deleted :: "string list \<Rightarrow> trienode \<Rightarrow> trienode" where
  "deleted ps t = (if SearchPathHelperTries t ps then del_path ps t else t)"

lemma remove_on_effect:
  assumes wf: "ns_wf s" and v: "valid_index s i" and p: "ParsePath path = Inr ps"
  shows "ensures (remove_on E buffer command path fd i s) (\<lambda>s'.
    tries s' = (if remove_confirmed E buffer (socket (clientInfo (storage_servers s ! nat i))) s
      then (tries s)[nat i := map_option (deleted ps) (tries s ! nat i)] else tries s) \<and> cache s' = cache s \<and> storage_server_index s' = storage_server_index s)"
proof -
  let ?ss = "storage_servers s ! nat i"
  let ?fd = "socket (clientInfo ?ss)"
  let ?Q = "\<lambda>s'. tries s' = (tries s)[nat i := map_option (deleted ps) (tries s ! nat i)] \<and> cache s' = cache s \<and>
    storage_server_index s' = storage_server_index s"
  have sv: "server s i = Inr ?ss" using server_returns wf v by (simp add: ns_wf_def)
  obtain sent w1 where send: "send_good E ?fd buffer (net s) = (sent, w1)" by fastforce
  have fin: "ensures (edit_trie (DeletePath path) i s5) ?Q"
    if "ns_wf s5" "same_table s s5" "cache s5 = cache s" for s5
    using that v DeletePath_total [OF p]
    by (intro finish_edit [OF that(1) _ that(2,3) _ p]) (simp_all add: deleted_def)
  have fwd: "ensures (andthen (server s3 i) (\<lambda>ss'. andthen (deref (root ss')) (\<lambda>t. andthen (DisplayTrie t) (\<lambda>text.
      andthen (forward_backup E False command path (backupServer1 ss') (io (emit (Stdout text)) s3)) (\<lambda>s4.
      andthen (forward_backup E True command path (backupServer2 ss') s4) (\<lambda>s5.
      edit_trie (DeletePath path) i s5)))))) ?Q"
    if "ns_wf s3" "same_table s s3" "cache s3 = cache s" for s3
    using that by (auto intro!: wf_intros ensures_forward_same fin) (meson same_table_trans)
  show ?thesis
  proof (cases "sent < 0")
    case True
    then show ?thesis by (simp add: remove_on_def sv io_val_def send remove_confirmed_def)
  next
    case sent: False
    show ?thesis
    proof (cases "log_to_ss E buffer ?fd (s\<lparr>net := w1\<rparr>)")
      case (Inl e)
      then show ?thesis using sent by (simp add: remove_on_def sv io_val_def send)
    next
      case (Inr s2)
      obtain w2 where s2: "s2 = s\<lparr>net := w2\<rparr>"
        using Inr by (auto simp: log_to_ss_def ns_log_def io_result_def)
      obtain bytes b w3 where recv: "recv_good E ?fd BUFFER_SIZE w2 = ((bytes, b), w3)" by (metis surj_pair)
      have conf: "remove_confirmed E buffer ?fd s \<longleftrightarrow> bytes > 0 \<and> \<not> starts_with ''Could not'' (c_str b)"
        using sent Inr by (simp add: remove_confirmed_def send confirms_def s2 recv)
      have logs: "ensures (andthen (log_from_ss E r ?fd s3) (\<lambda>s4.
          andthen (log_to_client E r fd (send_rep E fd r 51 s4)) G)) P"
        if "\<And>w. ensures (G (s3\<lparr>net := w\<rparr>)) P" for r s3 P and G :: "ns \<Rightarrow> ns result"
        using that by (intro ensures_andthen ensures_logs) (simp add: send_rep_def io_def)
      show ?thesis
      proof (cases "bytes \<le> 0 \<or> \<not> length b < BUFFER_SIZE")
        case True
        then show ?thesis
          using sent Inr unfolding conf
          by (auto simp: remove_on_def sv io_val_def send recv s2 terminated_def send_rep_def Let_def intro!: ensures_logs)
      next
        case False
        show ?thesis
          unfolding conf using sent Inr False
          by (auto simp: remove_on_def sv io_val_def send recv s2 terminated_def Let_def simp del: ensures_simps(3)
              intro!: logs fwd wf)
      qed
    qed
  qed
qed

section \<open>Creating and removing paths\<close>

text \<open>The state after the lookup of a command, for the theorems below: the server that was found and
  the socket the command is forwarded to.\<close>

definition ss_fd :: "ns \<Rightarrow> int \<Rightarrow> int" where
  "ss_fd s i = socket (clientInfo (storage_servers s ! nat i))"

lemma search_found:
  assumes "ns_wf s" "search_storage_server E path s = Inr (i, s1)" "i \<noteq> -1"
  shows "ns_wf s1 \<and> valid_index s1 i \<and> same_table s s1 \<and> path \<in> fst ` set (entries (cache s1)) \<and>
    server s1 i = Inr (storage_servers s1 ! nat i)"
proof -
  from search_storage_server_post [OF assms(1,2)]
  have post: "after_lookup s path s1" "i = answer (lookup s path)" "ns_wf s1" by auto
  then have l: "lookup s path = Some i" using assms(3) by (cases "lookup s path") (simp_all add: answer_def)
  have "same_table s s1" using post(1) by (simp add: after_lookup_def)
  then have v: "valid_index s1 i" using lookup_valid [OF assms(1) l] by simp
  then have "server s1 i = Inr (storage_servers s1 ! nat i)" using server_returns post(3) by (simp add: ns_wf_def)
  moreover have "path \<in> fst ` set (entries (cache s1))" using post(1) l by (force simp: after_lookup_def)
  ultimately show ?thesis using post(3) v \<open>same_table s s1\<close> by blast
qed

text \<open>C9. \<^verbatim>\<open>mkdir\<close> and \<^verbatim>\<open>touch\<close>: once the lookup of the parent directory found a
  server, the path is added to the trie of that server exactly when the server is up, took the command
  and answered with a success; on every other branch, and for every other server, the tries stay as they
  are. When the new path fits it is found afterwards.\<close>

theorem create_effect:
  assumes "ns_wf s" "search_storage_server E (parent_path path) s = Inr (i, s1)" "i \<noteq> -1"
    "parent_path path \<notin> set invalid_paths" "ParsePath path = Inr ps"
    "handle_create E buffer command path fd s = Inr (go, s')"
  shows "tries s' =
      (if isUp (storage_servers s1 ! nat i) \<and> create_confirmed E buffer (ss_fd s1 i) s1
       then (tries s)[nat i := map_option (add_path ps) (tries s ! nat i)] else tries s) \<and>
    (\<forall>t. tries s ! nat i = Some t \<and> has_room ps t \<longrightarrow> SearchPathHelperTries (add_path ps t) ps)"
proof -
  note found = search_found [OF assms(1,2,3)]
  let ?s2 = "s1\<lparr>cache := add_to_cache path i (cache s1)\<rparr>"
  have wf2: "ns_wf ?s2" using found ns_wf_push by blast
  have same: "tries ?s2 = tries s" using found tries_same [of s s1] by simp
  have v2: "valid_index ?s2 i" using found by (simp add: valid_index_def)
  have conf: "create_confirmed E buffer (socket (clientInfo (storage_servers ?s2 ! nat i))) ?s2 =
      create_confirmed E buffer (ss_fd s1 i) s1" by (simp add: create_confirmed_def ss_fd_def)
  have up: "server_up ?s2 i = Inr (isUp (storage_servers s1 ! nat i))"
    using found assms(3) by (simp add: server_up_def server_def split: if_splits)
  have "tries s' = (if isUp (storage_servers s1 ! nat i) \<and> create_confirmed E buffer (ss_fd s1 i) s1
       then (tries s)[nat i := map_option (add_path ps) (tries s ! nat i)] else tries s)"
    using assms(2,3,4,6) create_on_effect [OF wf2 v2 assms(5), of E buffer command fd] same conf up
    by (auto simp: handle_create_def Let_def ensures_iff split: if_splits)
  then show ?thesis by (simp add: search_add_path)
qed

definition created_env :: env where
  "created_env = ok_env (\<lambda>t fd. RecvBytes ''Created'')"

lemma result_cases: "(case m of Inl e \<Rightarrow> False | Inr (a, b) \<Rightarrow> P a b) \<Longrightarrow> \<exists>a b. m = Inr (a, b) \<and> P a b"
  by (auto split: sum.splits)

lemma example_wf_empty: "ns_wf (example_ns initialize_cache)"
  by (rule example_ns_wf) simp_all

lemma example_search:
  "case search_storage_server created_env ''./a'' (example_ns initialize_cache) of
     Inl e \<Rightarrow> False | Inr (i, s1) \<Rightarrow> i = 0 \<and> isUp (storage_servers s1 ! nat 0) \<and>
       create_confirmed created_env ''mkdir ./a/x'' (ss_fd s1 0) s1 \<and> remove_confirmed created_env ''rm ./a'' (ss_fd s1 0) s1"
  by code_simp

lemma example_create:
  "case handle_create created_env ''mkdir ./a/x'' ''mkdir'' ''./a/x'' 3 (example_ns initialize_cache) of
     Inl e \<Rightarrow> False | Inr (go, s1) \<Rightarrow> go"
  "parent_path ''./a/x'' = ''./a''" "''./a'' \<notin> set invalid_paths" "ParsePath ''./a/x'' = Inr [''.'', ''a'', ''x'']"
  by code_simp+

theorem create_effect_witness:
  "\<exists>s'. handle_create created_env ''mkdir ./a/x'' ''mkdir'' ''./a/x'' 3 (example_ns initialize_cache) = Inr (True, s') \<and>
     tries s' ! 0 = map_option (add_path [''.'', ''a'', ''x'']) (tries (example_ns initialize_cache) ! 0)"
proof -
  obtain s1 where s1: "search_storage_server created_env ''./a'' (example_ns initialize_cache) = Inr (0, s1)"
    "isUp (storage_servers s1 ! nat 0)" "create_confirmed created_env ''mkdir ./a/x'' (ss_fd s1 0) s1"
    using result_cases [OF example_search] by auto
  obtain s' where s': "handle_create created_env ''mkdir ./a/x'' ''mkdir'' ''./a/x'' 3 (example_ns initialize_cache) = Inr (True, s')"
    using result_cases [OF example_create(1)] by auto
  have "tries (example_ns initialize_cache) \<noteq> []" by (simp add: tries_def example_ns_def)
  then show ?thesis
    using create_effect [OF example_wf_empty _ _ _ example_create(4) s', of 0 s1] example_create(2,3) s1 s' by simp
qed

text \<open>C10. \<^verbatim>\<open>rmdir\<close> and \<^verbatim>\<open>rm\<close>: the path (with everything below it) leaves the trie of
  the server that was found exactly when the server is up, took the command and answered with a success;
  on every other branch, and for every other server, the tries stay as they are. The first cached answer
  for the path is dropped before the server is asked, and the semaphore is not posted.\<close>

theorem remove_effect:
  assumes "ns_wf s" "search_storage_server E path s = Inr (i, s1)" "i \<noteq> -1"
    "path \<notin> set invalid_paths" "ParsePath path = Inr ps"
    "handle_remove E buffer command path fd s = Inr (go, s')"
  shows "tries s' =
      (if isUp (storage_servers s1 ! nat i) \<and> remove_confirmed E buffer (ss_fd s1 i) s1
       then (tries s)[nat i := map_option (deleted ps) (tries s ! nat i)] else tries s) \<and>
    (\<exists>j<length (entries (cache s1)). fst (entries (cache s1) ! j) = path \<and>
       entries (cache s') = take j (entries (cache s1)) @ drop (Suc j) (entries (cache s1))) \<and>
    storage_semaphore s' = 1"
proof -
  note found = search_found [OF assms(1,2,3)]
  have wfc: "wf_cache (cache s1)" using found by (simp add: ns_wf_def wf_entries_def)
  obtain j where j: "delete_from_cache path s1 = Inr (s1\<lparr>cache := remove_at j (cache s1)\<rparr>)"
    "j < length (entries (cache s1))" "fst (entries (cache s1) ! j) = path"
    using delete_from_cache_hit [OF wfc] found by metis
  let ?s2 = "s1\<lparr>cache := remove_at j (cache s1)\<rparr>"
  have wf2: "ns_wf ?s2" and v2: "valid_index ?s2 i"
    using ensures_delete_from_cache [of s1 path ns_wf] found j(1) by (simp_all add: valid_index_def)
  have same: "tries ?s2 = tries s" using found tries_same [of s s1] by simp
  have conf: "remove_confirmed E buffer (socket (clientInfo (storage_servers ?s2 ! nat i))) ?s2 =
      remove_confirmed E buffer (ss_fd s1 i) s1"
    by (auto simp: remove_confirmed_def ss_fd_def log_to_ss_def ns_log_def io_result_def andthen_def split: prod.splits sum.splits)
  have up: "server_up ?s2 i = Inr (isUp (storage_servers s1 ! nat i))"
    using found assms(3) by (simp add: server_up_def server_def split: if_splits)
  have eff: "tries s' = (if isUp (storage_servers s1 ! nat i) \<and> remove_confirmed E buffer (ss_fd s1 i) s1
       then (tries s)[nat i := map_option (deleted ps) (tries s ! nat i)] else tries s) \<and> cache s' = cache ?s2"
    using assms(2,3,4,6) remove_on_effect [OF wf2 v2 assms(5), of E buffer command fd] same conf up j(1)
    by (auto simp: handle_remove_def ensures_iff log_to_client_def ns_log_def io_result_def reply_not_found_def send_rep_def
        split: if_splits)
  moreover have "ns_wf s'" using ensures_handle_remove [OF assms(1), of E buffer command path fd] assms(6) by simp
  ultimately show ?thesis
    using j lru.view_remove [OF wfc j(2)] by (auto simp: ns_wf_def)
qed

lemma example_remove:
  "case handle_remove created_env ''rm ./a'' ''rm'' ''./a'' 3 (example_ns initialize_cache) of
     Inl e \<Rightarrow> False | Inr (go, s1) \<Rightarrow> go"
  by code_simp

theorem remove_effect_witness:
  "\<exists>s'. handle_remove created_env ''rm ./a'' ''rm'' ''./a'' 3 (example_ns initialize_cache) = Inr (True, s') \<and>
     tries s' ! 0 = map_option (deleted [''.'', ''a'']) (tries (example_ns initialize_cache) ! 0) \<and> storage_semaphore s' = 1"
proof -
  obtain s1 where s1: "search_storage_server created_env ''./a'' (example_ns initialize_cache) = Inr (0, s1)"
    "isUp (storage_servers s1 ! nat 0)" "remove_confirmed created_env ''rm ./a'' (ss_fd s1 0) s1"
    using result_cases [OF example_search] by auto
  obtain s' where s': "handle_remove created_env ''rm ./a'' ''rm'' ''./a'' 3 (example_ns initialize_cache) = Inr (True, s')"
    using result_cases [OF example_remove] by auto
  have "tries (example_ns initialize_cache) \<noteq> []" by (simp add: tries_def example_ns_def)
  then show ?thesis
    using remove_effect [OF example_wf_empty s1(1) _ example_create(3) ParsePath_examples(2) s'] s1 s' by simp
qed

section \<open>Stale cache entries\<close>

lemma resolve_tries:
  assumes "tries s' = tries s" "storage_server_index s' = storage_server_index s"
  shows "resolve s' = resolve s"
proof -
  have "find_slot (stores ps) xs = find_slot (\<lambda>r. \<exists>t. r = Some t \<and> SearchPathHelperTries t ps) (map root xs)" for ps xs
    by (induction xs) (auto simp: stores_def)
  then show ?thesis
    using assms by (auto simp: resolve_def tries_def fun_eq_iff take_map [symmetric] split: sum.splits)
qed

text \<open>C33. \<^verbatim>\<open>mkdir\<close> and \<^verbatim>\<open>touch\<close> cache the new path before the storage server has created
  it: when the server refuses, a path that no trie stores stays in the cache, so the cache is no longer
  coherent and the next lookup answers a server for a path that does not exist.\<close>

theorem failed_create_leaves_stale_entry:
  assumes "ns_wf s" "search_storage_server E (parent_path path) s = Inr (i, s1)" "i \<noteq> -1"
    "parent_path path \<notin> set invalid_paths" "ParsePath path = Inr ps" "resolve s path = None"
    "\<not> (isUp (storage_servers s1 ! nat i) \<and> create_confirmed E buffer (ss_fd s1 i) s1)"
    "handle_create E buffer command path fd s = Inr (go, s')"
  shows "resolve s' path = None \<and> (path, i) \<in> set (entries (cache s')) \<and> lookup s' path \<noteq> None \<and> \<not> ns_coherent s'"
proof -
  note found = search_found [OF assms(1,2,3)]
  let ?s2 = "s1\<lparr>cache := add_to_cache path i (cache s1)\<rparr>"
  have wf2: "ns_wf ?s2" using found ns_wf_push by blast
  have v2: "valid_index ?s2 i" using found by (simp add: valid_index_def)
  have wfc: "wf_cache (cache s1)" using found by (simp add: ns_wf_def wf_entries_def)
  have up: "server_up ?s2 i = Inr (isUp (storage_servers s1 ! nat i))"
    using found assms(3) by (simp add: server_up_def server_def split: if_splits)
  have eff: "tries s' = tries s1 \<and> cache s' = cache ?s2 \<and> storage_server_index s' = storage_server_index s1"
    using assms(2,3,4,7,8) create_on_effect [OF wf2 v2 assms(5), of E buffer command fd] up
    by (auto simp: handle_create_def Let_def ensures_iff create_confirmed_def ss_fd_def reply_not_found_def send_rep_def
        split: if_splits)
  then have res: "resolve s' path = None"
    using assms(6) found resolve_same [of s s1] resolve_tries [of s' s1] by simp
  have mem: "(path, i) \<in> set (entries (cache s'))" using eff lru.push_found [OF wfc] by simp
  then have "map_of (entries (cache s')) path \<noteq> None" by (metis fst_conv image_eqI map_of_eq_None_iff)
  then have look: "lookup s' path \<noteq> None" by (auto simp: lookup_def split: option.splits)
  then show ?thesis using res mem lookup_coherent [of s' path] by auto
qed

definition refused_env :: env where
  "refused_env = ok_env (\<lambda>t fd. RecvBytes ''Could not create the directory'')"

lemma example_refused:
  "case search_storage_server refused_env ''./a'' (example_ns initialize_cache) of
     Inl e \<Rightarrow> False | Inr (i, s1) \<Rightarrow> i = 0 \<and> \<not> create_confirmed refused_env ''mkdir ./a/x'' (ss_fd s1 0) s1"
  "case handle_create refused_env ''mkdir ./a/x'' ''mkdir'' ''./a/x'' 3 (example_ns initialize_cache) of
     Inl e \<Rightarrow> False | Inr (go, s1) \<Rightarrow> go"
  by code_simp+

theorem failed_create_leaves_stale_entry_witness:
  "\<exists>s'. handle_create refused_env ''mkdir ./a/x'' ''mkdir'' ''./a/x'' 3 (example_ns initialize_cache) = Inr (True, s') \<and>
     resolve s' ''./a/x'' = None \<and> (''./a/x'', 0) \<in> set (entries (cache s'))"
proof -
  obtain s1 where s1: "search_storage_server refused_env ''./a'' (example_ns initialize_cache) = Inr (0, s1)"
    "\<not> create_confirmed refused_env ''mkdir ./a/x'' (ss_fd s1 0) s1"
    using result_cases [OF example_refused(1)] by auto
  obtain s' where s': "handle_create refused_env ''mkdir ./a/x'' ''mkdir'' ''./a/x'' 3 (example_ns initialize_cache) = Inr (True, s')"
    using result_cases [OF example_refused(2)] by auto
  have "resolve (example_ns initialize_cache) ''./a/x'' = None"
    using example_create(4) by (simp add: resolve_def example_ns_def example_server_def stores_def search_add_path)
  then show ?thesis
    using failed_create_leaves_stale_entry [OF example_wf_empty _ _ _ example_create(4) _ _ s', of 0 s1]
      example_create(2,3) s1 s' by simp
qed

end
