(* ===== verification/Ns_Replies.thy ===== *)
theory Ns_Replies
  imports Ns_Commands
begin

text \<open>
  The replies a client gets, the faults of the naming server that a client or a storage server can
  trigger, and the limit on the number of storage servers.
\<close>

section \<open>Replies on a socket\<close>

definition replies :: "int \<Rightarrow> world \<Rightarrow> string list" where
  "replies fd w = concat (map (\<lambda>e. case e of Sent f b \<Rightarrow> if f = fd then [b] else [] | _ \<Rightarrow> []) (trace w))"

text \<open>The network takes every message whole, and no new socket gets the number of the client's.\<close>

definition accepting :: "env \<Rightarrow> int \<Rightarrow> bool" where
  "accepting E fd \<longleftrightarrow> (\<forall>t f b. sys_send E t f b = SentBytes (length b)) \<and> (\<forall>t. sys_socket E t \<noteq> fd)"

lemma replies_simps [simp]:
  "replies fd (tick w) = replies fd w"
  "replies fd (emit (Sent f b) w) = replies fd w @ (if f = fd then [b] else [])"
  "replies fd (emit (Closed f) w) = replies fd w" "replies fd (emit (Stdout t) w) = replies fd w"
  "replies fd (emit (Logged t) w) = replies fd w"
  "replies fd (close f w) = replies fd w" "replies fd (printErrorDetails c w) = replies fd w"
  by (simp_all add: replies_def close_def printErrorDetails_def)

lemma replies_send:
  assumes "accepting E fd"
  shows "send_good E f b w = (int (length b), emit (Sent f b) (tick w))"
    "send_or_report E f b c w = emit (Sent f b) (tick w)"
  using assms by (simp_all add: accepting_def send_good_trace send_or_report_trace)

lemma replies_recv [simp]: "recv_good E f n w = (r, w') \<Longrightarrow> replies fd w' = replies fd w"
  by (auto simp: recv_good_def)

lemma replies_log: "log_it E a f m w = Inr w' \<Longrightarrow> replies fd w' = replies fd w"
  by (auto simp: log_it_def split: if_splits)

lemma replies_logs:
  "ns_log E m s = Inr s' \<Longrightarrow> replies fd (net s') = replies fd (net s) \<and> storage_servers s' = storage_servers s"
  "log_to_client E m f s = Inr s' \<Longrightarrow> replies fd (net s') = replies fd (net s) \<and> storage_servers s' = storage_servers s"
  by (auto simp: ns_log_def log_to_client_def io_result_def log_line_def dest: replies_log)

lemma replies_isSSUp:
  assumes "accepting E fd" "isSSUp E i s = Inr (up, s')"
  shows "replies fd (net s') = replies fd (net s)"
proof -
  have sock: "sys_socket E t \<noteq> fd" for t using assms(1) by (simp add: accepting_def)
  show ?thesis
    using assms(2)
    by (auto simp: isSSUp_def Let_def io_val_def replies_send [OF assms(1)] sock ping_down_def
        split: if_splits prod.splits)
qed

lemma replies_search:
  assumes "ns_wf s" "accepting E fd" "search_storage_server E path s = Inr (k, s')"
  shows "replies fd (net s') = replies fd (net s)"
  using assms(1)
proof (cases rule: search_storage_server_unfold [where E = E and path = path])
  case (hit j s2)
  with assms(3) replies_isSSUp [OF assms(2)] show ?thesis by fastforce
next
  case (miss i s2)
  with assms(3) replies_isSSUp [OF assms(2)] show ?thesis by fastforce
next
  case (absent ps)
  with assms(3) show ?thesis by simp
next
  case (overrun e)
  with assms(3) show ?thesis by simp
qed

lemma replies_backup_up:
  "accepting E fd \<Longrightarrow> backup_up E b s = Inr (up, s') \<Longrightarrow> replies fd (net s') = replies fd (net s)"
  by (auto simp: backup_up_def replies_isSSUp split: if_splits)

lemma ensures_replies:
  assumes "accepting E fd" "\<And>up s'. replies fd (net s') = replies fd (net s) \<Longrightarrow> Q (up, s')"
  shows "ensures (isSSUp E i s) Q" "ensures (backup_up E i s) Q"
  using assms(2) replies_isSSUp [OF assms(1)] replies_backup_up [OF assms(1)] by (auto simp: ensures_iff)

lemma replies_redundantSS:
  assumes "accepting E fd" "redundantSS E i s = Inr (k, s')"
  shows "replies fd (net s') = replies fd (net s)"
proof -
  have "ensures (redundantSS E i s) (\<lambda>(k, s'). replies fd (net s') = replies fd (net s))"
    by (auto simp: redundantSS_def Let_def intro!: ensures_replies [OF assms(1)] ensures_read)
  with assms(2) show ?thesis by simp
qed

section \<open>The answer to a path\<close>

definition address_reply :: "bool \<Rightarrow> storage_server_info \<Rightarrow> string \<Rightarrow> bool" where
  "address_reply direct ss r \<longleftrightarrow>
     (if direct then r = snprintf BUFFER_SIZE (ip (clientInfo ss) @ '','' @ show_int (portClient ss) @ '' '')
      else \<exists>top. top_name ss = Inr top \<and>
        r = snprintf BUFFER_SIZE (''Backup '' @ ip (clientInfo ss) @ '','' @ show_int (portClient ss) @ '','' @ top))"

lemma address_reply_same: "no_flag a = no_flag b \<Longrightarrow> address_reply d a r \<Longrightarrow> address_reply d b r"
  by (cases d) (auto simp: address_reply_def top_name_def dest!: no_flag_eqD)

lemma same_table_server:
  "ns_wf s \<Longrightarrow> same_table s s' \<Longrightarrow> valid_index s k \<Longrightarrow> no_flag (storage_servers s' ! nat k) = no_flag (storage_servers s ! nat k)"
  by (rule same_table_nth) (auto simp: ns_wf_def wf_table_def valid_index_def)

lemma handle_other_reply:
  assumes "ns_wf s" "accepting E fd" "handle_other E path fd s = Inr s'"
  shows "\<exists>r. replies fd (net s') = replies fd (net s) @ [r] \<and>
    (case lookup s path of
       None \<Rightarrow> r = not_found_msg
     | Some i \<Rightarrow>
         \<exists>k\<in>{i, backupServer1 (storage_servers s ! nat i), backupServer2 (storage_servers s ! nat i)}.
           valid_index s k \<and> isUp (storage_servers s' ! nat k) \<and> address_reply (k = i) (storage_servers s ! nat k) r)"
proof -
  obtain i s1 where se: "search_storage_server E path s = Inr (i, s1)"
    using assms(3) by (auto simp: handle_other_def)
  from search_storage_server_post [OF assms(1) se]
  have post: "after_lookup s path s1" "i = answer (lookup s path)" "ns_wf s1" by auto
  have r1: "replies fd (net s1) = replies fd (net s)" by (rule replies_search [OF assms(1,2) se])
  show ?thesis
  proof (cases "lookup s path")
    case None
    then have "i = -1" using post(2) by (simp add: answer_def)
    then have "log_to_client E not_found_msg fd (reply_not_found E fd s1) = Inr s'"
      using assms(3) se by (simp add: handle_other_def)
    from replies_logs(2) [OF this] show ?thesis
      using None r1 by (simp add: reply_not_found_def send_rep_def replies_send [OF assms(2)])
  next
    case (Some j)
    then have j: "i = j" "valid_index s i" "i \<noteq> -1"
      using post(2) lookup_valid [OF assms(1) Some] by (auto simp: answer_def valid_index_def)
    have same1: "same_table s s1" using post(1) by (simp add: after_lookup_def)
    have v1: "valid_index s1 i" using j same1 by simp
    have sv: "server s1 i = Inr (storage_servers s1 ! nat i)" using server_returns post(3) v1 by (simp add: ns_wf_def)
    define ss where "ss = storage_servers s1 ! nat i"
    obtain k s2 where k: "(if \<not> isUp ss then redundantSS E i s1 else Inr (i, s1)) = Inr (k, s2)"
      using assms(3) se sv j(3) by (auto simp: handle_other_def ss_def)
    have k2: "same_table s s2" "replies fd (net s2) = replies fd (net s)"
      "k = -1 \<or> k \<in> {i, backupServer1 ss, backupServer2 ss} \<and> valid_index s k \<and> isUp (storage_servers s2 ! nat k)"
    proof -
      obtain k' s2' where red: "redundantSS E i s1 = Inr (k', s2')" "same_table s1 s2'"
        "k' = -1 \<or> k' \<in> {i, backupServer1 ss, backupServer2 ss} \<and> valid_index s1 k' \<and> isUp (storage_servers s2' ! nat k')"
        using redundantSS_post [OF post(3) v1, of E] unfolding ss_def by metis
      show "same_table s s2" "replies fd (net s2) = replies fd (net s)"
        "k = -1 \<or> k \<in> {i, backupServer1 ss, backupServer2 ss} \<and> valid_index s k \<and> isUp (storage_servers s2 ! nat k)"
        using k red same1 j r1 replies_redundantSS [OF assms(2) red(1)] same_table_trans [OF same1] ss_def
        by (auto split: if_splits)
    qed
    have "k \<noteq> -1"
      using assms(3) se sv j(3) k by (auto simp: handle_other_def ss_def server_def)
    then have kv: "k \<in> {i, backupServer1 ss, backupServer2 ss}" "valid_index s k" "isUp (storage_servers s2 ! nat k)"
      using k2(3) by auto
    have sv2: "server s2 k = Inr (storage_servers s2 ! nat k)"
      using kv(2) assms(1) by (auto simp: server_def valid_index_def ns_wf_def wf_table_def)
    have nf: "no_flag (storage_servers s2 ! nat k) = no_flag (storage_servers s ! nat k)"
      by (rule same_table_server [OF assms(1) k2(1) kv(2)])
    have "\<exists>r. replies fd (net s') = replies fd (net s2) @ [r] \<and> storage_servers s' = storage_servers s2 \<and>
        address_reply (k = i) (storage_servers s2 ! nat k) r"
      using assms(3) se sv j(3) k sv2
      by (auto simp: handle_other_def ss_def [symmetric] Let_def send_quiet_def send_rep_def address_reply_def
          replies_send [OF assms(2)] split: if_splits dest!: replies_logs(2) [where fd = fd])
    moreover have "backupServer1 ss = backupServer1 (storage_servers s ! nat i)"
      "backupServer2 ss = backupServer2 (storage_servers s ! nat i)"
      using same_table_backups [OF assms(1) j(2) same1] by (simp_all add: ss_def)
    ultimately show ?thesis
      using k2(2) kv Some j(1) address_reply_same [OF nf] by auto
  qed
qed


lemma example_other:
  "case handle_other created_env ''./a'' 3 (example_ns initialize_cache) of Inl e \<Rightarrow> False | Inr s1 \<Rightarrow> True"
  by code_simp

lemma accepting_ok: "fd \<noteq> 7 \<Longrightarrow> accepting (ok_env f) fd"
  by (simp add: accepting_def ok_env_def)

lemma accepting_created: "accepting created_env 3"
  by (simp add: created_env_def accepting_ok)


section \<open>Two replies to a write\<close>

lemma handle_write_reply:
  assumes "ns_wf s" "accepting E fd" "handle_write E flag (Some path) fd s = Inr s'"
  shows "\<exists>r. replies fd (net s') = replies fd (net s) @ [r]"
proof -
  obtain i s1 where se: "search_storage_server E path s = Inr (i, s1)"
    using assms(3) by (auto simp: handle_write_def)
  have r1: "replies fd (net s1) = replies fd (net s)" by (rule replies_search [OF assms(1,2) se])
  show ?thesis
    using assms(3) se r1
    by (auto simp: handle_write_def send_rep_def reply_not_found_def replies_send [OF assms(2)]
        split: if_splits dest!: replies_logs(2) [where fd = fd])
qed

lemma write_tokens:
  assumes "flag = ''-s'' \<or> flag = ''-a''" "path \<noteq> []" "CHR '' '' \<notin> set path"
  shows "strtok '' '' (''write '' @ flag @ '' '' @ path) = Some (''write'', flag @ '' '' @ path)"
    "strtok '' '' (flag @ '' '' @ path) = Some (flag, path)" "strtok '' '' path = Some (path, [])"
  using strtok_word(1) [of "''write''" "'' ''" "CHR '' ''" "flag @ '' '' @ path"]
    strtok_word(1) [of flag "'' ''" "CHR '' ''" path] strtok_word(2) [of path "'' ''" "CHR '' ''"] assms by auto

text \<open>C32. A \<^verbatim>\<open>write\<close> command is answered twice: after its own reply the handler goes on to the
  last branch, which looks up the flag as if it were a path and sends a second reply, so the client reads
  one reply too late from then on.\<close>

theorem write_gets_two_replies:
  assumes "ns_wf s" "accepting E fd" "flag = ''-s'' \<or> flag = ''-a''" "path \<noteq> []" "CHR '' '' \<notin> set path"
    "dispatch E n (''write '' @ flag @ '' '' @ path) fd s = Inr (go, s')"
  shows "\<exists>r1 r2. replies fd (net s') = replies fd (net s) @ [r1, r2]"
proof -
  have "flag \<noteq> ''/''" "flag \<noteq> ''./''" using assms(3) by auto
  then obtain s1 where s1: "handle_write E flag (Some path) fd s = Inr s1" "handle_other E flag fd s1 = Inr s'"
    using assms(6) by (auto simp: dispatch_def Let_def write_tokens [OF assms(3-5), simplified] starts_with_def)
  obtain r1 where r1: "replies fd (net s1) = replies fd (net s) @ [r1]"
    using handle_write_reply [OF assms(1,2) s1(1)] by blast
  have "ns_wf s1" using ensures_handle_write [OF assms(1), of E flag "Some path" fd] s1(1) by simp
  from handle_other_reply [OF this assms(2) s1(2)] r1 show ?thesis by auto
qed

lemma example_write:
  "case dispatch created_env 0 (''write '' @ ''-s'' @ '' '' @ ''./a'') 3 (example_ns initialize_cache) of
     Inl e \<Rightarrow> False | Inr (go, s1) \<Rightarrow> True"
  by code_simp

theorem write_gets_two_replies_witness:
  "\<exists>go s'. dispatch created_env 0 (''write '' @ ''-s'' @ '' '' @ ''./a'') 3 (example_ns initialize_cache) = Inr (go, s') \<and>
     length (replies 3 (net s')) = 2"
proof -
  obtain go s' where s': "dispatch created_env 0 (''write '' @ ''-s'' @ '' '' @ ''./a'') 3 (example_ns initialize_cache) = Inr (go, s')"
    using result_cases [OF example_write] by blast
  have "replies 3 (net (example_ns initialize_cache)) = []" by (simp add: replies_def example_ns_def)
  with write_gets_two_replies [OF example_wf_empty accepting_created _ _ _ s'] s' show ?thesis by auto
qed

section \<open>Faults\<close>

lemma isSSUp_no_connect:
  assumes "ns_wf s" "valid_index s i" "\<forall>t. sys_socket E t \<ge> 0" "\<forall>a. sys_inet_pton E a" "\<forall>t f a p. \<not> sys_connect E t f a p"
  shows "\<exists>s'. isSSUp E i s = Inr (False, s') \<and> \<not> isUp (storage_servers s' ! nat i)"
proof -
  have "nat i < length (storage_servers s)" using assms(1,2) by (auto simp: ns_wf_def wf_table_def valid_index_def)
  moreover have "\<not> sys_socket E t < 0" for t using assms(3) by (simp add: not_less)
  ultimately show ?thesis
    using assms(1,2,4,5) server_returns [of s i] by (auto simp: isSSUp_def Let_def ns_wf_def ping_down_def)
qed

lemma redundantSS_no_connect:
  assumes wf: "ns_wf s" and v: "valid_index s i"
    and down: "\<forall>t. sys_socket E t \<ge> 0" "\<forall>a. sys_inet_pton E a" "\<forall>t f a p. \<not> sys_connect E t f a p"
  shows "\<exists>s'. redundantSS E i s = Inr (-1, s')"
proof -
  obtain k s' where r: "redundantSS E i s = Inr (k, s')" using redundantSS_post [OF wf v, of E] by metis
  have "\<not> up" if "isSSUp E j s1 = Inr (up, s2)" for j s1 up s2
    using that down by (auto simp: isSSUp_def Let_def ping_down_def split: if_splits)
  with r have "k = -1" by (auto simp: redundantSS_def backup_up_def Let_def split: if_splits)
  with r show ?thesis by blast
qed

text \<open>C35. When neither the storage server of a path nor a backup can be reached, the naming server uses the
  result -1 of \<^verbatim>\<open>redundantSS\<close> as an index into its table instead of replying: an access out of
  bounds that any client can trigger.\<close>

theorem unreachable_server_faults:
  assumes "ns_wf s" "path \<notin> fst ` set (entries (cache s))" "resolve s path = Some i"
    "\<forall>t. sys_socket E t \<ge> 0" "\<forall>a. sys_inet_pton E a" "\<forall>t f a p. \<not> sys_connect E t f a p"
  shows "handle_other E path fd s = Inl OutOfBounds"
  using assms(1)
proof (cases rule: search_storage_server_unfold [where E = E and path = path])
  case (miss i' s2)
  have i: "i' = i" using miss(2) assms(3) by simp
  note al = after_lookup_miss [OF assms(1) miss(1,2,3,4)]
  have s2: "ns_wf s2" "valid_index s2 i" using al ns_wf_after_lookup [OF assms(1)] i by blast+
  obtain s3 where s3: "isSSUp E i s2 = Inr (False, s3)" "\<not> isUp (storage_servers s3 ! nat i)"
    using isSSUp_no_connect [OF s2 assms(4-6)] by blast
  have wf3: "ns_wf s3" "same_table s2 s3" using isSSUp_wf [OF s2(1) s3(1)] by auto
  have v3: "valid_index s3 i" using s2(2) wf3(2) by simp
  then have i1: "i \<noteq> -1" by (auto simp: valid_index_def)
  have sv: "server s3 i = Inr (storage_servers s3 ! nat i)" using server_returns wf3(1) v3 by (simp add: ns_wf_def)
  obtain s4 where "redundantSS E i s3 = Inr (-1, s4)" using redundantSS_no_connect [OF wf3(1) v3 assms(4-6)] by blast
  then show ?thesis
    using miss(7) s3 sv i i1 by (simp add: handle_other_def server_def [of s4])
next
  case (hit j s2)
  have "wf_cache (cache s)" using assms(1) by (simp add: ns_wf_def wf_entries_def)
  with hit(1) assms(2) show ?thesis using lru.find_miss [of "cache s" path] by simp
next
  case (absent ps)
  with assms(3) show ?thesis by simp
next
  case (overrun e)
  with assms(3) show ?thesis by (simp add: resolve_def)
qed

theorem unreachable_server_faults_witness:
  "handle_other ((ok_env (\<lambda>t fd. RecvBytes []))\<lparr>sys_connect := \<lambda>t f a p. False\<rparr>) ''./a'' 3 (example_ns initialize_cache) =
   Inl OutOfBounds"
  by (rule unreachable_server_faults [OF example_wf_empty _ example_resolve(1)])
    (simp_all add: ok_env_def, simp add: example_ns_def)

section \<open>The limit on storage servers\<close>

lemma search_from_append:
  "search_from s ps (is @ js) = andthen (search_from s ps is) (\<lambda>k. if k \<noteq> -1 then Inr k else search_from s ps js)"
  by (induction "is") (simp_all add: andthen_assoc if_distrib [of "\<lambda>m. andthen m _"] cong: andthen_cong if_cong)

lemma search_from_same:
  "storage_servers s' = storage_servers s \<Longrightarrow> search_from s' ps is = search_from s ps is"
  by (induction "is") (simp_all add: server_def cong: if_cong)

text \<open>C36. An eleventh storage server is not stored, but the number of registered servers is counted up all
  the same: from then on every lookup of a path that is neither cached nor stored reads behind the end of
  the table, while it answered -1 before.\<close>

theorem registration_beyond_limit:
  assumes "ns_wf s" "storage_server_index s = MAX_STORAGE_SERVERS" "path \<notin> fst ` set (entries (cache s))"
    "ParsePath path = Inr ps" "resolve s path = None"
  shows "search_storage_server E path s = Inr (-1, s) \<and>
    (\<exists>s'. insert_server E ss s = Inr s' \<and> storage_servers s' = storage_servers s \<and>
       search_storage_server E path s' = Inl OutOfBounds)"
proof -
  have wfc: "wf_cache (cache s)" and tab: "wf_table s" and sem: "storage_semaphore s = 1"
    using assms(1) by (auto simp: ns_wf_def wf_entries_def)
  have miss: "search_cache (cache s) path = Inr None" using lru.find_miss [OF wfc, of path] assms(3) by simp
  have before: "search_storage_server E path s = Inr (-1, s)"
    using assms(1)
    by (cases rule: search_storage_server_unfold [where E = E and path = path]) (use miss assms(4,5) in auto)
  define s' where "s' = s\<lparr>storage_server_index := Suc MAX_STORAGE_SERVERS\<rparr>"
  have ins: "insert_server E ss s = Inr s'"
    using assms(2) sem by (cases s) (simp add: insert_server_def sem_wait_def sem_post_def s'_def Let_def)
  have full: "search_from s ps [0..<MAX_STORAGE_SERVERS] = Inr (-1)"
    using search_in_tries_resolve [OF tab assms(4)] assms(2,4,5) by (simp add: search_in_tries_def answer_def)
  let ?s1 = "s'\<lparr>storage_semaphore := 0\<rparr>"
  have "search_from ?s1 ps [0..<Suc MAX_STORAGE_SERVERS] = Inl OutOfBounds"
    using full search_from_same [of ?s1 s ps] by (simp add: search_from_append server_def s'_def)
  then have "search_in_tries ?s1 path = Inl OutOfBounds"
    using assms(4) by (simp add: search_in_tries_def s'_def)
  moreover have "sem_wait s' = Inr ?s1" using sem by (simp add: sem_wait_def s'_def)
  ultimately have "search_storage_server E path s' = Inl OutOfBounds"
    using miss by (simp add: search_storage_server_def s'_def)
  with before ins show ?thesis by (auto simp: s'_def)
qed

definition full_ns :: ns where
  "full_ns =
     \<lparr>net = \<lparr>clock = 0, trace = []\<rparr>, cache = initialize_cache,
      storage_servers = map (\<lambda>i. (example_server (int i) (show_nat i))\<lparr>backupServer1 := (int i + 1) mod 10,
        backupServer2 := (int i + 2) mod 10\<rparr>) [0..<MAX_STORAGE_SERVERS],
      storage_server_index = MAX_STORAGE_SERVERS, storage_semaphore = 1\<rparr>"

lemma full_ns_wf: "ns_wf full_ns"
proof -
  have "(int i + 1) mod 10 \<noteq> (int i + 2) mod 10" "(int i + 1) mod 10 \<noteq> int i" "(int i + 2) mod 10 \<noteq> int i" for i
    by presburger+
  then show ?thesis
    by (auto simp: ns_wf_def wf_table_def wf_server_def wf_entries_def replicated_def backups_ok_def backups_of_def
        full_ns_def example_server_def valid_index_def MAX_STORAGE_SERVERS_def wf_add_path)
qed

theorem registration_beyond_limit_witness:
  "search_storage_server (ok_env (\<lambda>t fd. RecvBytes [])) ''./a'' full_ns = Inr (-1, full_ns) \<and>
   (\<exists>s'. insert_server (ok_env (\<lambda>t fd. RecvBytes [])) (example_server 4 ''a'') full_ns = Inr s' \<and>
      search_storage_server (ok_env (\<lambda>t fd. RecvBytes [])) ''./a'' s' = Inl OutOfBounds)"
proof -
  have "''a'' \<noteq> show_nat i" for i
  proof
    assume "''a'' = show_nat i"
    then have "CHR ''a'' \<in> set (show_nat i)" by (metis list.set_intros(1))
    then show False using show_nat_digits [of "CHR ''a''" i] by (simp add: is_digit_def)
  qed
  then have "resolve full_ns ''./a'' = None"
    using ParsePath_examples(2)
    by (auto simp: resolve_def full_ns_def example_server_def stores_def search_add_path find_slot_None)
  with registration_beyond_limit [OF full_ns_wf _ _ ParsePath_examples(2)] show ?thesis
    by (fastforce simp: full_ns_def)
qed

end
