(* ===== verification/Nfs_Boot.thy ===== *)
theory Nfs_Boot
  imports Nfs_Net "HOL-Library.Multiset"
begin

text \<open>
  What the start-up code and the accept loops of the three programs need: system calls that make a
  listening socket, computations that may end the process with a status, labelled executions, and the
  contract of a loop that hands each connection it accepts to a thread of its own.
\<close>

section \<open>System calls\<close>

datatype accepted = AcceptErr errno | Accepted nat string int

record host =
  sys_bind :: "nat \<Rightarrow> int \<Rightarrow> int \<Rightarrow> bool"
  sys_listen :: "nat \<Rightarrow> int \<Rightarrow> bool"
  sys_accept :: "nat \<Rightarrow> int \<Rightarrow> accepted"
  sys_pthread_create :: "nat \<Rightarrow> bool"
  sys_getsockname :: "nat \<Rightarrow> int \<Rightarrow> int option"      \<comment> \<open>the port of a bound socket\<close>
  sys_gethostname :: "nat \<Rightarrow> bool"
  sys_getaddrinfo :: "nat \<Rightarrow> string list option"
  sys_system :: "nat \<Rightarrow> bool"

section \<open>Computations that may end the process\<close>

datatype stop = Exit int | Crash fault

type_synonym ('s, 'a) boot = "'s \<Rightarrow> (stop + 'a) \<times> 's"

definition goes :: "'a \<Rightarrow> ('s, 'a) boot" where
  "goes x w = (Inr x, w)"

definition ends :: "stop \<Rightarrow> ('s, 'a) boot" where
  "ends e w = (Inl e, w)"

definition next_do :: "('s, 'a) boot \<Rightarrow> ('a \<Rightarrow> ('s, 'b) boot) \<Rightarrow> ('s, 'b) boot" where
  "next_do m f w = (case m w of (Inl e, w1) \<Rightarrow> (Inl e, w1) | (Inr x, w1) \<Rightarrow> f x w1)"

definition acts :: "('s \<Rightarrow> 's) \<Rightarrow> ('s, unit) boot" where
  "acts f w = (Inr (), f w)"

text \<open>An operation that returns a value and the new state.\<close>

definition calls :: "('s \<Rightarrow> 'a \<times> 's) \<Rightarrow> ('s, 'a) boot" where
  "calls f s = (Inr (fst (f s)), snd (f s))"

text \<open>The answer of a system call.\<close>

definition asks :: "(nat \<Rightarrow> 'a) \<Rightarrow> (world, 'a) boot" where
  "asks f w = (Inr (f (clock w)), tick w)"

text \<open>A call that must succeed: otherwise the process cleans up and ends with status 1.\<close>

definition must :: "(nat \<Rightarrow> bool) \<Rightarrow> (world \<Rightarrow> world) \<Rightarrow> (world, unit) boot" where
  "must ok undo = next_do (asks ok) (\<lambda>b. if b then goes () else next_do (acts undo) (\<lambda>u. ends (Exit 1)))"

text \<open>\<^verbatim>\<open>socket\<close> is compared with 0, which is not the value it returns on failure.\<close>

definition new_socket :: "env \<Rightarrow> (world \<Rightarrow> world) \<Rightarrow> (world, int) boot" where
  "new_socket E undo =
     next_do (asks (sys_socket E)) (\<lambda>sk. if sk = 0 then next_do (acts undo) (\<lambda>u. ends (Exit 1)) else goes sk)"

text \<open>The computation ends with a value and a world that satisfy \<open>Q\<close>, or the process ends with a status and a
  world that satisfy \<open>R\<close>.\<close>

definition boots :: "('s, 'a) boot \<Rightarrow> (stop \<Rightarrow> 's \<Rightarrow> bool) \<Rightarrow> ('a \<Rightarrow> 's \<Rightarrow> bool) \<Rightarrow> 's \<Rightarrow> bool" where
  "boots m R Q w = (case m w of (Inl e, w1) \<Rightarrow> R e w1 | (Inr x, w1) \<Rightarrow> Q x w1)"

named_theorems boot_simps \<open>what the steps of a start-up do\<close>

lemma boots_goes [boot_simps]: "boots (goes x) R Q w = Q x w"
  and boots_ends [boot_simps]: "boots (ends e) R Q w = R e w"
  by (simp_all add: boots_def goes_def ends_def)

lemma boots_next [boot_simps]: "boots (next_do m f) R Q w = boots m R (\<lambda>x. boots (f x) R Q) w"
  by (auto simp: boots_def next_do_def split: prod.splits sum.splits)

lemma boots_acts [boot_simps]: "boots (acts g) R Q w = Q () (g w)"
  by (simp add: boots_def acts_def)

lemma boots_calls [boot_simps]: "boots (calls f) R Q w = Q (fst (f w)) (snd (f w))"
  by (simp add: boots_def calls_def)

lemma boots_asks [boot_simps]: "boots (asks q) R Q w = Q (q (clock w)) (tick w)"
  by (simp add: boots_def asks_def)

lemma boots_sees [boot_simps]: "boots (\<lambda>w. goes (g w) w) R Q w = Q (g w) w"
  by (simp add: boots_def goes_def)

lemma boots_must [boot_simps]:
  "boots (must q undo) R Q w = (if q (clock w) then Q () (tick w) else R (Exit 1) (undo (tick w)))"
  by (simp add: must_def boot_simps)

lemma boots_if [boot_simps]: "boots (if b then m else m') R Q w = (if b then boots m R Q w else boots m' R Q w)"
  by simp

lemma boots_run: "boots m R Q w \<Longrightarrow> m w = (Inr x, w') \<Longrightarrow> Q x w'"
  by (simp add: boots_def)

lemma bootsI: "(\<And>x w'. m w = (Inr x, w') \<Longrightarrow> Q x w') \<Longrightarrow> (\<And>e w'. m w = (Inl e, w') \<Longrightarrow> R e w') \<Longrightarrow> boots m R Q w"
  by (auto simp: boots_def split: prod.splits sum.splits)

text \<open>Rules that forget the world between the steps.\<close>

lemma boots_mono: "boots m R P w \<Longrightarrow> (\<And>x w'. P x w' \<Longrightarrow> Q x w') \<Longrightarrow> boots m R Q w"
  by (auto simp: boots_def split: prod.splits sum.splits)

lemma boots_seqI:
  "boots m R (\<lambda>x w'. True) w \<Longrightarrow> (\<And>x w'. boots (f x) R Q w') \<Longrightarrow> boots (next_do m f) R Q w"
  unfolding boots_next by (erule boots_mono)

lemma boots_mustI: "(\<And>w'. R (Exit 1) w') \<Longrightarrow> boots (must q undo) R (\<lambda>x w'. True) w"
  by (simp add: boots_must)

text \<open>A host on which every call succeeds, for the examples.\<close>

definition calm_host :: "(nat \<Rightarrow> nat) \<Rightarrow> host" where
  "calm_host f = \<lparr>sys_bind = (\<lambda>t fd p. True), sys_listen = (\<lambda>t fd. True), sys_accept = (\<lambda>t fd. Accepted (f t) ''10.0.0.5'' 4000),
     sys_pthread_create = (\<lambda>t. True), sys_getsockname = (\<lambda>t fd. Some 5000), sys_gethostname = (\<lambda>t. True),
     sys_getaddrinfo = (\<lambda>t. Some [''10.0.0.6'']), sys_system = (\<lambda>t. True)\<rparr>"

lemma calm_host_simps [simp]:
  "sys_bind (calm_host f) t fd p" "sys_listen (calm_host f) t fd" "sys_accept (calm_host f) t fd = Accepted (f t) ''10.0.0.5'' 4000"
  "sys_pthread_create (calm_host f) t" "sys_getsockname (calm_host f) t fd = Some 5000" "sys_gethostname (calm_host f) t"
  "sys_getaddrinfo (calm_host f) t = Some [''10.0.0.6'']" "sys_system (calm_host f) t"
  by (simp_all add: calm_host_def)

section \<open>Labelled executions\<close>

inductive runs :: "('s \<Rightarrow> 'l \<Rightarrow> 's \<Rightarrow> bool) \<Rightarrow> 's \<Rightarrow> 'l list \<Rightarrow> 's \<Rightarrow> bool" for step where
  runs_Nil: "runs step s [] s"
| runs_snoc: "runs step s ls s' \<Longrightarrow> step s' l s'' \<Longrightarrow> runs step s (ls @ [l]) s''"

lemma runs_reach: "runs step s ls s' \<Longrightarrow> init s \<Longrightarrow> reach init step s'"
  by (induction rule: runs.induct) (auto intro: reach_init reach_step)

section \<open>Handing connections to threads\<close>

text \<open>A loop accepts connections and starts a thread for each; a thread begins later. \<open>queued\<close> are the
  connections whose thread has not begun.\<close>

fun opt_mset :: "'v option \<Rightarrow> 'v multiset" where
  "opt_mset None = {#}"
| "opt_mset (Some v) = {#v#}"

definition noted :: "('l \<Rightarrow> 'v option) \<Rightarrow> 'l list \<Rightarrow> 'v multiset" where
  "noted f ls = sum_list (map (\<lambda>l. opt_mset (f l)) ls)"

lemma noted_simps [simp]: "noted f [] = {#}" "noted f (ls @ [l]) = noted f ls + opt_mset (f l)"
  by (simp_all add: noted_def)

locale handover =
  fixes step :: "'s \<Rightarrow> 'l \<Rightarrow> 's \<Rightarrow> bool"
    and handed begun :: "'l \<Rightarrow> 'v option"
    and queued :: "'s \<Rightarrow> 'v multiset"
  assumes keeps: "step s l s' \<Longrightarrow> queued s + opt_mset (handed l) = queued s' + opt_mset (begun l)"
begin

lemma accounts: "runs step s ls s' \<Longrightarrow> queued s + noted handed ls = queued s' + noted begun ls"
proof (induction rule: runs.induct)
  case (runs_Nil s)
  show ?case by simp
next
  case (runs_snoc s ls s' l s'')
  have "queued s + noted handed (ls @ [l]) = queued s' + noted begun ls + opt_mset (handed l)"
    using runs_snoc.IH by (simp add: ac_simps)
  also have "\<dots> = queued s'' + noted begun (ls @ [l])" using keeps [OF runs_snoc.hyps(2)] by (simp add: ac_simps)
  finally show ?case .
qed

text \<open>No thread serves a connection that was not accepted, and none is served more often than accepted.\<close>

lemma begun_subset: "runs step s ls s' \<Longrightarrow> queued s = {#} \<Longrightarrow> noted begun ls \<subseteq># noted handed ls"
  using accounts by (metis add_0 mset_subset_eq_add_right)

lemma all_served: "runs step s ls s' \<Longrightarrow> queued s = {#} \<Longrightarrow> queued s' = {#} \<Longrightarrow> noted begun ls = noted handed ls"
  using accounts by fastforce

end

end
