(* ===== verification/Ns_Main.thy ===== *)
theory Ns_Main
  imports Ns_Properties Nfs_Boot
begin

text \<open>
  The naming server as a program: \<^verbatim>\<open>main\<close> of \<^verbatim>\<open>naming_server.c\<close>, the threads
  \<^verbatim>\<open>handle_ss\<close> and \<^verbatim>\<open>handling_client\<close> it starts, the three accept loops, the threads these
  start, and the signal handlers. A thread gets its argument as the code passes it: a registration by
  a block of its own, a session and a notification by the address of the variable of the accept loop, which is
  read when the thread begins.
\<close>

section \<open>Start-up\<close>

definition close_both :: "int \<Rightarrow> int \<Rightarrow> world \<Rightarrow> world" where
  "close_both sk_ss sk_client w = close sk_client (close sk_ss w)"

definition handle_ctrl_z :: "world \<Rightarrow> world" where
  "handle_ctrl_z = emit (Stdout (CHR 0x1B # ''[H'' @ CHR 0x1B # ''[J''))"

definition ctrlCHandler :: "int \<Rightarrow> int \<Rightarrow> int \<Rightarrow> (world, unit) boot" where
  "ctrlCHandler sk_ss sk_client sig =
     next_do (acts (\<lambda>w. emit (Stdout (''Server socket closed.'' @ newline)) (close sk_ss (close sk_client
       (emit (Stdout (newline @ ''Caught signal '' @ show_int sig @ '', cleaning up and exiting...'' @ newline)) w))))) (\<lambda>u. ends (Exit 0))"

text \<open>The first part of each thread of \<^verbatim>\<open>main\<close>, before its loop.\<close>

definition handle_ss :: "host \<Rightarrow> int \<Rightarrow> int \<Rightarrow> (world, unit) boot" where
  "handle_ss H sk_ss sk_client =
     next_do (must (\<lambda>t. sys_bind H t sk_ss SERVER_PORT) (\<lambda>w. close_both sk_ss sk_client (printErrorDetails 41 w))) (\<lambda>u.
     next_do (acts (emit (Bound sk_ss SERVER_PORT))) (\<lambda>u.
     next_do (must (\<lambda>t. sys_listen H t sk_ss) (\<lambda>w. close_both sk_ss sk_client (printErrorDetails 40 w))) (\<lambda>u.
     acts (\<lambda>w. emit (Stdout (''Naming Server for SS is running on port '' @ show_int SERVER_PORT @ ''...'' @ newline))
       (emit (Listening sk_ss) w)))))"

definition handling_client :: "host \<Rightarrow> int \<Rightarrow> int \<Rightarrow> (world, unit) boot" where
  "handling_client H sk_ss sk_client =
     next_do (must (\<lambda>t. sys_bind H t sk_client CLIENT_PORT_NS) (\<lambda>w. close_both sk_ss sk_client (printErrorDetails 41 w))) (\<lambda>u.
     next_do (acts (\<lambda>w. emit (Stdout (''Naming Server for client is running on port '' @ show_int CLIENT_PORT_NS @ ''...'' @ newline))
       (emit (Bound sk_client CLIENT_PORT_NS) w))) (\<lambda>u.
     next_do (must (\<lambda>t. sys_listen H t sk_client) (\<lambda>w. close_both sk_ss sk_client (printErrorDetails 40 w))) (\<lambda>u.
     acts (emit (Listening sk_client)))))"

text \<open>A thread that cannot be created leaves its socket closed, and the program goes on.\<close>

definition new_thread :: "host \<Rightarrow> int \<Rightarrow> int \<Rightarrow> (world, bool) boot" where
  "new_thread H sk_ss sk_client =
     next_do (asks (sys_pthread_create H)) (\<lambda>made.
       if made then goes True
       else next_do (acts (\<lambda>w. close_both sk_ss sk_client (printErrorDetails 43 w))) (\<lambda>u. goes False))"

definition clear_log :: "env \<Rightarrow> (world, unit) boot" where
  "clear_log E = next_do (asks (sys_log_open E)) (\<lambda>ok. if ok then acts (emit Log_cleared) else ends (Crash NullDeref))"

definition async_listener_up :: "env \<Rightarrow> host \<Rightarrow> (world, int) boot" where
  "async_listener_up E H =
     next_do (new_socket E id) (\<lambda>sk.
     next_do (must (sys_setsockopt E) (close sk)) (\<lambda>u.
     next_do (must (sys_setsockopt E) (close sk)) (\<lambda>u.
     next_do (must (\<lambda>t. sys_bind H t sk ASYNC_PORT_FOR_NM) (close sk)) (\<lambda>u.
     next_do (acts (emit (Bound sk ASYNC_PORT_FOR_NM))) (\<lambda>u.
     next_do (must (\<lambda>t. sys_listen H t sk) (close sk)) (\<lambda>u.
     next_do (acts (emit (Listening sk))) (\<lambda>u. goes sk)))))))"

datatype phase = Missing | Created | Looping

record ns_run =
  ns_of :: ns
  ss_listener :: int
  client_listener :: int
  async_listener :: int
  ss_phase :: phase
  client_phase :: phase
  registering :: "connection_info list"  \<comment> \<open>the blocks of registrations that have not begun\<close>
  client_var :: int                      \<comment> \<open>\<^verbatim>\<open>client_socket\<close> of \<^verbatim>\<open>handling_client\<close>\<close>
  new_sessions :: nat                    \<comment> \<open>threads that have not read it\<close>
  serving :: "int list"
  async_var :: int                       \<comment> \<open>\<^verbatim>\<open>client_socket\<close> of \<^verbatim>\<open>main\<close>\<close>
  new_notes :: nat

text \<open>The four options of the two sockets.\<close>

definition set_options :: "env \<Rightarrow> int \<Rightarrow> int \<Rightarrow> (world, unit) boot" where
  "set_options E sk_ss sk_client =
     next_do (must (sys_setsockopt E) (\<lambda>w. close_both sk_ss sk_client (printErrorDetails 44 w))) (\<lambda>u.
     next_do (must (sys_setsockopt E) (\<lambda>w. close_both sk_ss sk_client (printErrorDetails 44 w))) (\<lambda>u.
     next_do (must (sys_setsockopt E) (\<lambda>w. close_both sk_ss sk_client (printErrorDetails 44 w))) (\<lambda>u.
     must (sys_setsockopt E) (\<lambda>w. close_both sk_ss sk_client (printErrorDetails 44 w)))))"

definition ns_running :: "int \<Rightarrow> int \<Rightarrow> int \<Rightarrow> bool \<Rightarrow> bool \<Rightarrow> world \<Rightarrow> ns_run" where
  "ns_running sk_ss sk_client sk_async thread_ss thread_client w =
     \<lparr>ns_of = ns_init w, ss_listener = sk_ss, client_listener = sk_client, async_listener = sk_async,
      ss_phase = (if thread_ss then Created else Missing), client_phase = (if thread_client then Created else Missing),
      registering = [], client_var = 0, new_sessions = 0, serving = [], async_var = 0, new_notes = 0\<rparr>"

definition ns_main :: "env \<Rightarrow> host \<Rightarrow> (world, ns_run) boot" where
  "ns_main E H =
     next_do (clear_log E) (\<lambda>u.
     next_do (new_socket E (printErrorDetails 7)) (\<lambda>sk_ss.
     next_do (new_socket E (printErrorDetails 7)) (\<lambda>sk_client.
     next_do (set_options E sk_ss sk_client) (\<lambda>u.
     next_do (new_thread H sk_ss sk_client) (\<lambda>thread_ss.
     next_do (new_thread H sk_ss sk_client) (\<lambda>thread_client.
     next_do (async_listener_up E H) (\<lambda>sk_async w. goes (ns_running sk_ss sk_client sk_async thread_ss thread_client w) w)))))))"

section \<open>Accept loops\<close>

text \<open>One iteration each: the connection for which a thread was started.\<close>

definition handle_ss_accept :: "env \<Rightarrow> host \<Rightarrow> int \<Rightarrow> world \<Rightarrow> (connection_info option \<times> world) result" where
  "handle_ss_accept E H fd w =
     (case sys_accept H (clock w) fd of
        AcceptErr e \<Rightarrow> Inr (None, if e = EAGAIN \<or> e = EWOULDBLOCK then tick w else printErrorDetails 42 (tick w))
      | Accepted sk adr prt \<Rightarrow>
          andthen (log_line E adr prt (''Received registration data from Storage Server with fd ['' @ show_int (int sk) @ '']'')
            (emit (Stdout (''SS Server connected - Socket: '' @ show_int (int sk) @ '', IP: '' @ adr @ '', Port: '' @ show_int prt @ newline)) (tick w)))
            (\<lambda>w1. if sys_pthread_create H (clock w1) then Inr (Some \<lparr>socket = int sk, ip = adr, port = prt\<rparr>, tick w1)
                   else Inr (None, close (int sk) (printErrorDetails 43 (tick w1)))))"

text \<open>The value of \<^verbatim>\<open>client_socket\<close> afterwards, and whether a thread was given its address.\<close>

definition handling_client_accept :: "env \<Rightarrow> host \<Rightarrow> int \<Rightarrow> world \<Rightarrow> ((int \<times> bool) \<times> world) result" where
  "handling_client_accept E H fd w =
     (case sys_accept H (clock w) fd of
        AcceptErr e \<Rightarrow> Inr ((-1, False), if e = EAGAIN \<or> e = EWOULDBLOCK then tick w else printErrorDetails 42 (tick w))
      | Accepted sk adr prt \<Rightarrow>
          andthen (log_line E adr prt (''Accepted connection from Client fd['' @ show_int (int sk) @ '']'')
            (emit (Stdout (''Got a client'' @ newline)) (tick w)))
            (\<lambda>w1. if sys_pthread_create H (clock w1) then Inr ((int sk, True), tick w1)
                   else Inr ((int sk, False), close (int sk) (printErrorDetails 43 (tick w1)))))"

definition async_accept :: "host \<Rightarrow> int \<Rightarrow> world \<Rightarrow> (int \<times> bool) \<times> world" where
  "async_accept H fd w =
     (case sys_accept H (clock w) fd of
        AcceptErr e \<Rightarrow> ((-1, False), tick w)
      | Accepted sk adr prt \<Rightarrow> ((int sk, sys_pthread_create H (Suc (clock w))), tick (tick w)))"

section \<open>The running program\<close>

datatype run_label =
    Up | CtrlZ | SsAccept "connection_info option" | ClientAccept "int option" | NoteAccept "int option"
  | Registers connection_info | SessionBegins int | Serves int bool | Notes int

abbreviation on_net :: "world \<Rightarrow> ns_run \<Rightarrow> ns_run" where
  "on_net w r \<equiv> r\<lparr>ns_of := (ns_of r)\<lparr>net := w\<rparr>\<rparr>"

inductive ns_run_step :: "ns_run \<Rightarrow> run_label \<Rightarrow> ns_run \<Rightarrow> bool" where
  ss_up: "ss_phase r = Created \<Longrightarrow> handle_ss H (ss_listener r) (client_listener r) (net (ns_of r)) = (Inr u, w) \<Longrightarrow>
    ns_run_step r Up ((on_net w r)\<lparr>ss_phase := Looping\<rparr>)"
| client_up: "client_phase r = Created \<Longrightarrow> handling_client H (ss_listener r) (client_listener r) (net (ns_of r)) = (Inr u, w) \<Longrightarrow>
    ns_run_step r Up ((on_net w r)\<lparr>client_phase := Looping\<rparr>)"
| ss_accept: "ss_phase r = Looping \<Longrightarrow> handle_ss_accept E H (ss_listener r) (net (ns_of r)) = Inr (got, w) \<Longrightarrow>
    ns_run_step r (SsAccept got) ((on_net w r)\<lparr>registering := registering r @ (case got of None \<Rightarrow> [] | Some ci \<Rightarrow> [ci])\<rparr>)"
| client_accept: "client_phase r = Looping \<Longrightarrow> handling_client_accept E H (client_listener r) (net (ns_of r)) = Inr ((v, started), w) \<Longrightarrow>
    ns_run_step r (ClientAccept (if started then Some v else None))
      ((on_net w r)\<lparr>client_var := v, new_sessions := new_sessions r + (if started then 1 else 0)\<rparr>)"
| note_accept: "async_accept H (async_listener r) (net (ns_of r)) = ((v, started), w) \<Longrightarrow>
    ns_run_step r (NoteAccept (if started then Some v else None))
      ((on_net w r)\<lparr>async_var := v, new_notes := new_notes r + (if started then 1 else 0)\<rparr>)"
| registers: "registering r = as @ ci # bs \<Longrightarrow> storage_server_index (ns_of r) < MAX_STORAGE_SERVERS \<Longrightarrow>
    register_storage_server E n ci (ns_of r) = Inr s' \<Longrightarrow>
    ns_run_step r (Registers ci) (r\<lparr>ns_of := s', registering := as @ bs\<rparr>)"
| session_begins: "new_sessions r = Suc m \<Longrightarrow>
    ns_run_step r (SessionBegins (client_var r)) (r\<lparr>new_sessions := m, serving := client_var r # serving r\<rparr>)"
| serves: "fd \<in> set (serving r) \<Longrightarrow> serve_command E n fd (ns_of r) = Inr (go, s') \<Longrightarrow>
    ns_run_step r (Serves fd go) (r\<lparr>ns_of := s', serving := (if go then serving r else remove1 fd (serving r))\<rparr>)"
| notification_begins: "new_notes r = Suc m \<Longrightarrow> listen_async E (async_var r) (ns_of r) = Inr s' \<Longrightarrow>
    ns_run_step r (Notes (async_var r)) (r\<lparr>ns_of := s', new_notes := m\<rparr>)"
| ctrl_z: "ns_run_step r CtrlZ (on_net (handle_ctrl_z (net (ns_of r))) r)"

inductive_cases ns_run_stepE: "ns_run_step r l r'"

definition ns_run_start :: "ns_run \<Rightarrow> bool" where
  "ns_run_start r \<longleftrightarrow> (\<exists>E H w w'. ns_main E H w = (Inr r, w'))"

section \<open>Invariant\<close>

text \<open>How \<^verbatim>\<open>main\<close> may end before its accept loop.\<close>

definition gives_up :: "env \<Rightarrow> nat \<Rightarrow> stop \<Rightarrow> world \<Rightarrow> bool" where
  "gives_up E t e w \<longleftrightarrow> e = Exit 1 \<or> e = Crash NullDeref \<and> \<not> sys_log_open E t"

lemma gives_up_Exit [simp]: "gives_up E t (Exit 1) w"
  by (simp add: gives_up_def)

lemma ns_main_parts:
  "boots (clear_log E) (gives_up E (clock w)) (\<lambda>u w'. True) w"
  "boots (new_socket E undo) (gives_up E t) (\<lambda>u w'. True) w"
  "boots (new_thread H a b) (gives_up E t) (\<lambda>u w'. True) w"
  "boots (set_options E a b) (gives_up E t) (\<lambda>u w'. True) w"
  by (simp_all add: clear_log_def new_socket_def new_thread_def set_options_def boot_simps) (simp add: gives_up_def)

lemma async_listener_boots:
  "boots (async_listener_up E H) (gives_up E t)
     (\<lambda>sk w'. Bound sk ASYNC_PORT_FOR_NM \<in> set (trace w') \<and> Listening sk \<in> set (trace w')) w"
  unfolding async_listener_up_def
  by (rule boots_seqI, rule ns_main_parts, rule boots_seqI, rule boots_mustI, simp, rule boots_seqI, rule boots_mustI, simp)
    (simp add: boot_simps)

lemma ns_main_boots:
  "boots (ns_main E H) (gives_up E (clock w))
     (\<lambda>r w'. ns_of r = ns_init w' \<and> registering r = [] \<and> new_sessions r = 0 \<and> new_notes r = 0 \<and> serving r = [] \<and>
        Bound (async_listener r) ASYNC_PORT_FOR_NM \<in> set (trace w') \<and> Listening (async_listener r) \<in> set (trace w')) w"
  unfolding ns_main_def
  by (rule boots_seqI, rule ns_main_parts)+
    (subst boots_next, rule boots_mono, rule async_listener_boots, simp add: boot_simps ns_running_def)

lemma ns_run_startD:
  assumes "ns_run_start r"
  shows "ns_wf (ns_of r)" "registering r = []" "new_sessions r = 0" "serving r = []"
  using assms boots_run [OF ns_main_boots] by (auto simp: ns_run_start_def ns_wf_init)

lemma ns_run_step_wf: "ns_wf (ns_of r) \<Longrightarrow> ns_run_step r l r' \<Longrightarrow> ns_wf (ns_of r')"
proof (erule ns_run_stepE, goal_cases)
  case (6 as ci bs E n s')
  with register_wf [OF 6(1) 6(5), of E n ci] show ?case by simp
next
  case (8 fd E n go s')
  with ensures_serve_command [OF 8(1), of E n fd] show ?case by simp
next
  case (9 m E s')
  with ensures_listen_async [OF 9(1), of E "async_var r"] show ?case by simp
qed simp_all

interpretation ns_prog: invariant_of ns_run_start ns_run_step "\<lambda>r. ns_wf (ns_of r)"
  by unfold_locales (auto intro: ns_run_startD ns_run_step_wf)

section \<open>Which connections are served\<close>

fun accepted_ss :: "run_label \<Rightarrow> connection_info option" where
  "accepted_ss (SsAccept got) = got"
| "accepted_ss _ = None"

fun registered_ss :: "run_label \<Rightarrow> connection_info option" where
  "registered_ss (Registers ci) = Some ci"
| "registered_ss _ = None"

interpretation reg: handover ns_run_step accepted_ss registered_ss "\<lambda>r. mset (registering r)"
  by unfold_locales (erule ns_run_stepE, auto split: option.splits)

text \<open>Of sessions only the number is kept.\<close>

fun accepted_client :: "run_label \<Rightarrow> unit option" where
  "accepted_client (ClientAccept got) = map_option (\<lambda>v. ()) got"
| "accepted_client _ = None"

fun begun_session :: "run_label \<Rightarrow> unit option" where
  "begun_session (SessionBegins v) = Some ()"
| "begun_session _ = None"

interpretation ses: handover ns_run_step accepted_client begun_session "\<lambda>r. replicate_mset (new_sessions r) ()"
  by unfold_locales (erule ns_run_stepE, auto)

text \<open>The loop of a session is a sequence of steps of the program.\<close>

lemma process_client_runs:
  assumes "runs ns_run_step r0 ls0 r" "process_client E n k fd (ns_of r) = Inr s'" "fd \<in> set (serving r)"
  shows "\<exists>ls. runs ns_run_step r0 ls (r\<lparr>ns_of := s', serving := remove1 fd (serving r)\<rparr>)"
  using assms
proof (induction k arbitrary: r ls0)
  case 0
  then show ?case by simp
next
  case (Suc k)
  from Suc.prems(2) obtain go s1 where s1: "serve_command E n fd (ns_of r) = Inr (go, s1)"
    "(if go then process_client E n k fd s1 else Inr s1) = Inr s'" by auto
  note go = runs_snoc [OF Suc.prems(1) serves [OF Suc.prems(3) s1(1)]]
  show ?case
  proof (cases go)
    case True
    have "\<exists>ls. runs ns_run_step r0 ls ((r\<lparr>ns_of := s1, serving := serving r\<rparr>)\<lparr>ns_of := s', serving := remove1 fd (serving r)\<rparr>)"
      using Suc.IH [of _ "r\<lparr>ns_of := s1, serving := serving r\<rparr>"] go s1(2) Suc.prems(3) True by simp
    then show ?thesis by simp
  next
    case False
    then have "s1 = s'" using s1(2) by simp
    with go False have "runs ns_run_step r0 (ls0 @ [Serves fd False]) (r\<lparr>ns_of := s', serving := remove1 fd (serving r)\<rparr>)" by simp
    then show ?thesis ..
  qed
qed

section \<open>Properties\<close>

lemma boots_calm [boot_simps]:
  "boots (clear_log calm_env) R Q w = Q () (emit Log_cleared (tick w))"
  "boots (set_options calm_env a b) R Q w = Q () (tick (tick (tick (tick w))))"
  by (simp_all add: clear_log_def set_options_def boot_simps)

lemma boots_calm_values [boot_simps]:
  "boots (new_socket calm_env undo) R Q w = Q 7 (tick w)"
  "boots (async_listener_up calm_env (calm_host f)) R Q w =
     Q 7 (emit (Listening 7) (tick (emit (Bound 7 ASYNC_PORT_FOR_NM) (tick (tick (tick (tick w)))))))"
  by (simp_all add: new_socket_def async_listener_up_def boot_simps)

lemma boots_calm_thread [boot_simps]: "boots (new_thread (calm_host f) a b) R Q w = Q True (tick w)"
  by (simp add: new_thread_def boot_simps)

lemma ns_main_calm:
  "\<exists>r w'. ns_main calm_env (calm_host f) w = (Inr r, w') \<and> ns_run_start r \<and> ss_phase r = Created \<and> client_phase r = Created"
proof -
  have "boots (ns_main calm_env (calm_host f)) (\<lambda>e w'. False) (\<lambda>r w'. ss_phase r = Created \<and> client_phase r = Created) w"
    by (simp add: ns_main_def boot_simps ns_running_def ns_init_def)
  then show ?thesis by (auto simp: boots_def ns_run_start_def split: prod.splits sum.splits)
qed

text \<open>A client is accepted while every call succeeds.\<close>

lemma calm_accept:
  assumes "f (clock w) < 10"
  shows "\<exists>w'. handling_client_accept calm_env (calm_host f) fd w = Inr ((int (f (clock w)), True), w') \<and> clock w' = clock w + 3"
proof -
  have "length (show_nat (f (clock w))) \<le> 1" using show_nat_length [of "f (clock w)" 1] assms by simp
  moreover have "show_int 4000 = ''4000''" by code_simp
  ultimately show ?thesis
    by (simp add: handling_client_accept_def log_line_def log_it_def sprintf_def BUFFER_SIZE_def show_int_def newline_def)
qed




lemma ss_calm_accept:
  "\<exists>w'. handle_ss_accept calm_env (calm_host (\<lambda>t. 5)) fd w = Inr (Some \<lparr>socket = 5, ip = ''10.0.0.5'', port = 4000\<rparr>, w')"
proof -
  have "show_int 4000 = ''4000''" "show_int 5 = ''5''" by code_simp+
  then show ?thesis by (simp add: handle_ss_accept_def log_line_def log_it_def sprintf_def BUFFER_SIZE_def newline_def)
qed


text \<open>C22. Sessions get the address of the variable of the accept loop instead: when a second client is
  accepted before the thread of the first has read it, both threads serve the second connection and
  the first client is never answered.\<close>

theorem session_race:
  assumes "client_phase r = Looping" "new_sessions r = 0" "serving r = []"
    "handling_client_accept E H (client_listener r) (net (ns_of r)) = Inr ((a, True), w1)"
    "handling_client_accept E H (client_listener r) w1 = Inr ((b, True), w2)"
  shows "\<exists>r'. runs ns_run_step r [ClientAccept (Some a), ClientAccept (Some b), SessionBegins b, SessionBegins b] r' \<and>
    new_sessions r' = 0 \<and> serving r' = [b, b]"
proof -
  let ?r1 = "(on_net w1 r)\<lparr>client_var := a, new_sessions := 1\<rparr>"
  let ?r2 = "(on_net w2 r)\<lparr>client_var := b, new_sessions := Suc 1\<rparr>"
  have r1: "ns_run_step r (ClientAccept (Some a)) ?r1" using client_accept [OF assms(1,4)] assms(2) by simp
  have r2: "ns_run_step ?r1 (ClientAccept (Some b)) ?r2" using client_accept [of ?r1 E H b True w2] assms(1,5) by simp
  have r3: "ns_run_step ?r2 (SessionBegins b) (?r2\<lparr>new_sessions := 1, serving := [b]\<rparr>)"
    using session_begins [of ?r2 1] assms(3) by simp
  have r4: "ns_run_step (?r2\<lparr>new_sessions := 1, serving := [b]\<rparr>) (SessionBegins b) (?r2\<lparr>new_sessions := 0, serving := [b, b]\<rparr>)"
    using session_begins [of "?r2\<lparr>new_sessions := 1, serving := [b]\<rparr>" 0] by simp
  note snoc = runs_snoc [where step = ns_run_step]
  from snoc [OF snoc [OF snoc [OF snoc [OF runs_Nil r1] r2] r3] r4] show ?thesis by fastforce
qed

theorem session_race_witness:
  "\<exists>r r'. runs ns_run_step r [ClientAccept (Some 4), ClientAccept (Some 5), SessionBegins 5, SessionBegins 5] r' \<and> serving r' = [5, 5]"
proof -
  let ?f = "\<lambda>t. if t = 14 then 4 else 5" and ?w = "\<lparr>clock = 14, trace = []\<rparr>"
  let ?r = "(ns_running 7 8 9 True True ?w)\<lparr>client_phase := Looping\<rparr>"
  have r: "client_phase ?r = Looping" "new_sessions ?r = 0" "serving ?r = []" "net (ns_of ?r) = ?w"
    by (simp_all add: ns_running_def ns_init_def)
  obtain w1 where w1: "handling_client_accept calm_env (calm_host ?f) (client_listener ?r) (net (ns_of ?r)) = Inr ((4, True), w1)" "clock w1 = 17"
    using calm_accept [of ?f ?w "client_listener ?r"] unfolding r(4) by auto
  obtain w2 where w2: "handling_client_accept calm_env (calm_host ?f) (client_listener ?r) w1 = Inr ((5, True), w2)"
    using calm_accept [of ?f w1 "client_listener ?r"] w1(2) by auto
  from session_race [OF r(1-3) w1(1) w2] show ?thesis by blast
qed

end
