(* ===== verification/Locks.thy ===== *)
theory Locks
  imports Nfs_Prelude
begin

text \<open>
  \<^verbatim>\<open>lock.c\<close>: the reader/writer/deleter lock of one file, built from a mutex and a
  condition variable. The critical sections of the six operations are functions on the lock fields;
  their interleaving by any number of threads is the step relation \<open>lock_step\<close>, with the POSIX
  rules for the mutex and the condition variable (a waiter releases the mutex, is woken by a signal,
  a broadcast or spuriously, and takes the mutex again before it tests the loop condition).
\<close>

section \<open>The lock fields\<close>

record lock_struct =
  readers :: int
  is_writing :: bool
  is_deleting :: bool
  path_to_file :: string

definition init_lock :: "string \<Rightarrow> lock_struct" where
  "init_lock path = \<lparr>readers = 0, is_writing = False, is_deleting = False, path_to_file = path\<rparr>"

text \<open>One test of the \<^verbatim>\<open>while\<close> loop of an acquire operation, with the mutex held:
  \<open>None\<close> means that the thread waits on the condition variable, \<open>Some\<close> that it leaves the loop
  and updates the field.\<close>

definition acquire_read_lock :: "lock_struct \<Rightarrow> lock_struct option" where
  "acquire_read_lock file =
     (if is_writing file \<or> is_deleting file then None
      else Some (file\<lparr>readers := readers file + 1\<rparr>))"

definition acquire_write_lock :: "lock_struct \<Rightarrow> lock_struct option" where
  "acquire_write_lock file =
     (if is_writing file \<or> is_deleting file \<or> readers file > 0 then None
      else Some (file\<lparr>is_writing := True\<rparr>))"

definition acquire_delete_lock :: "lock_struct \<Rightarrow> lock_struct option" where
  "acquire_delete_lock file =
     (if is_writing file \<or> is_deleting file \<or> readers file > 0 then None
      else Some (file\<lparr>is_deleting := True\<rparr>))"

datatype wake = WakeNone | WakeOne | WakeAll
  \<comment> \<open>no call, \<^verbatim>\<open>pthread_cond_signal\<close>, \<^verbatim>\<open>pthread_cond_broadcast\<close>\<close>

definition release_read_lock :: "lock_struct \<Rightarrow> lock_struct \<times> wake" where
  "release_read_lock file =
     (let file' = file\<lparr>readers := readers file - 1\<rparr> in
      (file', if readers file' = 0 then WakeOne else WakeNone))"

definition release_write_lock :: "lock_struct \<Rightarrow> lock_struct \<times> wake" where
  "release_write_lock file = (file\<lparr>is_writing := False\<rparr>, WakeOne)"

definition release_delete_lock :: "lock_struct \<Rightarrow> lock_struct \<times> wake" where
  "release_delete_lock file = (file\<lparr>is_deleting := False\<rparr>, WakeAll)"

datatype kind = Reader | Writer | Deleter

fun acquire :: "kind \<Rightarrow> lock_struct \<Rightarrow> lock_struct option" where
  "acquire Reader = acquire_read_lock"
| "acquire Writer = acquire_write_lock"
| "acquire Deleter = acquire_delete_lock"

fun release :: "kind \<Rightarrow> lock_struct \<Rightarrow> lock_struct \<times> wake" where
  "release Reader = release_read_lock"
| "release Writer = release_write_lock"
| "release Deleter = release_delete_lock"

lemmas lock_op_defs = acquire_read_lock_def acquire_write_lock_def acquire_delete_lock_def
  release_read_lock_def release_write_lock_def release_delete_lock_def

section \<open>Threads\<close>

datatype pc =
    Idle
  | WantAcquire kind  \<comment> \<open>in \<^verbatim>\<open>pthread_mutex_lock\<close> of an acquire operation\<close>
  | Test kind         \<comment> \<open>holds the mutex, at the loop condition\<close>
  | Waiting kind      \<comment> \<open>in \<^verbatim>\<open>pthread_cond_wait\<close>\<close>
  | Woken kind        \<comment> \<open>woken, taking the mutex again\<close>
  | Holds kind        \<comment> \<open>between acquire and release\<close>
  | WantRelease kind  \<comment> \<open>in \<^verbatim>\<open>pthread_mutex_lock\<close> of a release operation\<close>
  | Releasing kind    \<comment> \<open>holds the mutex, about to update the field\<close>

record lock_sys =
  lk :: lock_struct
  mutex :: "nat option"
  pcs :: "pc list"

fun woken :: "pc \<Rightarrow> pc" where
  "woken (Waiting k) = Woken k"
| "woken p = p"

fun is_waiting :: "pc \<Rightarrow> bool" where
  "is_waiting (Waiting k) = True"
| "is_waiting p = False"

datatype label = Call nat | Spurious nat | Step nat

inductive lock_step :: "lock_sys \<Rightarrow> label \<Rightarrow> lock_sys \<Rightarrow> bool" where
  call_acquire:
    "t < length (pcs s) \<Longrightarrow> pcs s ! t = Idle \<Longrightarrow>
     lock_step s (Call t) (s\<lparr>pcs := (pcs s)[t := WantAcquire k]\<rparr>)"
| mutex_acquire:
    "t < length (pcs s) \<Longrightarrow> pcs s ! t = WantAcquire k \<or> pcs s ! t = Woken k \<Longrightarrow> mutex s = None \<Longrightarrow>
     lock_step s (Step t) (s\<lparr>mutex := Some t, pcs := (pcs s)[t := Test k]\<rparr>)"
| cond_wait:
    "t < length (pcs s) \<Longrightarrow> pcs s ! t = Test k \<Longrightarrow> acquire k (lk s) = None \<Longrightarrow>
     lock_step s (Step t) (s\<lparr>mutex := None, pcs := (pcs s)[t := Waiting k]\<rparr>)"
| enter:
    "t < length (pcs s) \<Longrightarrow> pcs s ! t = Test k \<Longrightarrow> acquire k (lk s) = Some l \<Longrightarrow>
     lock_step s (Step t) (s\<lparr>lk := l, mutex := None, pcs := (pcs s)[t := Holds k]\<rparr>)"
| spurious:
    "t < length (pcs s) \<Longrightarrow> pcs s ! t = Waiting k \<Longrightarrow>
     lock_step s (Spurious t) (s\<lparr>pcs := (pcs s)[t := Woken k]\<rparr>)"
| call_release:
    "t < length (pcs s) \<Longrightarrow> pcs s ! t = Holds k \<Longrightarrow>
     lock_step s (Step t) (s\<lparr>pcs := (pcs s)[t := WantRelease k]\<rparr>)"
| mutex_release:
    "t < length (pcs s) \<Longrightarrow> pcs s ! t = WantRelease k \<Longrightarrow> mutex s = None \<Longrightarrow>
     lock_step s (Step t) (s\<lparr>mutex := Some t, pcs := (pcs s)[t := Releasing k]\<rparr>)"
| release_none:
    "t < length (pcs s) \<Longrightarrow> pcs s ! t = Releasing k \<Longrightarrow>
     release k (lk s) = (l, WakeNone) \<or> release k (lk s) = (l, WakeOne) \<and> \<not> (\<exists>p\<in>set (pcs s). is_waiting p) \<Longrightarrow>
     lock_step s (Step t) (s\<lparr>lk := l, mutex := None, pcs := (pcs s)[t := Idle]\<rparr>)"
| release_one:
    "t < length (pcs s) \<Longrightarrow> pcs s ! t = Releasing k \<Longrightarrow> release k (lk s) = (l, WakeOne) \<Longrightarrow>
     u < length (pcs s) \<Longrightarrow> pcs s ! u = Waiting k' \<Longrightarrow>
     lock_step s (Step t) (s\<lparr>lk := l, mutex := None, pcs := (pcs s)[t := Idle, u := Woken k']\<rparr>)"
| release_all:
    "t < length (pcs s) \<Longrightarrow> pcs s ! t = Releasing k \<Longrightarrow> release k (lk s) = (l, WakeAll) \<Longrightarrow>
     lock_step s (Step t) (s\<lparr>lk := l, mutex := None, pcs := map woken ((pcs s)[t := Idle])\<rparr>)"

inductive_cases lock_stepE: "lock_step s l s'"

definition lock_start :: "lock_sys \<Rightarrow> bool" where
  "lock_start s \<longleftrightarrow> (\<exists>path n. s = \<lparr>lk = init_lock path, mutex = None, pcs = replicate n Idle\<rparr>)"

section \<open>Safety\<close>

fun has :: "kind \<Rightarrow> pc \<Rightarrow> bool" where
  "has k (Holds k') = (k = k')"
| "has k (WantRelease k') = (k = k')"
| "has k (Releasing k') = (k = k')"
| "has k p = False"

fun in_mutex :: "pc \<Rightarrow> bool" where
  "in_mutex (Test k) = True"
| "in_mutex (Releasing k) = True"
| "in_mutex p = False"

text \<open>The fields of the lock agree with the number of threads that hold it in each way.\<close>

definition fields_ok :: "lock_struct \<Rightarrow> (kind \<Rightarrow> nat) \<Rightarrow> bool" where
  "fields_ok l n \<longleftrightarrow>
     readers l = int (n Reader) \<and> n Writer = (if is_writing l then 1 else 0) \<and>
     n Deleter = (if is_deleting l then 1 else 0) \<and> \<not> (is_writing l \<and> is_deleting l) \<and>
     (is_writing l \<or> is_deleting l \<longrightarrow> n Reader = 0)"

definition holders :: "lock_sys \<Rightarrow> kind \<Rightarrow> nat" where
  "holders s k = count_where (has k) (pcs s)"

definition mutex_ok :: "lock_sys \<Rightarrow> bool" where
  "mutex_ok s \<longleftrightarrow>
     (\<forall>t<length (pcs s). in_mutex (pcs s ! t) \<longleftrightarrow> mutex s = Some t) \<and>
     (\<forall>t. mutex s = Some t \<longrightarrow> t < length (pcs s))"

definition lock_inv :: "lock_sys \<Rightarrow> bool" where
  "lock_inv s \<longleftrightarrow> fields_ok (lk s) (holders s) \<and> mutex_ok s"

lemma fields_ok_acquire:
  "acquire k l = Some l' \<Longrightarrow> fields_ok l n \<Longrightarrow> fields_ok l' (n(k := Suc (n k)))"
  by (cases k) (auto simp: fields_ok_def lock_op_defs split: if_splits)

lemma fields_ok_release:
  "release k l = (l', w) \<Longrightarrow> fields_ok l n \<Longrightarrow> 0 < n k \<Longrightarrow> fields_ok l' (n(k := n k - Suc 0))"
  by (cases k) (auto simp: fields_ok_def lock_op_defs Let_def of_nat_diff split: if_splits)

lemma fields_ok_blocked: "acquire k l = None \<Longrightarrow> fields_ok l n \<Longrightarrow> \<exists>k'. 0 < n k'"
proof -
  assume a: "acquire k l = None" and f: "fields_ok l n"
  from a have "is_writing l \<or> is_deleting l \<or> readers l > 0"
    by (cases k) (auto simp: lock_op_defs split: if_splits)
  with f have "0 < n Writer \<or> 0 < n Deleter \<or> 0 < n Reader" by (auto simp: fields_ok_def)
  then show ?thesis by blast
qed

lemma fields_ok_exclusive:
  "fields_ok l n \<Longrightarrow> 0 < n k \<Longrightarrow> 0 < n k' \<Longrightarrow> k \<noteq> Reader \<Longrightarrow> k = k' \<and> n k = 1"
  by (cases k; cases k') (auto simp: fields_ok_def split: if_splits)

lemma holders_upd:
  "t < length (pcs s) \<Longrightarrow>
   holders (s\<lparr>pcs := (pcs s)[t := p]\<rparr>) k =
     holders s k - (if has k (pcs s ! t) then 1 else 0) + (if has k p then 1 else 0)"
  by (simp add: holders_def count_where_upd)

lemma holders_fields [simp]:
  "holders (s\<lparr>lk := l\<rparr>) = holders s" "holders (s\<lparr>mutex := m\<rparr>) = holders s"
  "holders (s\<lparr>lk := l, pcs := ps\<rparr>) = holders (s\<lparr>pcs := ps\<rparr>)"
  "holders (s\<lparr>mutex := m, pcs := ps\<rparr>) = holders (s\<lparr>pcs := ps\<rparr>)"
  "holders (s\<lparr>lk := l, mutex := m, pcs := ps\<rparr>) = holders (s\<lparr>pcs := ps\<rparr>)"
  by (auto simp: holders_def)

lemma holders_same:
  "t < length (pcs s) \<Longrightarrow> (\<And>k. has k (pcs s ! t) = has k p) \<Longrightarrow> holders (s\<lparr>pcs := (pcs s)[t := p]\<rparr>) = holders s"
proof (rule ext)
  fix k
  assume t: "t < length (pcs s)" and same: "\<And>k. has k (pcs s ! t) = has k p"
  show "holders (s\<lparr>pcs := (pcs s)[t := p]\<rparr>) k = holders s k"
    using count_where_pos [OF t, of "has k"] same [of k] by (auto simp: holders_upd [OF t]) (simp add: holders_def)
qed

lemma holders_enter:
  "t < length (pcs s) \<Longrightarrow> pcs s ! t = Test k \<Longrightarrow>
   holders (s\<lparr>pcs := (pcs s)[t := Holds k]\<rparr>) = (holders s)(k := Suc (holders s k))"
  by (rule ext) (auto simp: holders_upd)

lemma holders_leave:
  "t < length (pcs s) \<Longrightarrow> pcs s ! t = Releasing k \<Longrightarrow>
   holders (s\<lparr>pcs := (pcs s)[t := Idle]\<rparr>) = (holders s)(k := holders s k - Suc 0) \<and> 0 < holders s k"
  using count_where_pos [of t "pcs s" "has k"] by (auto simp: fun_eq_iff holders_upd) (simp add: holders_def)

text \<open>No lost wake-up: while a thread waits, some thread holds the lock or is on its way to test the
  condition.\<close>

fun active :: "pc \<Rightarrow> bool" where
  "active Idle = False"
| "active (WantAcquire k) = False"
| "active (Waiting k) = False"
| "active p = True"

definition wake_inv :: "lock_sys \<Rightarrow> bool" where
  "wake_inv s \<longleftrightarrow>
     (\<forall>j<length (pcs s). is_waiting (pcs s ! j) \<longrightarrow> (\<exists>i<length (pcs s). active (pcs s ! i)))"

lemma has_woken [simp]: "has k (woken p) = has k p"
  by (cases p) auto

lemma in_mutex_woken [simp]: "in_mutex (woken p) = in_mutex p"
  by (cases p) auto

lemma lock_inv_start: "lock_start s \<Longrightarrow> lock_inv s"
  by (auto simp: lock_start_def lock_inv_def fields_ok_def mutex_ok_def init_lock_def holders_def count_where_0)

lemma mutex_ok_step: "mutex_ok s \<Longrightarrow> lock_step s l s' \<Longrightarrow> mutex_ok s'"
  by (erule lock_stepE) (auto simp: mutex_ok_def nth_list_update)

lemma fields_ok_step: "fields_ok (lk s) (holders s) \<Longrightarrow> lock_step s l s' \<Longrightarrow> fields_ok (lk s') (holders s')"
proof (erule lock_stepE, goal_cases)
  case (4 t k l)
  then show ?case by (simp add: holders_enter fields_ok_acquire)
next
  case (8 t k l)
  then show ?case using holders_leave [of t s k] by (auto intro: fields_ok_release)
next
  case (9 t k l u k')
  have ne: "t \<noteq> u" using 9 by auto
  have "holders (s\<lparr>pcs := (pcs s)[t := Idle, u := Woken k']\<rparr>) = holders (s\<lparr>pcs := (pcs s)[t := Idle]\<rparr>)"
    using holders_same [of u "s\<lparr>pcs := (pcs s)[t := Idle]\<rparr>" "Woken k'"] 9 ne by simp
  then show ?case using 9 holders_leave [of t s k] by (auto intro: fields_ok_release)
next
  case (10 t k l)
  have "holders (s\<lparr>pcs := map woken ((pcs s)[t := Idle])\<rparr>) = holders (s\<lparr>pcs := (pcs s)[t := Idle]\<rparr>)"
    by (rule ext) (simp add: holders_def count_where_map del: map_update)
  then show ?case using 10 holders_leave [of t s k] by (auto intro: fields_ok_release simp del: map_update)
qed (auto simp: holders_same)

interpretation lock_safe: invariant_of lock_start lock_step lock_inv
  by unfold_locales (use lock_inv_start in blast, auto simp: lock_inv_def dest: mutex_ok_step fields_ok_step)

section \<open>No lost wake-up\<close>

lemma active_has: "has k p \<Longrightarrow> active p"
  by (cases p) auto

lemma active_holder: "0 < holders s k \<Longrightarrow> \<exists>i<length (pcs s). has k (pcs s ! i) \<and> active (pcs s ! i)"
  by (auto simp: holders_def count_where_ex intro: active_has)

lemma wake_invI: "i < length (pcs s) \<Longrightarrow> active (pcs s ! i) \<Longrightarrow> wake_inv s"
  by (auto simp: wake_inv_def)

lemma release_none_wake:
  assumes "lock_inv s" "t < length (pcs s)" "pcs s ! t = Releasing k" "release k (lk s) = (l, WakeNone)"
  shows "0 < holders (s\<lparr>pcs := (pcs s)[t := Idle]\<rparr>) Reader"
proof -
  have "k = Reader" using assms(4) by (cases k) (simp_all add: lock_op_defs)
  moreover have "readers l \<noteq> 0" using assms(4) calculation by (auto simp: lock_op_defs Let_def split: if_splits)
  moreover have "fields_ok l (holders (s\<lparr>pcs := (pcs s)[t := Idle]\<rparr>))"
    using assms holders_leave [of t s k] by (auto simp: lock_inv_def intro: fields_ok_release)
  ultimately show ?thesis by (simp add: fields_ok_def)
qed

lemma wake_inv_step: "lock_inv s \<Longrightarrow> wake_inv s \<Longrightarrow> lock_step s l s' \<Longrightarrow> wake_inv s'"
proof (erule lock_stepE, goal_cases)
  case (1 t k)
  then show ?case
    unfolding wake_inv_def by (metis (no_types, lifting) active.simps(1) is_waiting.simps(3) length_list_update
        lock_sys.select_convs(3) lock_sys.surjective lock_sys.update_convs(3) nth_list_update)
next
  case (3 t k)
  then obtain k' i where i: "i < length (pcs s)" "has k' (pcs s ! i)" "active (pcs s ! i)"
    using fields_ok_blocked active_holder by (metis lock_inv_def)
  with 3 have "i \<noteq> t" by auto
  with 3 i show ?case by (intro wake_invI [of i]) simp_all
next
  case (8 t k l)
  show ?case
  proof (cases "release k (lk s) = (l, WakeNone)")
    case True
    then obtain i where "i < length (pcs s)" "active ((pcs s)[t := Idle] ! i)"
      using release_none_wake [OF 8(1) 8(5,6)] active_holder [of "s\<lparr>pcs := (pcs s)[t := Idle]\<rparr>" Reader] by auto
    with 8 show ?thesis by (intro wake_invI [of i]) simp_all
  next
    case False
    with 8 show ?thesis by (auto simp: wake_inv_def nth_list_update)
  qed
next
  case (9 t k l u k')
  then show ?case by (intro wake_invI [of u]) auto
next
  case (10 t k l)
  have "\<not> is_waiting (woken p)" for p by (cases p) auto
  with 10 show ?case by (auto simp: wake_inv_def simp del: map_update)
qed (auto intro!: wake_invI simp: nth_list_update)

interpretation lock_live: invariant_of lock_start lock_step "\<lambda>s. lock_inv s \<and> wake_inv s"
proof unfold_locales
  fix s
  assume "lock_start s"
  then show "lock_inv s \<and> wake_inv s"
    using lock_safe.inv_init [of s] by (auto simp: lock_start_def wake_inv_def)
next
  fix s l s'
  assume "lock_inv s \<and> wake_inv s" "lock_step s l s'"
  then show "lock_inv s' \<and> wake_inv s'"
    using lock_safe.inv_step wake_inv_step by blast
qed

lemma lock_step_mutex:
  assumes "u < length (pcs s)" "in_mutex (pcs s ! u)"
  shows "\<exists>s'. lock_step s (Step u) s'"
proof (cases "pcs s ! u")
  case (Test k)
  then show ?thesis
    using assms(1) lock_step.cond_wait [of u s k] lock_step.enter [of u s k] by (cases "acquire k (lk s)") blast+
next
  case (Releasing k)
  obtain l w where r: "release k (lk s) = (l, w)" by (cases "release k (lk s)")
  show ?thesis
  proof (cases "w = WakeOne \<and> (\<exists>p\<in>set (pcs s). is_waiting p)")
    case True
    then obtain v k' where "v < length (pcs s)" "pcs s ! v = Waiting k'"
      by (metis in_set_conv_nth is_waiting.elims(2))
    then show ?thesis using lock_step.release_one [OF assms(1) Releasing] r True by blast
  next
    case False
    then show ?thesis
      using lock_step.release_none [OF assms(1) Releasing] lock_step.release_all [OF assms(1) Releasing] r
      by (cases w) blast+
  qed
qed (use assms in auto)

lemma lock_progress:
  assumes inv: "lock_inv s" "wake_inv s" and t: "t < length (pcs s)" "pcs s ! t \<noteq> Idle"
  shows "\<exists>u s'. lock_step s (Step u) s'"
proof (cases "mutex s")
  case (Some u)
  with inv(1) have "u < length (pcs s)" "in_mutex (pcs s ! u)"
    by (auto simp: lock_inv_def mutex_ok_def)
  then show ?thesis using lock_step_mutex by blast
next
  case None
  have no: "\<not> in_mutex (pcs s ! i)" if "i < length (pcs s)" for i
    using inv(1) None that by (auto simp: lock_inv_def mutex_ok_def)
  have act: "\<exists>u s'. lock_step s (Step u) s'" if i: "i < length (pcs s)" "active (pcs s ! i)" for i
  proof (cases "pcs s ! i")
    case (Woken k)
    then show ?thesis using lock_step.mutex_acquire [OF i(1) _ None] Woken by blast
  next
    case (Holds k)
    then show ?thesis using lock_step.call_release [OF i(1) Holds] by blast
  next
    case (WantRelease k)
    then show ?thesis using lock_step.mutex_release [OF i(1) WantRelease None] by blast
  qed (use i no [OF i(1)] in auto)
  show ?thesis
  proof (cases "active (pcs s ! t)")
    case True
    then show ?thesis using act t by blast
  next
    case False
    then show ?thesis
    proof (cases "pcs s ! t")
      case (WantAcquire k)
      then show ?thesis using lock_step.mutex_acquire [OF t(1) _ None] WantAcquire by blast
    next
      case (Waiting k)
      then have "\<exists>i<length (pcs s). active (pcs s ! i)" using inv(2) t by (auto simp: wake_inv_def)
      then show ?thesis using act by blast
    qed (use t in auto)
  qed
qed

text \<open>Two readers hold a new lock together.\<close>

definition two_readers :: lock_sys where
  "two_readers =
     \<lparr>lk = \<lparr>readers = 2, is_writing = False, is_deleting = False, path_to_file = ''./a.txt''\<rparr>,
      mutex = None, pcs = [Holds Reader, Holds Reader]\<rparr>"

lemma reach_reader:
  assumes "reach lock_start lock_step s" "mutex s = None" "t < length (pcs s)" "pcs s ! t = Idle"
    "\<not> is_writing (lk s)" "\<not> is_deleting (lk s)"
  shows "reach lock_start lock_step (s\<lparr>lk := (lk s)\<lparr>readers := readers (lk s) + 1\<rparr>, pcs := (pcs s)[t := Holds Reader]\<rparr>)"
proof -
  let ?s1 = "s\<lparr>pcs := (pcs s)[t := WantAcquire Reader]\<rparr>"
  let ?s2 = "?s1\<lparr>mutex := Some t, pcs := (pcs ?s1)[t := Test Reader]\<rparr>"
  let ?l = "(lk s)\<lparr>readers := readers (lk s) + 1\<rparr>"
  have "reach lock_start lock_step ?s1"
    by (rule reach.reach_step [OF assms(1) lock_step.call_acquire [OF assms(3,4)]])
  then have "reach lock_start lock_step ?s2"
    by (rule reach.reach_step) (rule lock_step.mutex_acquire, use assms in auto)
  then have "reach lock_start lock_step (?s2\<lparr>lk := ?l, mutex := None, pcs := (pcs ?s2)[t := Holds Reader]\<rparr>)"
    by (rule reach.reach_step) (rule lock_step.enter, use assms in \<open>auto simp: lock_op_defs\<close>)
  moreover have "?s2\<lparr>lk := ?l, mutex := None, pcs := (pcs ?s2)[t := Holds Reader]\<rparr> =
      s\<lparr>lk := ?l, pcs := (pcs s)[t := Holds Reader]\<rparr>"
    using assms(2) by simp
  ultimately show ?thesis by metis
qed

lemma reach_two_readers: "reach lock_start lock_step two_readers"
proof -
  let ?s = "\<lparr>lk = init_lock ''./a.txt'', mutex = None, pcs = [Idle, Idle]\<rparr>"
  have "replicate 2 Idle = [Idle, Idle]" by (simp add: numeral_2_eq_2)
  then have "lock_start ?s" unfolding lock_start_def by metis
  then have r0: "reach lock_start lock_step ?s" by (rule reach.reach_init)
  have "reach lock_start lock_step (?s\<lparr>lk := (lk ?s)\<lparr>readers := readers (lk ?s) + 1\<rparr>, pcs := [Holds Reader, Idle]\<rparr>)"
    (is "reach _ _ ?t") using reach_reader [OF r0, of 0] by (simp add: init_lock_def)
  from reach_reader [OF this, of 1] show ?thesis by (simp add: init_lock_def two_readers_def)
qed

section \<open>Properties\<close>

text \<open>C14. Mutual exclusion: in every reachable state, if two different threads hold the lock then
  both are readers; no writer or deleter ever runs beside another holder.\<close>

theorem lock_mutual_exclusion:
  assumes "reach lock_start lock_step s" "i < length (pcs s)" "j < length (pcs s)" "i \<noteq> j"
    "has k (pcs s ! i)" "has k' (pcs s ! j)"
  shows "k = Reader \<and> k' = Reader"
proof -
  have inv: "fields_ok (lk s) (holders s)" using lock_safe.inv_reach [OF assms(1)] by (simp add: lock_inv_def)
  have pos: "0 < holders s k" "0 < holders s k'"
    using assms count_where_pos [of i "pcs s" "has k"] count_where_pos [of j "pcs s" "has k'"]
    by (simp_all add: holders_def)
  have one: False if "holders s k = 1" "k = k'"
    using count_where_upd [of i "pcs s" "has k" Idle] count_where_pos [of j "(pcs s)[i := Idle]" "has k"]
      assms that by (simp add: holders_def)
  show ?thesis
    using fields_ok_exclusive [OF inv pos] fields_ok_exclusive [OF inv pos(2,1)] one by (metis)
qed

theorem lock_mutual_exclusion_witness:
  "pcs two_readers ! 0 = Holds Reader \<and> pcs two_readers ! 1 = Holds Reader \<and> Reader = Reader \<and> Reader = Reader"
  using lock_mutual_exclusion [OF reach_two_readers, of 0 1 Reader Reader] by (simp add: two_readers_def)

text \<open>C27. Deadlock freedom: whenever some thread is inside an operation of the lock or holds it, some
  thread can take a step of its own (without a spurious wake-up and without a new request), so no
  wake-up is ever lost.\<close>

theorem lock_deadlock_free:
  assumes "reach lock_start lock_step s" "t < length (pcs s)" "pcs s ! t \<noteq> Idle"
  shows "\<exists>u s'. lock_step s (Step u) s'"
  using lock_live.inv_reach [OF assms(1)] lock_progress assms(2,3) by blast

theorem lock_deadlock_free_witness: "\<exists>u s'. lock_step two_readers (Step u) s'"
  by (rule lock_deadlock_free [OF reach_two_readers, of 0]) (simp_all add: two_readers_def)

end
