(* ===== verification/Posix_Fs.thy ===== *)
theory Posix_Fs
  imports Nfs_Prelude "HOL-Library.AList"
begin

text \<open>
  The file system the storage server works on: a tree of directories and files, without links, and
  the calls \<^verbatim>\<open>mkdir\<close>, \<^verbatim>\<open>rmdir\<close>, \<^verbatim>\<open>remove\<close>,
  \<^verbatim>\<open>fopen\<close> and \<^verbatim>\<open>open\<close> as the sources use them, on path strings that are
  resolved against a working directory. A call that fails is \<open>None\<close>. The contract of the calls is
  stated over the flat view \<open>kind_at\<close>, a function from paths to what is there.
\<close>

section \<open>Trees\<close>

datatype fnode = FFile string | FDir "(string \<times> fnode) list"

fun fs_get :: "fnode \<Rightarrow> string list \<Rightarrow> fnode option" where
  "fs_get n [] = Some n"
| "fs_get (FFile t) (c # cs) = None"
| "fs_get (FDir es) (c # cs) = (case map_of es c of None \<Rightarrow> None | Some m \<Rightarrow> fs_get m cs)"

text \<open>Put a node at a path whose parent exists, or remove what is there.\<close>

fun fs_put :: "string list \<Rightarrow> fnode option \<Rightarrow> fnode \<Rightarrow> fnode" where
  "fs_put [] v n = (case v of None \<Rightarrow> n | Some m \<Rightarrow> m)"
| "fs_put (c # cs) v (FFile t) = FFile t"
| "fs_put [c] v (FDir es) = FDir (case v of None \<Rightarrow> AList.delete c es | Some m \<Rightarrow> AList.update c m es)"
| "fs_put (c # d # cs) v (FDir es) =
     (case map_of es c of None \<Rightarrow> FDir es | Some m \<Rightarrow> FDir (AList.update c (fs_put (d # cs) v m) es))"

datatype entry = Absent | File string | Directory

fun kind_of :: "fnode option \<Rightarrow> entry" where
  "kind_of None = Absent"
| "kind_of (Some (FFile t)) = File t"
| "kind_of (Some (FDir es)) = Directory"

definition kind_at :: "fnode \<Rightarrow> string list \<Rightarrow> entry" where
  "kind_at n p = kind_of (fs_get n p)"

section \<open>Paths\<close>

text \<open>Follow directories from \<open>cur\<close>; the two dot names stay and go up.\<close>

fun walk :: "fnode \<Rightarrow> string list \<Rightarrow> string list \<Rightarrow> string list option" where
  "walk n cur [] = Some cur"
| "walk n cur (c # cs) =
     (if c = ''.'' then walk n cur cs
      else if c = ''..'' then walk n (butlast cur) cs
      else if kind_at n (cur @ [c]) = Directory then walk n (cur @ [c]) cs
      else None)"

text \<open>The place a path names: its parent must exist, it need not. A working directory that was removed
  resolves nothing.\<close>

definition namei :: "fnode \<Rightarrow> string list \<Rightarrow> string \<Rightarrow> string list option" where
  "namei n cwd path =
     (let cs = strtok_all ''/'' path; start = (if take 1 path = ''/'' then [] else cwd) in
      if path = [] \<or> kind_at n start \<noteq> Directory then None
      else if cs = [] then Some start
      else
        (case walk n start (butlast cs) of
           None \<Rightarrow> None
         | Some d \<Rightarrow>
             Some (if last cs = ''.'' then d else if last cs = ''..'' then butlast d else d @ [last cs])))"

definition trailing_slash :: "string \<Rightarrow> bool" where
  "trailing_slash path \<longleftrightarrow> path \<noteq> [] \<and> last path = CHR ''/''"

text \<open>A name that can stand in a directory.\<close>

definition proper :: "string \<Rightarrow> bool" where
  "proper c \<longleftrightarrow> c \<noteq> [] \<and> CHR ''/'' \<notin> set c \<and> c \<noteq> ''.'' \<and> c \<noteq> ''..''"

section \<open>Calls\<close>

definition fs_mkdir :: "fnode \<Rightarrow> string list \<Rightarrow> string \<Rightarrow> fnode option" where
  "fs_mkdir n cwd path =
     (case namei n cwd path of
        None \<Rightarrow> None
      | Some p \<Rightarrow> if kind_at n p = Absent then Some (fs_put p (Some (FDir [])) n) else None)"

definition fs_rmdir :: "fnode \<Rightarrow> string list \<Rightarrow> string \<Rightarrow> fnode option" where
  "fs_rmdir n cwd path =
     (case namei n cwd path of
        None \<Rightarrow> None
      | Some p \<Rightarrow>
          if p \<noteq> [] \<and> fs_get n p = Some (FDir []) \<and> last (strtok_all ''/'' path) \<noteq> ''.''
          then Some (fs_put p None n) else None)"

text \<open>\<^verbatim>\<open>remove\<close> unlinks a file and is \<^verbatim>\<open>rmdir\<close> for a directory.\<close>

definition fs_remove :: "fnode \<Rightarrow> string list \<Rightarrow> string \<Rightarrow> fnode option" where
  "fs_remove n cwd path =
     (case namei n cwd path of
        None \<Rightarrow> None
      | Some p \<Rightarrow>
          (case kind_at n p of
             Absent \<Rightarrow> None
           | File t \<Rightarrow> if trailing_slash path then None else Some (fs_put p None n)
           | Directory \<Rightarrow> fs_rmdir n cwd path))"

text \<open>\<^verbatim>\<open>fopen\<close> for writing: the place and the contents the stream starts from, the old ones
  with mode \<^verbatim>\<open>a\<close>, none with mode \<^verbatim>\<open>w\<close>.\<close>

definition fopen_write :: "bool \<Rightarrow> fnode \<Rightarrow> string list \<Rightarrow> string \<Rightarrow> (string list \<times> string) option" where
  "fopen_write keep n cwd path =
     (if trailing_slash path then None
      else
        (case namei n cwd path of
           None \<Rightarrow> None
         | Some p \<Rightarrow>
             (case kind_at n p of
                Absent \<Rightarrow> Some (p, [])
              | File t \<Rightarrow> Some (p, if keep then t else [])
              | Directory \<Rightarrow> None)))"

text \<open>\<^verbatim>\<open>open\<close> for reading: a directory can be opened too, but not read.\<close>

definition open_read :: "fnode \<Rightarrow> string list \<Rightarrow> string \<Rightarrow> fnode option" where
  "open_read n cwd path =
     (case namei n cwd path of
        None \<Rightarrow> None
      | Some p \<Rightarrow>
          (case fs_get n p of
             None \<Rightarrow> None
           | Some (FFile t) \<Rightarrow> if trailing_slash path then None else Some (FFile t)
           | Some (FDir es) \<Rightarrow> Some (FDir es)))"

section \<open>Lemmas\<close>

lemma fs_get_append: "fs_get n (p @ q) = (case fs_get n p of None \<Rightarrow> None | Some m \<Rightarrow> fs_get m q)"
  by (induction n p rule: fs_get.induct) (auto split: option.splits)

lemma kind_at_simps [simp]:
  "kind_at n [] \<noteq> Absent" "kind_at (FFile t) (c # cs) = Absent"
  "kind_at (FDir es) (c # cs) = (case map_of es c of None \<Rightarrow> Absent | Some m \<Rightarrow> kind_at m cs)"
  by (cases n; simp add: kind_at_def split: option.split)+

lemma kind_of_iff [simp]:
  "kind_of v = Absent \<longleftrightarrow> v = None" "kind_of v = Directory \<longleftrightarrow> (\<exists>es. v = Some (FDir es))"
  "kind_of v = File t \<longleftrightarrow> v = Some (FFile t)"
  by (cases v rule: kind_of.cases; simp)+

text \<open>What is above something is a directory, and nothing is below a file.\<close>

lemma above_directory: "kind_at n (p @ q) \<noteq> Absent \<Longrightarrow> q \<noteq> [] \<Longrightarrow> kind_at n p = Directory"
  by (cases q) (auto simp: kind_at_def fs_get_append split: option.splits elim!: fs_get.elims)

lemma below_absent: "kind_at n p = Absent \<Longrightarrow> kind_at n (p @ q) = Absent"
  by (simp add: kind_at_def fs_get_append)

lemma butlast_directory: "kind_at n p = Directory \<Longrightarrow> kind_at n (butlast p) = Directory"
  using above_directory [of n "butlast p" "[last p]"] by (cases "p = []") simp_all

lemma walk_directory: "kind_at n cur = Directory \<Longrightarrow> walk n cur cs = Some d \<Longrightarrow> kind_at n d = Directory"
  by (induction cs arbitrary: cur) (auto split: if_splits intro: butlast_directory)

lemma namei_cases:
  assumes "namei n cwd path = Some p"
  obtains (known) "kind_at n p = Directory" |
    (below) d where "p = d @ [last (strtok_all ''/'' path)]" "kind_at n d = Directory" "proper (last (strtok_all ''/'' path))"
proof -
  let ?start = "if take 1 path = ''/'' then [] else cwd" and ?cs = "strtok_all ''/'' path"
  have start: "kind_at n ?start = Directory" using assms by (auto simp: namei_def Let_def split: if_splits)
  show thesis
  proof (cases "?cs = []")
    case True
    then have "p = ?start" using assms by (auto simp: namei_def Let_def split: if_splits)
    then show thesis using start known by simp
  next
    case False
    then obtain d where d: "walk n ?start (butlast ?cs) = Some d"
        "p = (if last ?cs = ''.'' then d else if last ?cs = ''..'' then butlast d else d @ [last ?cs])"
      using assms by (auto simp: namei_def Let_def split: if_splits option.splits)
    have dir: "kind_at n d = Directory" by (rule walk_directory [OF start d(1)])
    have "last ?cs \<noteq> [] \<and> CHR ''/'' \<notin> set (last ?cs)"
      using strtok_all_tokens [of "last ?cs" "''/''" path] last_in_set [OF False] by auto
    then show thesis
      using d(2) dir known below [of d] butlast_directory [OF dir] by (auto simp: proper_def split: if_splits)
  qed
qed

lemma namei_parent:
  assumes "namei n cwd path = Some p" "kind_at n p \<noteq> Directory"
  shows "p \<noteq> []" "kind_at n (butlast p) = Directory" "proper (last p)"
  using assms(2) by (cases rule: namei_cases [OF assms(1)]; simp)+

lemma walk_append: "walk n cur (cs @ ds) = (case walk n cur cs of None \<Rightarrow> None | Some d \<Rightarrow> walk n d ds)"
  by (induction cs arbitrary: cur) simp_all

text \<open>An entry of a directory is named by the path of the directory, a slash and the name.\<close>

lemma namei_child:
  assumes "namei n cwd path = Some p" "kind_at n p = Directory" "proper c"
  shows "namei n cwd (path @ ''/'' @ c) = Some (p @ [c])"
proof -
  let ?start = "if take 1 path = ''/'' then [] else cwd" and ?cs = "strtok_all ''/'' path"
  have path: "path \<noteq> []" "kind_at n ?start = Directory" using assms(1) by (auto simp: namei_def Let_def split: if_splits)
  have toks: "strtok_all ''/'' (path @ ''/'' @ c) = ?cs @ [c]"
    using strtok_all_append [of "CHR ''/''" "''/''" path c] strtok_all_word(2) [of c "''/''" "CHR ''/''"] assms(3)
    by (simp add: proper_def)
  have start: "(if take 1 (path @ ''/'' @ c) = ''/'' then [] else cwd) = ?start" using path(1) by (cases path) simp_all
  have "walk n ?start ?cs = Some p"
  proof (cases "?cs = []")
    case True
    then show ?thesis using assms(1) by (auto simp: namei_def Let_def split: if_splits)
  next
    case False
    have "walk n ?start ?cs = walk n ?start (butlast ?cs @ [last ?cs])" using False by simp
    also have "\<dots> = Some p"
      using assms(1,2) False unfolding walk_append by (auto simp: namei_def Let_def split: if_splits option.splits)
    finally show ?thesis .
  qed
  then show ?thesis using path assms(3) unfolding namei_def Let_def toks start by (simp add: proper_def)
qed

section \<open>Well-formed trees\<close>

fun wf_fs :: "fnode \<Rightarrow> bool" where
  "wf_fs (FFile t) = True"
| "wf_fs (FDir es) = (distinct (map fst es) \<and> (\<forall>(c, m)\<in>set es. proper c \<and> wf_fs m))"

lemma set_update: "(c, m) \<in> set (AList.update d v es) \<Longrightarrow> (c = d \<and> m = v) \<or> (c, m) \<in> set es"
  by (induction es) (auto split: if_splits)

lemma wf_fs_update: "wf_fs (FDir es) \<Longrightarrow> proper c \<Longrightarrow> wf_fs m \<Longrightarrow> wf_fs (FDir (AList.update c m es))"
  by (auto simp: distinct_update dest!: set_update)

lemma wf_fs_get: "wf_fs n \<Longrightarrow> fs_get n p = Some m \<Longrightarrow> wf_fs m"
  by (induction n p rule: fs_get.induct) (auto dest!: map_of_SomeD split: option.splits)

lemma wf_fs_put: "wf_fs n \<Longrightarrow> p \<noteq> [] \<Longrightarrow> proper (last p) \<Longrightarrow> (\<And>m. v = Some m \<Longrightarrow> wf_fs m) \<Longrightarrow> wf_fs (fs_put p v n)"
proof (induction p v n rule: fs_put.induct)
  case (3 c v es)
  then show ?case
    using wf_fs_update [of es c] by (cases v) (auto simp: AList.delete_eq distinct_map_filter)
next
  case (4 c d cs v es)
  show ?case
  proof (cases "map_of es c")
    case (Some m)
    then have "(c, m) \<in> set es" by (rule map_of_SomeD)
    with 4 Some show ?thesis by (auto intro!: wf_fs_update simp del: wf_fs.simps) auto
  qed (use 4 in simp)
qed simp_all

lemma root_put [simp]: "p \<noteq> [] \<Longrightarrow> kind_at (fs_put p v n) [] = kind_at n []"
  by (cases p; cases n; cases "tl p") (auto simp: kind_at_def split: option.splits)

text \<open>The contract of \<open>fs_put\<close>: in the flat view exactly one place changes.\<close>

definition leaf :: "fnode option \<Rightarrow> bool" where
  "leaf v \<longleftrightarrow> v = None \<or> v = Some (FDir []) \<or> (\<exists>t. v = Some (FFile t))"

lemma leaf_below: "leaf v \<Longrightarrow> q \<noteq> [] \<Longrightarrow> (case v of None \<Rightarrow> Absent | Some m \<Rightarrow> kind_at m q) = Absent"
  by (cases q) (auto simp: leaf_def)

theorem kind_at_put:
  assumes "p \<noteq> []" "kind_at n (butlast p) = Directory" "leaf (fs_get n p)" "leaf v"
  shows "kind_at (fs_put p v n) = (kind_at n)(p := kind_of v)"
proof
  fix q
  show "kind_at (fs_put p v n) q = ((kind_at n)(p := kind_of v)) q"
    using assms
  proof (induction p v n arbitrary: q rule: fs_put.induct)
    case (2 c cs v t)
    then show ?case by (cases cs) (simp_all add: kind_at_def)
  next
    case (3 c v es)
    show ?case
    proof (cases q)
      case Nil
      then show ?thesis by (simp add: kind_at_def)
    next
      case (Cons d ds)
      have below: "ds \<noteq> [] \<Longrightarrow> c = d \<Longrightarrow> kind_at (FDir es) q = Absent"
        using leaf_below [OF 3(3), of ds] Cons by (simp add: kind_at_def fs_get_append split: option.splits)
      show ?thesis
        using below leaf_below [OF 3(4), of ds] Cons
        by (cases v; cases "ds = []") (auto simp: update_conv' delete_conv' kind_at_def split: option.splits)
    qed
  next
    case (4 c d cs v es)
    then obtain m where m: "map_of es c = Some m" "kind_at m (butlast (d # cs)) = Directory" "leaf (fs_get m (d # cs))"
      by (auto simp: kind_at_def split: option.splits)
    show ?case
      using "4.IH" [OF m(1) _ m(2,3) "4.prems"(4)] m(1) by (cases q) (auto simp: update_conv' kind_at_def)
  qed (auto simp: kind_at_def)
qed

text \<open>A place that is no directory, or an empty one, is a leaf.\<close>

lemma leaf_place: "kind_at n p \<noteq> Directory \<Longrightarrow> leaf (fs_get n p)"
  by (cases "fs_get n p" rule: kind_of.cases) (auto simp: kind_at_def leaf_def)

lemma kind_at_children: "fs_get n p = Some (FDir []) \<Longrightarrow> kind_at n (p @ [c]) = Absent"
  by (simp add: kind_at_def fs_get_append)

lemma no_children: "kind_at n p = Directory \<Longrightarrow> (\<And>c. kind_at n (p @ [c]) = Absent) \<Longrightarrow> fs_get n p = Some (FDir [])"
proof -
  assume "kind_at n p = Directory" and none: "\<And>c. kind_at n (p @ [c]) = Absent"
  then obtain es where es: "fs_get n p = Some (FDir es)" by (auto simp: kind_at_def)
  have "es = []"
  proof (cases es)
    case (Cons e es')
    then have "map_of es (fst e) \<noteq> None" by (cases e) simp
    then have "kind_at n (p @ [fst e]) \<noteq> Absent" using es by (auto simp: kind_at_def fs_get_append)
    with none show ?thesis by simp
  qed simp
  with es show ?thesis by simp
qed

lemma kind_at_write:
  assumes "namei n cwd path = Some p" "kind_at n p \<noteq> Directory"
  shows "kind_at (fs_put p (Some (FFile t)) n) = (kind_at n)(p := File t)"
  using kind_at_put [of p n "Some (FFile t)"] namei_parent [OF assms] leaf_place [OF assms(2)] by (simp add: leaf_def)

text \<open>Resolving a path asks only which places are directories.\<close>

lemma walk_mono:
  "(\<And>q. kind_at n q = Directory \<Longrightarrow> kind_at n' q = Directory) \<Longrightarrow> walk n cur cs = Some d \<Longrightarrow> walk n' cur cs = Some d"
  by (induction cs arbitrary: cur) (auto split: if_splits)

lemma namei_mono:
  assumes "\<And>q. kind_at n q = Directory \<Longrightarrow> kind_at n' q = Directory" "namei n cwd path = Some p"
  shows "namei n' cwd path = Some p"
proof -
  let ?start = "if take 1 path = ''/'' then [] else cwd"
  have "path \<noteq> []" "kind_at n ?start = Directory" using assms(2) by (auto simp: namei_def Let_def split: if_splits)
  then show ?thesis
    using assms(2) assms(1) [of ?start] walk_mono [of n n' ?start "butlast (strtok_all ''/'' path)", OF assms(1)]
    by (auto simp: namei_def Let_def split: if_splits option.splits)
qed

section \<open>The contract of the calls\<close>

text \<open>What the programs above may rely on, in terms of the flat view alone.\<close>

locale flat_fs =
  fixes view :: "'f \<Rightarrow> string list \<Rightarrow> entry" and names :: "'f \<Rightarrow> string \<Rightarrow> string list option" and ok :: "'f \<Rightarrow> bool"
    and dotted :: "string \<Rightarrow> bool" and mkdir rmdir rm :: "'f \<Rightarrow> string \<Rightarrow> 'f option"
  assumes names_mono: "(\<And>q. view n q = Directory \<Longrightarrow> view n' q = Directory) \<Longrightarrow> names n path = Some p \<Longrightarrow> names n' path = Some p"
    and fresh_place: "names n path = Some p \<Longrightarrow> view n p = Absent \<Longrightarrow> p \<noteq> [] \<and> \<not> dotted path \<and> (\<forall>c. view n (p @ [c]) = Absent)"
    and mkdir_ok: "ok n \<Longrightarrow> names n path = Some p \<Longrightarrow> view n p = Absent \<Longrightarrow>
      \<exists>n'. mkdir n path = Some n' \<and> ok n' \<and> view n' = (view n)(p := Directory)"
    and mkdir_fails: "(\<And>p. names n path = Some p \<Longrightarrow> view n p \<noteq> Absent) \<Longrightarrow> mkdir n path = None"
    and rmdir_ok: "ok n \<Longrightarrow> names n path = Some p \<Longrightarrow> p \<noteq> [] \<Longrightarrow> \<not> dotted path \<Longrightarrow> view n p = Directory \<Longrightarrow>
      (\<And>c. view n (p @ [c]) = Absent) \<Longrightarrow> \<exists>n'. rmdir n path = Some n' \<and> ok n' \<and> view n' = (view n)(p := Absent)"
    and rmdir_only: "ok n \<Longrightarrow> rmdir n path = Some n' \<Longrightarrow> \<exists>p. names n path = Some p \<and> view n p = Directory \<and>
      (\<forall>c. view n (p @ [c]) = Absent) \<and> ok n' \<and> view n' = (view n)(p := Absent)"
    and rm_only: "ok n \<Longrightarrow> rm n path = Some n' \<Longrightarrow> \<exists>p. names n path = Some p \<and> view n p \<noteq> Absent \<and>
      (\<forall>c. view n (p @ [c]) = Absent) \<and> ok n' \<and> view n' = (view n)(p := Absent)"
begin

lemma mkdir_only:
  assumes "ok n" "mkdir n path = Some n'"
  shows "\<exists>p. names n path = Some p \<and> view n p = Absent \<and> ok n' \<and> view n' = (view n)(p := Directory)"
  using assms mkdir_ok [of n path] mkdir_fails [of n path] by (metis option.distinct(1) option.inject)

lemma mkdir_rmdir:
  assumes "ok n" "mkdir n path = Some n'"
  shows "\<exists>n''. rmdir n' path = Some n'' \<and> ok n'' \<and> view n'' = view n"
proof -
  obtain p where p: "names n path = Some p" "view n p = Absent" "ok n'" "view n' = (view n)(p := Directory)"
    using mkdir_only [OF assms] by blast
  have names: "names n' path = Some p" using p(4) by (intro names_mono [OF _ p(1)]) simp
  have fresh: "p \<noteq> []" "\<not> dotted path" "\<And>c. view n (p @ [c]) = Absent" using fresh_place [OF p(1,2)] by auto
  obtain n'' where "rmdir n' path = Some n''" "ok n''" "view n'' = (view n')(p := Absent)"
    using rmdir_ok [OF p(3) names fresh(1,2)] fresh(3) p(4) by auto
  then show ?thesis using p(2,4) by auto
qed

end

definition ok_tree :: "fnode \<Rightarrow> bool" where
  "ok_tree n \<longleftrightarrow> wf_fs n \<and> kind_at n [] = Directory"

lemma ok_tree_put: "ok_tree n \<Longrightarrow> p \<noteq> [] \<Longrightarrow> proper (last p) \<Longrightarrow> (\<And>m. v = Some m \<Longrightarrow> wf_fs m) \<Longrightarrow> ok_tree (fs_put p v n)"
  by (simp add: ok_tree_def wf_fs_put)

definition dot_path :: "string \<Rightarrow> bool" where
  "dot_path path \<longleftrightarrow> last (strtok_all ''/'' path) = ''.''"

text \<open>The last element of an existing place that is not the root is a proper name.\<close>

lemma wf_fs_names: "wf_fs n \<Longrightarrow> p \<noteq> [] \<Longrightarrow> fs_get n p \<noteq> None \<Longrightarrow> proper (last p)"
  by (induction n p rule: fs_get.induct) (auto dest!: map_of_SomeD split: option.splits)

lemma remove_leaf:
  assumes "ok_tree n" "p \<noteq> []" "leaf (fs_get n p)" "fs_get n p \<noteq> None"
  shows "ok_tree (fs_put p None n) \<and> kind_at (fs_put p None n) = (kind_at n)(p := Absent)"
proof -
  have "kind_at n (butlast p @ [last p]) \<noteq> Absent" using assms(2,4) by (simp add: kind_at_def)
  then have "kind_at n (butlast p) = Directory" using above_directory by blast
  then show ?thesis
    using assms kind_at_put [of p n None] ok_tree_put [of n p None] wf_fs_names [of n p] by (simp add: leaf_def ok_tree_def)
qed

lemma fs_rmdir_only:
  assumes "ok_tree n" "fs_rmdir n cwd path = Some n'"
  shows "\<exists>p. namei n cwd path = Some p \<and> kind_at n p = Directory \<and>
    (\<forall>c. kind_at n (p @ [c]) = Absent) \<and> ok_tree n' \<and> kind_at n' = (kind_at n)(p := Absent)"
proof -
  obtain p where p: "namei n cwd path = Some p" "p \<noteq> []" "fs_get n p = Some (FDir [])" "n' = fs_put p None n"
    using assms(2) by (auto simp: fs_rmdir_def split: option.splits if_splits)
  then show ?thesis
    using remove_leaf [OF assms(1) p(2)] kind_at_children [OF p(3)] by (auto simp: leaf_def kind_at_def)
qed

interpretation tree: flat_fs kind_at "\<lambda>n. namei n cwd" ok_tree dot_path
  "\<lambda>n. fs_mkdir n cwd" "\<lambda>n. fs_rmdir n cwd" "\<lambda>n. fs_remove n cwd" for cwd
proof
  fix n n' and path :: string and p :: "string list"
  show "(\<And>q. kind_at n q = Directory \<Longrightarrow> kind_at n' q = Directory) \<Longrightarrow> namei n cwd path = Some p \<Longrightarrow> namei n' cwd path = Some p"
    by (rule namei_mono)
  show "(\<And>p. namei n cwd path = Some p \<Longrightarrow> kind_at n p \<noteq> Absent) \<Longrightarrow> fs_mkdir n cwd path = None"
    by (auto simp: fs_mkdir_def split: option.split)
  show "ok_tree n \<Longrightarrow> fs_rmdir n cwd path = Some n' \<Longrightarrow> \<exists>p. namei n cwd path = Some p \<and> kind_at n p = Directory \<and>
      (\<forall>c. kind_at n (p @ [c]) = Absent) \<and> ok_tree n' \<and> kind_at n' = (kind_at n)(p := Absent)"
    by (rule fs_rmdir_only)
  assume name: "namei n cwd path = Some p"
  show "p \<noteq> [] \<and> \<not> dot_path path \<and> (\<forall>c. kind_at n (p @ [c]) = Absent)" if "kind_at n p = Absent"
    using that below_absent [OF that] by (cases rule: namei_cases [OF name]) (auto simp: dot_path_def proper_def)
  show "\<exists>n'. fs_mkdir n cwd path = Some n' \<and> ok_tree n' \<and> kind_at n' = (kind_at n)(p := Directory)"
    if "ok_tree n" "kind_at n p = Absent"
    using that name namei_parent [OF name] leaf_place [of n p] kind_at_put [of p n "Some (FDir [])"] ok_tree_put [of n p "Some (FDir [])"]
    by (simp add: fs_mkdir_def leaf_def)
  show "\<exists>n'. fs_rmdir n cwd path = Some n' \<and> ok_tree n' \<and> kind_at n' = (kind_at n)(p := Absent)"
    if "ok_tree n" "p \<noteq> []" "\<not> dot_path path" "kind_at n p = Directory" "\<And>c. kind_at n (p @ [c]) = Absent"
    using remove_leaf [of n p] no_children [OF that(4,5)] that name by (simp add: fs_rmdir_def dot_path_def leaf_def)
next
  fix n n' path
  assume ok: "ok_tree n" and rm: "fs_remove n cwd path = Some n'"
  then obtain p where p: "namei n cwd path = Some p" by (auto simp: fs_remove_def split: option.splits)
  show "\<exists>p. namei n cwd path = Some p \<and> kind_at n p \<noteq> Absent \<and> (\<forall>c. kind_at n (p @ [c]) = Absent) \<and>
      ok_tree n' \<and> kind_at n' = (kind_at n)(p := Absent)"
  proof (cases "kind_at n p")
    case (File t)
    then have g: "fs_get n p = Some (FFile t)" by (simp add: kind_at_def)
    then have "kind_at n (p @ [c]) = Absent" for c by (simp add: kind_at_def fs_get_append)
    moreover have "p \<noteq> []" using ok g by (auto simp: ok_tree_def kind_at_def)
    ultimately show ?thesis
      using remove_leaf [OF ok, of p] g rm p File by (auto simp: fs_remove_def leaf_def split: if_splits)
  next
    case Directory
    then show ?thesis using rm p fs_rmdir_only [OF ok, of cwd path n'] by (auto simp: fs_remove_def)
  qed (use rm p in \<open>simp add: fs_remove_def\<close>)
qed

end
