(* ===== verification/Ss_State.thy ===== *)
theory Ss_State
  imports Nfs_Net Locks Posix_Fs
begin

text \<open>
  The state of a storage server (\<^verbatim>\<open>storage_server.c\<close>): its network, the table of file
  locks, the address of the naming server, its exported directory, and the file system with its working
  directory. What the peer of a connection will deliver is the queue \<open>inbox\<close>; a receive on an
  empty queue never returns. A receive takes at most the bytes asked for and leaves the rest, as on a
  byte stream.
\<close>

section \<open>State\<close>

record ss =
  ss_net :: world
  conc_array :: "lock_struct list"
  num_of_requests :: nat
  nm_ip :: string
  ROOT_PATH :: string
  fs :: fnode
  cwd :: "string list"
  inbox :: "int \<Rightarrow> recv_raw list"
  stale :: "nat list"  \<comment> \<open>lock entries whose \<^verbatim>\<open>path_to_file\<close> points to memory no longer in use\<close>

definition ss_wf :: "ss \<Rightarrow> bool" where
  "ss_wf s \<longleftrightarrow> length (conc_array s) = MAX_REQ \<and> num_of_requests s \<le> MAX_REQ \<and>
     ok_tree (fs s)"

section \<open>Network\<close>

definition ss_io :: "(world \<Rightarrow> world) \<Rightarrow> ss \<Rightarrow> ss" where
  "ss_io f s = s\<lparr>ss_net := f (ss_net s)\<rparr>"

definition ss_val :: "(world \<Rightarrow> 'a \<times> world) \<Rightarrow> ss \<Rightarrow> 'a \<times> ss" where
  "ss_val f s = (case f (ss_net s) of (v, w) \<Rightarrow> (v, s\<lparr>ss_net := w\<rparr>))"

definition ss_recv :: "int \<Rightarrow> nat \<Rightarrow> ss \<Rightarrow> (recv_raw \<times> ss) result" where
  "ss_recv fd n s =
     (case inbox s fd of
        [] \<Rightarrow> Inl Blocked
      | RecvErr e # ms \<Rightarrow> Inr (RecvErr e, s\<lparr>inbox := (inbox s)(fd := ms)\<rparr>)
      | RecvBytes b # ms \<Rightarrow>
          Inr (RecvBytes (take n b), s\<lparr>inbox := (inbox s)(fd := (if n < length b then RecvBytes (drop n b) # ms else ms))\<rparr>))"

text \<open>\<^verbatim>\<open>recv_good\<close> over the queue: the value returned and the bytes placed in the buffer.\<close>

fun recv_value :: "recv_raw \<Rightarrow> int \<times> string" where
  "recv_value (RecvErr e) = ((if e = EAGAIN \<or> e = EWOULDBLOCK then 0 else -1), [])"
| "recv_value (RecvBytes b) = (int (length b), b)"

definition ss_recv_good :: "int \<Rightarrow> nat \<Rightarrow> ss \<Rightarrow> ((int \<times> string) \<times> ss) result" where
  "ss_recv_good fd n s = andthen (ss_recv fd n s) (\<lambda>(r, s1). Inr (recv_value r, s1))"

text \<open>What is left to receive on a connection.\<close>

fun raw_size :: "recv_raw \<Rightarrow> nat" where
  "raw_size (RecvErr e) = 1"
| "raw_size (RecvBytes b) = Suc (length b)"

definition pending :: "int \<Rightarrow> ss \<Rightarrow> nat" where
  "pending fd s = sum_list (map raw_size (inbox s fd))"

section \<open>File system calls\<close>

text \<open>Every call may fail for a reason outside the tree.\<close>

definition fs_allowed :: "env \<Rightarrow> string \<Rightarrow> ss \<Rightarrow> bool" where
  "fs_allowed E path s = sys_fs_ok E (clock (ss_net s)) path"

definition fs_call :: "env \<Rightarrow> (fnode \<Rightarrow> string list \<Rightarrow> string \<Rightarrow> fnode option) \<Rightarrow> string \<Rightarrow> ss \<Rightarrow> bool \<times> ss" where
  "fs_call E op path s =
     (case (if fs_allowed E path s then op (fs s) (cwd s) path else None) of
        None \<Rightarrow> (False, ss_io tick s)
      | Some n \<Rightarrow> (True, (ss_io tick s)\<lparr>fs := n\<rparr>))"

text \<open>A call that only looks at the tree.\<close>

definition fs_query :: "env \<Rightarrow> (fnode \<Rightarrow> string list \<Rightarrow> string \<Rightarrow> 'a option) \<Rightarrow> string \<Rightarrow> ss \<Rightarrow> 'a option \<times> ss" where
  "fs_query E op path s = ((if fs_allowed E path s then op (fs s) (cwd s) path else None), ss_io tick s)"

text \<open>\<^verbatim>\<open>fopen\<close> for writing creates or empties the file; what is written reaches it at the
  latest when the stream is closed.\<close>

definition ss_put :: "string list \<Rightarrow> string \<Rightarrow> ss \<Rightarrow> ss" where
  "ss_put p t s = s\<lparr>fs := fs_put p (Some (FFile t)) (fs s)\<rparr>"

definition ss_fopen :: "env \<Rightarrow> bool \<Rightarrow> string \<Rightarrow> ss \<Rightarrow> string list option \<times> ss" where
  "ss_fopen E keep path s =
     (case fs_query E (fopen_write keep) path s of
        (None, s1) \<Rightarrow> (None, s1)
      | (Some (p, t), s1) \<Rightarrow> (Some p, ss_put p t s1))"

definition file_text :: "string list \<Rightarrow> ss \<Rightarrow> string" where
  "file_text p s = (case kind_at (fs s) p of File t \<Rightarrow> t | _ \<Rightarrow> [])"

definition ss_append :: "string list \<Rightarrow> string \<Rightarrow> ss \<Rightarrow> ss" where
  "ss_append p text s = ss_put p (file_text p s @ text) s"

text \<open>What a path names, as the server resolves it.\<close>

definition place :: "ss \<Rightarrow> string \<Rightarrow> string list option" where
  "place s path = namei (fs s) (cwd s) path"

section \<open>Lemmas\<close>

lemma ss_io_simps [simp]:
  "conc_array (ss_io f s) = conc_array s" "num_of_requests (ss_io f s) = num_of_requests s"
  "fs (ss_io f s) = fs s" "cwd (ss_io f s) = cwd s" "nm_ip (ss_io f s) = nm_ip s" "ROOT_PATH (ss_io f s) = ROOT_PATH s"
  "inbox (ss_io f s) = inbox s" "ss_net (ss_io f s) = f (ss_net s)"
  "ss_wf (ss_io f s) = ss_wf s" "place (ss_io f s) = place s"
  by (simp_all add: ss_io_def ss_wf_def place_def fun_eq_iff)

lemma ss_val_eq: "ss_val f s = (fst (f (ss_net s)), ss_io (\<lambda>w. snd (f w)) s)"
  by (simp add: ss_val_def ss_io_def split: prod.split)

lemma ss_recv_cases:
  assumes "ss_recv fd n s = Inr (r, s')"
  obtains q where "s' = s\<lparr>inbox := (inbox s)(fd := q)\<rparr>" "0 < n \<Longrightarrow> pending fd s' < pending fd s"
  using assms
  by (cases "inbox s fd"; cases "hd (inbox s fd)") (auto simp: ss_recv_def pending_def split: if_splits)

lemma ss_recv_good_cases:
  assumes "ss_recv_good fd n s = Inr (r, s')"
  obtains q where "s' = s\<lparr>inbox := (inbox s)(fd := q)\<rparr>" "0 < n \<Longrightarrow> pending fd s' < pending fd s"
  using assms ss_recv_cases [of fd n s] by (auto simp: ss_recv_good_def)

lemma ss_wf_inbox [simp]:
  "ss_wf (s\<lparr>inbox := q\<rparr>) = ss_wf s" "place (s\<lparr>inbox := q\<rparr>) = place s"
  by (simp_all add: ss_wf_def place_def fun_eq_iff)

lemma pending_io [simp]: "pending fd (ss_io f s) = pending fd s"
  by (simp add: pending_def)

lemma place_parent:
  assumes "place s path = Some p" "kind_at (fs s) p \<noteq> Directory"
  shows "p \<noteq> []" "kind_at (fs s) (butlast p) = Directory" "proper (last p)"
  using namei_parent [of "fs s" "cwd s" path p] assms by (simp_all add: place_def)

text \<open>The calls keep the state invariant.\<close>

lemma fs_call_wf:
  assumes "\<And>n. op (fs s) (cwd s) path = Some n \<Longrightarrow> ok_tree n" "ss_wf s"
  shows "ss_wf (snd (fs_call E op path s))"
  using assms by (auto simp: fs_call_def ss_wf_def split: option.splits)

lemma ss_put_simps [simp]:
  "conc_array (ss_put p t s) = conc_array s" "num_of_requests (ss_put p t s) = num_of_requests s"
  "cwd (ss_put p t s) = cwd s" "nm_ip (ss_put p t s) = nm_ip s" "ROOT_PATH (ss_put p t s) = ROOT_PATH s"
  "inbox (ss_put p t s) = inbox s" "ss_net (ss_put p t s) = ss_net s" "pending fd (ss_put p t s) = pending fd s"
  by (simp_all add: ss_put_def pending_def)

lemma ss_put_wf:
  assumes "ss_wf s" "p \<noteq> []" "proper (last p)"
  shows "ss_wf (ss_put p t s)"
  using assms ok_tree_put [of "fs s" p "Some (FFile t)"] by (simp add: ss_wf_def ss_put_def)

text \<open>An open stream: its place can hold a file, and every write to it changes that place alone.\<close>

definition writable :: "string list \<Rightarrow> ss \<Rightarrow> bool" where
  "writable p s \<longleftrightarrow> p \<noteq> [] \<and> proper (last p) \<and> kind_at (fs s) (butlast p) = Directory \<and> kind_at (fs s) p \<noteq> Directory"

lemma writable_put:
  assumes "writable p s"
  shows "kind_at (fs (ss_put p t s)) = (kind_at (fs s))(p := File t)" "writable p (ss_put p t s)"
    "ss_wf s \<Longrightarrow> ss_wf (ss_put p t s)"
proof -
  show eq: "kind_at (fs (ss_put p t s)) = (kind_at (fs s))(p := File t)"
    using assms kind_at_put [of p "fs s" "Some (FFile t)"] leaf_place [of "fs s" p]
    by (simp add: writable_def ss_put_def leaf_def)
  have "butlast p \<noteq> p" using assms by (cases p rule: rev_cases) (simp_all add: writable_def)
  then show "writable p (ss_put p t s)" using assms eq by (simp add: writable_def)
  show "ss_wf s \<Longrightarrow> ss_wf (ss_put p t s)" using assms by (simp add: writable_def ss_put_wf)
qed

lemma ss_fopen_place:
  assumes "ss_fopen E keep path s = (Some p, s')"
  shows "place s path = Some p" "writable p s" "s' = ss_put p (if keep then file_text p s else []) (ss_io tick s)"
proof -
  obtain t where t: "fopen_write keep (fs s) (cwd s) path = Some (p, t)" "s' = ss_put p t (ss_io tick s)"
    using assms by (auto simp: ss_fopen_def fs_query_def split: option.splits prod.splits if_splits)
  then show pl: "place s path = Some p" by (auto simp: fopen_write_def place_def split: if_splits option.splits entry.splits)
  have nd: "kind_at (fs s) p \<noteq> Directory" using t(1) by (auto simp: fopen_write_def split: if_splits option.splits entry.splits)
  show "writable p s" using place_parent [OF pl nd] nd by (simp add: writable_def)
  show "s' = ss_put p (if keep then file_text p s else []) (ss_io tick s)"
    using t by (auto simp: fopen_write_def file_text_def split: if_splits option.splits entry.splits)
qed

lemma ss_fopen_fails: "ss_fopen E keep path s = (None, s') \<Longrightarrow> s' = ss_io tick s"
  by (auto simp: ss_fopen_def fs_query_def split: option.splits prod.splits if_splits)

text \<open>When \<^verbatim>\<open>fopen\<close> succeeds.\<close>

lemma ss_fopen_ok:
  assumes "sys_fs_ok E (clock (ss_net s)) path" "place s path = Some p" "kind_at (fs s) p \<noteq> Directory" "\<not> trailing_slash path"
  shows "ss_fopen E keep path s = (Some p, ss_put p (if keep then file_text p s else []) (ss_io tick s))"
  using assms by (auto simp: ss_fopen_def fs_query_def fs_allowed_def fopen_write_def place_def file_text_def split: entry.splits)

lemma writable_io [simp]: "writable p (ss_io f s) = writable p s" "file_text p (ss_io f s) = file_text p s"
  by (simp_all add: writable_def file_text_def)

lemma file_text_put: "writable p s \<Longrightarrow> file_text p (ss_put p t s) = t"
  by (simp add: file_text_def writable_put)

text \<open>An idle storage server, for the examples.\<close>

definition idle_ss :: ss where
  "idle_ss = \<lparr>ss_net = \<lparr>clock = 0, trace = []\<rparr>, conc_array = replicate MAX_REQ (init_lock []), num_of_requests = 0,
     nm_ip = ''127.0.0.1'', ROOT_PATH = ''./docs'',
     fs = FDir [(''a'', FFile ''old''), (''docs'', FDir [])], cwd = [], inbox = (\<lambda>f. []), stale = []\<rparr>"

lemma idle_ss_wf: "ss_wf idle_ss"
  by (simp add: ss_wf_def ok_tree_def proper_def kind_at_def idle_ss_def MAX_REQ_def)

lemma idle_ss_place: "place idle_ss ''./a'' = Some [''a'']" "kind_at (fs idle_ss) [''a''] = File ''old''"
  "\<not> trailing_slash ''./a''"
  by code_simp+

end
