(* ===== verification/Ss_Write.thy ===== *)
theory Ss_Write
  imports Ss_State
begin

text \<open>
  Writes of the storage server (\<^verbatim>\<open>write_file\<close>, \<^verbatim>\<open>write_file_async\<close> and
  \<^verbatim>\<open>SendACKToNM\<close> of \<^verbatim>\<open>storage_server.c\<close>) with its table of file locks. One
  thread is run to completion; a lock that is held then blocks it forever, so that a lock which is never
  released shows up as \<open>Blocked\<close>. What the uninitialised stack buffer holds is a parameter.
\<close>

section \<open>The table of locks\<close>

definition doesLockRequestedFileAlreadExist :: "ss \<Rightarrow> string \<Rightarrow> nat option" where
  "doesLockRequestedFileAlreadExist s pathToSearch =
     find_slot (\<lambda>l. path_to_file l = pathToSearch) (take (num_of_requests s) (conc_array s))"

text \<open>Find the lock of a file or set up the next entry of the table.\<close>

definition lock_index :: "string \<Rightarrow> ss \<Rightarrow> (nat \<times> ss) result" where
  "lock_index path s =
     (case doesLockRequestedFileAlreadExist s path of
        Some i \<Rightarrow> Inr (i, s)
      | None \<Rightarrow>
          (if num_of_requests s < MAX_REQ
           then Inr (num_of_requests s,
                     s\<lparr>conc_array := (conc_array s)[num_of_requests s := init_lock path],
                       num_of_requests := Suc (num_of_requests s)\<rparr>)
           else Inl OutOfBounds))"

definition take_lock :: "(lock_struct \<Rightarrow> lock_struct option) \<Rightarrow> nat \<Rightarrow> ss \<Rightarrow> ss result" where
  "take_lock acq i s =
     (case acq (conc_array s ! i) of
        None \<Rightarrow> Inl Blocked
      | Some l \<Rightarrow> Inr (s\<lparr>conc_array := (conc_array s)[i := l]\<rparr>))"

definition drop_lock :: "(lock_struct \<Rightarrow> lock_struct \<times> wake) \<Rightarrow> nat \<Rightarrow> ss \<Rightarrow> ss" where
  "drop_lock rel i s = s\<lparr>conc_array := (conc_array s)[i := fst (rel (conc_array s ! i))]\<rparr>"

section \<open>Buffered writing\<close>

fun write_loop :: "string \<Rightarrow> string \<Rightarrow> nat \<Rightarrow> string \<Rightarrow> string result" where
  "write_loop [] buffer buffer_offset out =
     andthen (array_str buffer) (\<lambda>t. Inr (out @ t @ newline))"
| "write_loop (c # cs) buffer buffer_offset out =
     (let buffer1 = buffer[buffer_offset := c] in
      if Suc buffer_offset = ASYNC_BUFF_LEN
      then andthen (array_str buffer1)
             (\<lambda>t. write_loop cs (replicate (ASYNC_BUFF_LEN + 1) (CHR 0x00)) 0 (out @ t))
      else write_loop cs buffer1 (Suc buffer_offset) out)"

section \<open>The acknowledgement to the naming server\<close>

text \<open>Shared by \<^verbatim>\<open>write_file_async\<close> and \<^verbatim>\<open>SendACKToNM\<close>: connect to the
  naming server, send one message, close; every failure ends the process.\<close>

definition notify_nm :: "env \<Rightarrow> string \<Rightarrow> string \<Rightarrow> world \<Rightarrow> world result" where
  "notify_nm E ip_of_nm msg w =
     (let sock1 = sys_socket E (clock w); w1 = tick w in
      if sock1 < 0 then Inl Exited
      else if \<not> sys_setsockopt E (clock w1) then Inl Exited
      else if \<not> sys_inet_pton E ip_of_nm then Inl Exited
      else if \<not> sys_connect E (clock w1) sock1 ip_of_nm ASYNC_PORT_FOR_NM then Inl Exited
      else
        (case send_good E sock1 msg (tick w1) of
           (sent, w2) \<Rightarrow> if sent < 0 then Inl Exited else Inr (close sock1 w2)))"

definition SendACKToNM :: "env \<Rightarrow> string \<Rightarrow> ss \<Rightarrow> ss result" where
  "SendACKToNM E command s = andthen (notify_nm E (nm_ip s) command (ss_net s)) (\<lambda>w. Inr (s\<lparr>ss_net := w\<rparr>))"

section \<open>write_file\<close>

text \<open>The synchronous write: the value returned, the reply, and the entry of the lock table it used.\<close>

definition write_file :: "env \<Rightarrow> string \<Rightarrow> ss \<Rightarrow> (int \<times> string \<times> nat \<times> ss) result" where
  "write_file E command s =
     (case strtok_all ''|'' command of
        cmd # path # rest \<Rightarrow>
          andthen (lock_index path s) (\<lambda>(i, s1).
          andthen (take_lock acquire_write_lock i s1) (\<lambda>s2.
            case ss_fopen E True path s2 of
              (None, s3) \<Rightarrow> Inr (-1, snprintf BUFFER_SIZE (''Could not open file @ '' @ path @ '' '' @ newline), i, s3)
            | (Some p, s3) \<Rightarrow>
                (case rest of
                   [] \<Rightarrow> Inl NullDeref
                 | dat # _ \<Rightarrow>
                     Inr (0, ''Data written successfully'' @ newline, i,
                       ss_append p (dat @ newline) (drop_lock release_write_lock i s3)))))
      | _ \<Rightarrow> Inl NullDeref)"

section \<open>write_file_async\<close>

definition async_message :: "string \<Rightarrow> string \<Rightarrow> string \<Rightarrow> string" where
  "async_message path cl_ip port_of_cl = ''writeasync '' @ path @ '' '' @ cl_ip @ '' '' @ port_of_cl @ newline"

text \<open>The tokens are the command, the path, the address of the client and the data; a missing one is
  NULL, and the data is dereferenced after the file was opened.\<close>

definition write_file_async ::
  "env \<Rightarrow> string \<Rightarrow> string \<Rightarrow> int \<Rightarrow> ss \<Rightarrow> ss result" where
  "write_file_async E garbage command sock s =
     (let s0 = ss_io (\<lambda>w. snd (send_good E sock ''Write Request Recieved'' w)) s in
      case strtok_all ''|'' command of
        cmd # path # rest \<Rightarrow>
          andthen (lock_index path s0) (\<lambda>(i, s1).
          andthen (take_lock acquire_write_lock i s1) (\<lambda>s2.
            case ss_fopen E True path s2 of
              (None, s3) \<Rightarrow>
                Inr (ss_io (\<lambda>w. close sock (snd (send_good E sock (''Failed to open file'' @ newline) w))) s3)
            | (Some p, s3) \<Rightarrow>
                (case rest of
                   cl_ip # port_of_cl # dat # _ \<Rightarrow>
                     andthen (write_loop dat garbage 0 []) (\<lambda>text.
                     let s4 = drop_lock release_write_lock i s3 in
                     andthen (notify_nm E (nm_ip s4)
                       (snprintf BUFFER_SIZE (async_message path cl_ip port_of_cl)) (ss_net s4))
                       (\<lambda>w. Inr (ss_io (close sock) (ss_append p text (s4\<lparr>ss_net := w\<rparr>)))))
                 | _ \<Rightarrow> Inl NullDeref)))
      | _ \<Rightarrow> Inl NullDeref)"

section \<open>Lemmas\<close>

lemma array_str_zeros:
  assumes "length xs < n"
  shows "array_str (xs @ replicate (n - length xs) (CHR 0x00)) = Inr (c_str xs)"
proof -
  have "takeWhile P (xs @ replicate m z) = takeWhile P xs" if "\<not> P z" "0 < m" for P m and z :: char
    using that by (cases m) (simp_all add: takeWhile_tail)
  then show ?thesis using assms by (auto simp: array_str_def c_str_def)
qed

lemma write_loop_zeros:
  "CHR 0x00 \<notin> set cs \<Longrightarrow> CHR 0x00 \<notin> set xs \<Longrightarrow> length xs < ASYNC_BUFF_LEN \<Longrightarrow>
   write_loop cs (xs @ replicate (ASYNC_BUFF_LEN + 1 - length xs) (CHR 0x00)) (length xs) out = Inr (out @ xs @ cs @ newline)"
proof (induction cs arbitrary: xs out)
  case Nil
  then show ?case using array_str_zeros [of xs "ASYNC_BUFF_LEN + 1"] by simp
next
  case (Cons c cs)
  let ?z = "CHR 0x00"
  have "replicate (ASYNC_BUFF_LEN + 1 - length xs) ?z = ?z # replicate (ASYNC_BUFF_LEN - length xs) ?z"
    using Cons.prems(3) by (simp add: Suc_diff_le)
  then have upd: "(xs @ replicate (ASYNC_BUFF_LEN + 1 - length xs) ?z)[length xs := c] =
      (xs @ [c]) @ replicate (ASYNC_BUFF_LEN + 1 - length (xs @ [c])) ?z"
    by simp
  show ?case
  proof (cases "Suc (length xs) = ASYNC_BUFF_LEN")
    case True
    then have "array_str ((xs @ [c]) @ replicate (ASYNC_BUFF_LEN + 1 - length (xs @ [c])) ?z) = Inr (xs @ [c])"
      using array_str_zeros [of "xs @ [c]" "ASYNC_BUFF_LEN + 1"] Cons.prems by simp
    then show ?thesis
      using True Cons.prems Cons.IH [of "[]" "out @ xs @ [c]"]
      by (simp only: write_loop.simps Let_def upd if_True andthen_simps) simp
  next
    case False
    then show ?thesis
      using Cons.prems Cons.IH [of "xs @ [c]" out]
      by (simp only: write_loop.simps Let_def upd if_False) simp
  qed
qed

lemma write_loop_short:
  "length xs + length cs < ASYNC_BUFF_LEN \<Longrightarrow> length cs \<le> length g \<Longrightarrow>
   write_loop cs (xs @ g) (length xs) out = andthen (array_str (xs @ cs @ drop (length cs) g)) (\<lambda>t. Inr (out @ t @ newline))"
proof (induction cs arbitrary: xs g)
  case Nil
  then show ?case by simp
next
  case (Cons c cs)
  then obtain a g' where g: "g = a # g'" by (cases g) auto
  have "(xs @ g)[length xs := c] = (xs @ [c]) @ g'" by (simp add: g)
  moreover have "Suc (length xs) \<noteq> ASYNC_BUFF_LEN" using Cons.prems(1) by simp
  ultimately show ?case using Cons.prems Cons.IH [of "xs @ [c]" g'] by (simp add: g)
qed

definition same_but_locks :: "ss \<Rightarrow> ss \<Rightarrow> bool" where
  "same_but_locks s s' \<longleftrightarrow> fs s' = fs s \<and> cwd s' = cwd s \<and> ss_net s' = ss_net s \<and> nm_ip s' = nm_ip s \<and>
     ROOT_PATH s' = ROOT_PATH s \<and> inbox s' = inbox s"

lemma same_but_locks_trans: "same_but_locks s s' \<Longrightarrow> same_but_locks s' s'' \<Longrightarrow> same_but_locks s s''"
  by (simp add: same_but_locks_def)

lemma lock_index_post:
  assumes "ss_wf s" "lock_index path s = Inr (i, s')"
  shows "ss_wf s' \<and> i < num_of_requests s' \<and> doesLockRequestedFileAlreadExist s' path = Some i \<and>
    path_to_file (conc_array s' ! i) = path \<and>
    same_but_locks s s'"
proof (cases "doesLockRequestedFileAlreadExist s path")
  case (Some j)
  then show ?thesis
    using assms find_slot_SomeD [of "\<lambda>l. path_to_file l = path" "take (num_of_requests s) (conc_array s)" j]
    by (auto simp: lock_index_def doesLockRequestedFileAlreadExist_def ss_wf_def same_but_locks_def)
next
  case None
  let ?n = "num_of_requests s"
  have n: "?n < MAX_REQ" "i = ?n"
    "s' = s\<lparr>conc_array := (conc_array s)[?n := init_lock path], num_of_requests := Suc ?n\<rparr>"
    using assms(2) None by (auto simp: lock_index_def split: if_splits)
  have "find_slot (\<lambda>l. path_to_file l = path) (take (Suc ?n) ((conc_array s)[?n := init_lock path])) = Some ?n"
  proof -
    have "\<not> path_to_file (conc_array s ! j) = path" if "j < ?n" for j
    proof -
      have "j < length (take ?n (conc_array s))" using that n(1) assms(1) by (simp add: ss_wf_def)
      from nth_mem [OF this] that have "conc_array s ! j \<in> set (take ?n (conc_array s))" by simp
      then show ?thesis using None unfolding doesLockRequestedFileAlreadExist_def find_slot_None by blast
    qed
    then show ?thesis using n(1) assms(1) by (simp add: find_slot_Some_iff ss_wf_def init_lock_def)
  qed
  then show ?thesis
    using n assms(1) by (auto simp: ss_wf_def doesLockRequestedFileAlreadExist_def init_lock_def same_but_locks_def)
qed

text \<open>The lock table depends on nothing but the table.\<close>

lemma find_lock_cong:
  "conc_array s' = conc_array s \<Longrightarrow> num_of_requests s' = num_of_requests s \<Longrightarrow>
   doesLockRequestedFileAlreadExist s' path = doesLockRequestedFileAlreadExist s path"
  by (simp add: doesLockRequestedFileAlreadExist_def)

lemma find_lock_update:
  assumes "i < num_of_requests s" "path_to_file l = path_to_file (conc_array s ! i)" "ss_wf s"
  shows "doesLockRequestedFileAlreadExist (s\<lparr>conc_array := (conc_array s)[i := l]\<rparr>) path = doesLockRequestedFileAlreadExist s path"
  using assms find_slot_update [of i "take (num_of_requests s) (conc_array s)" "\<lambda>l. path_to_file l = path" l]
  by (simp add: doesLockRequestedFileAlreadExist_def ss_wf_def take_update_swap)

definition word_ok :: "string \<Rightarrow> bool" where
  "word_ok w \<longleftrightarrow> w \<noteq> [] \<and> CHR ''|'' \<notin> set w"

lemma command_tokens: "list_all word_ok ws \<Longrightarrow> strtok_all ''|'' (join CHR ''|'' ws) = ws"
  by (rule strtok_all_join) (auto simp: word_ok_def list_all_iff)

section \<open>Properties\<close>

text \<open>The lock of a path is free: no entry of the table has it as held.\<close>

definition lock_free :: "string \<Rightarrow> ss \<Rightarrow> bool" where
  "lock_free path s \<longleftrightarrow>
     (case doesLockRequestedFileAlreadExist s path of
        None \<Rightarrow> num_of_requests s < MAX_REQ
      | Some i \<Rightarrow> acquire_write_lock (conc_array s ! i) \<noteq> None)"

definition nm_reachable :: "env \<Rightarrow> string \<Rightarrow> bool" where
  "nm_reachable E a \<longleftrightarrow>
     (\<forall>t. sys_socket E t \<ge> 0) \<and> (\<forall>t. sys_setsockopt E t) \<and> sys_inet_pton E a \<and>
     (\<forall>t f. sys_connect E t f a ASYNC_PORT_FOR_NM) \<and> (\<forall>t f b. sys_send E t f b = SentBytes (length b))"

lemma notify_nm_ok:
  assumes "nm_reachable E a"
  shows "notify_nm E a msg w =
    Inr (close (sys_socket E (clock w)) (emit (Sent (sys_socket E (clock w)) msg) (tick (tick (tick w)))))"
proof -
  have "\<not> sys_socket E t < 0" for t using assms by (simp add: nm_reachable_def not_less)
  then show ?thesis using assms by (simp add: notify_nm_def nm_reachable_def Let_def send_good_trace)
qed

lemma lock_free_acquire:
  assumes "ss_wf s" "lock_free path s"
  obtains i s1 l where "lock_index path s = Inr (i, s1)" "acquire_write_lock (conc_array s1 ! i) = Some l"
proof (cases "doesLockRequestedFileAlreadExist s path")
  case None
  then show ?thesis
    using assms that [of "num_of_requests s" "s\<lparr>conc_array := (conc_array s)[num_of_requests s := init_lock path],
      num_of_requests := Suc (num_of_requests s)\<rparr>"]
    by (auto simp: lock_index_def lock_free_def ss_wf_def acquire_write_lock_def init_lock_def release_write_lock_def)
next
  case (Some i)
  then obtain l where "acquire_write_lock (conc_array s ! i) = Some l" using assms(2) by (auto simp: lock_free_def)
  with Some show ?thesis using that [of i s l] by (auto simp: lock_index_def release_write_lock_def)
qed

lemma lock_free_io [simp]: "lock_free path (ss_io f s) = lock_free path s"
  by (simp add: lock_free_def doesLockRequestedFileAlreadExist_def split: option.split)

text \<open>Taking a free lock leaves it in the table, held by the writer.\<close>

lemma async_lock:
  assumes "ss_wf s" "lock_free path s"
  obtains i s1 s2 where "lock_index path s = Inr (i, s1)" "take_lock acquire_write_lock i s1 = Inr s2" "ss_wf s2"
    "i < num_of_requests s2" "doesLockRequestedFileAlreadExist s2 path = Some i" "is_writing (conc_array s2 ! i)"
    "same_but_locks s s2"
proof -
  obtain i s1 l where i: "lock_index path s = Inr (i, s1)" "acquire_write_lock (conc_array s1 ! i) = Some l"
    by (rule lock_free_acquire [OF assms])
  note post = lock_index_post [OF assms(1) i(1)]
  have len: "i < length (conc_array s1)" using post by (auto simp: ss_wf_def)
  have l: "path_to_file l = path_to_file (conc_array s1 ! i)" "is_writing l"
    using i(2) by (auto simp: acquire_write_lock_def split: if_splits)
  let ?s2 = "s1\<lparr>conc_array := (conc_array s1)[i := l]\<rparr>"
  show thesis
  proof (rule that [of i s1 ?s2])
    show "doesLockRequestedFileAlreadExist ?s2 path = Some i" using find_lock_update [OF _ l(1)] post by simp
  qed (use i post len l assms(1) in \<open>simp_all add: take_lock_def ss_wf_def same_but_locks_def\<close>)
qed

lemma drop_lock_frees:
  assumes "ss_wf s" "i < num_of_requests s" "doesLockRequestedFileAlreadExist s path = Some i"
  shows "doesLockRequestedFileAlreadExist (drop_lock release_write_lock i s) path = Some i"
    "\<not> is_writing (conc_array (drop_lock release_write_lock i s) ! i)" "ss_wf (drop_lock release_write_lock i s)"
    "same_but_locks s (drop_lock release_write_lock i s)"
  using assms find_lock_update [of i s "fst (release_write_lock (conc_array s ! i))" path]
  by (simp_all add: drop_lock_def release_write_lock_def ss_wf_def same_but_locks_def)

text \<open>A path that can be opened for appending.\<close>

definition appendable :: "env \<Rightarrow> ss \<Rightarrow> string \<Rightarrow> string list \<Rightarrow> bool" where
  "appendable E s path p \<longleftrightarrow> (\<forall>t. sys_fs_ok E t path) \<and> place s path = Some p \<and> kind_at (fs s) p \<noteq> Directory \<and> \<not> trailing_slash path"

text \<open>Lock, open, unlock and append: the common run of both writes.\<close>

lemma locked_append:
  assumes "ss_wf s" "lock_free path s" "appendable E s path p"
  obtains i s1 s2 s3 where "lock_index path s = Inr (i, s1)" "take_lock acquire_write_lock i s1 = Inr s2"
    "ss_fopen E True path s2 = (Some p, s3)" "doesLockRequestedFileAlreadExist (drop_lock release_write_lock i s3) path = Some i"
    "\<not> is_writing (conc_array (drop_lock release_write_lock i s3) ! i)" "ss_wf (drop_lock release_write_lock i s3)"
    "writable p (drop_lock release_write_lock i s3)" "file_text p (drop_lock release_write_lock i s3) = file_text p s"
    "kind_at (fs (drop_lock release_write_lock i s3)) = (kind_at (fs s))(p := File (file_text p s))"
    "nm_ip (drop_lock release_write_lock i s3) = nm_ip s" "ss_net (drop_lock release_write_lock i s3) = tick (ss_net s)"
proof -
  obtain i s1 s2 where i: "lock_index path s = Inr (i, s1)" "take_lock acquire_write_lock i s1 = Inr s2" "ss_wf s2"
    "i < num_of_requests s2" "doesLockRequestedFileAlreadExist s2 path = Some i" "same_but_locks s s2"
    by (rule async_lock [OF assms(1,2)])
  let ?s3 = "ss_put p (file_text p s2) (ss_io tick s2)" and ?s4 = "drop_lock release_write_lock i (ss_put p (file_text p s2) (ss_io tick s2))"
  have same: "fs s2 = fs s" "cwd s2 = cwd s" "file_text p s2 = file_text p s" "place s2 path = Some p"
    using i(6) assms(3) by (simp_all add: same_but_locks_def file_text_def place_def appendable_def)
  have fopen: "ss_fopen E True path s2 = (Some p, ?s3)"
    using ss_fopen_ok [of E s2 path p True] assms(3) same by (simp add: appendable_def)
  have w: "writable p s2" using ss_fopen_place(2) [OF fopen] .
  note put = writable_put [of p "ss_io tick s2" "file_text p s2"]
  have "doesLockRequestedFileAlreadExist ?s3 path = Some i" using i(5) find_lock_cong [of ?s3 s2 path] by simp
  note dr = drop_lock_frees [OF put(3) _ this]
  show thesis
    by (rule that [OF i(1,2) fopen])
      (use dr w i(3,4,6) put same file_text_put [of p "ss_io tick s2"] in
        \<open>simp_all add: same_but_locks_def writable_def file_text_def\<close>)
qed

text \<open>The whole run of an asynchronous write: what is appended is what \<open>write_loop\<close> produces from the
  stack buffer.\<close>

lemma async_run:
  assumes "ss_wf s" "list_all word_ok [path, cl_ip, prt, dat]" "appendable E s path p" "lock_free path s"
    "nm_reachable E (nm_ip s)" "write_loop dat garbage 0 [] = Inr txt"
  shows "\<exists>s' i fd. write_file_async E garbage (join CHR ''|'' [''WRITE_ASYNC'', path, cl_ip, prt, dat]) sock s = Inr s' \<and>
    kind_at (fs s') = (kind_at (fs s))(p := File (file_text p s @ txt)) \<and>
    doesLockRequestedFileAlreadExist s' path = Some i \<and> \<not> is_writing (conc_array s' ! i) \<and> ss_wf s' \<and>
    Sent fd (snprintf BUFFER_SIZE (async_message path cl_ip prt)) \<in> set (trace (ss_net s'))"
proof -
  let ?s0 = "ss_io (\<lambda>w. snd (send_good E sock ''Write Request Recieved'' w)) s"
  have wf0: "ss_wf ?s0" "lock_free path ?s0" "appendable E ?s0 path p" using assms(1,3,4) by (simp_all add: appendable_def)
  obtain i s1 s2 s3 where i: "lock_index path ?s0 = Inr (i, s1)" "take_lock acquire_write_lock i s1 = Inr s2"
    "ss_fopen E True path s2 = (Some p, s3)"
    and dr: "doesLockRequestedFileAlreadExist (drop_lock release_write_lock i s3) path = Some i"
      "\<not> is_writing (conc_array (drop_lock release_write_lock i s3) ! i)" "ss_wf (drop_lock release_write_lock i s3)"
      "writable p (drop_lock release_write_lock i s3)" "file_text p (drop_lock release_write_lock i s3) = file_text p ?s0"
      "kind_at (fs (drop_lock release_write_lock i s3)) = (kind_at (fs ?s0))(p := File (file_text p ?s0))"
      "nm_ip (drop_lock release_write_lock i s3) = nm_ip ?s0"
    by (rule locked_append [OF wf0])
  have toks: "strtok_all ''|'' (join CHR ''|'' [''WRITE_ASYNC'', path, cl_ip, prt, dat]) = [''WRITE_ASYNC'', path, cl_ip, prt, dat]"
    using assms(2) by (intro command_tokens) (simp add: word_ok_def)
  let ?s4 = "drop_lock release_write_lock i s3" and ?msg = "snprintf BUFFER_SIZE (async_message path cl_ip prt)"
  let ?fd = "sys_socket E (clock (ss_net ?s4))"
  obtain w where w: "notify_nm E (nm_ip ?s4) ?msg (ss_net ?s4) = Inr w" "Sent ?fd ?msg \<in> set (trace w)"
    using notify_nm_ok [of E "nm_ip ?s4"] assms(5) dr(7) by (auto simp: close_def)
  let ?s5 = "?s4\<lparr>ss_net := w\<rparr>"
  let ?s' = "ss_io (close sock) (ss_append p txt ?s5)"
  have run: "write_file_async E garbage (join CHR ''|'' [''WRITE_ASYNC'', path, cl_ip, prt, dat]) sock s = Inr ?s'"
    unfolding write_file_async_def Let_def toks list.case i(1) andthen_simps prod.case i(2) i(3) option.case assms(6) w(1) ..
  have w5: "writable p ?s5" "file_text p ?s5 = file_text p s" "ss_wf ?s5" "fs ?s5 = fs ?s4"
    using dr(3-5) by (simp_all add: writable_def file_text_def ss_wf_def)
  have fin: "kind_at (fs ?s') = (kind_at (fs s))(p := File (file_text p s @ txt))"
    using writable_put(1) [OF w5(1)] w5 dr(6) by (simp add: ss_append_def)
  have lock: "doesLockRequestedFileAlreadExist ?s' path = Some i"
    using dr(1) find_lock_cong [of ?s' ?s4 path] by (simp add: ss_append_def)
  have rest: "\<not> is_writing (conc_array ?s' ! i)" "ss_wf ?s'" "Sent ?fd ?msg \<in> set (trace (ss_net ?s'))"
    using dr(2) writable_put(3) [OF w5(1,3)] w(2) by (simp_all add: ss_append_def close_def)
  show ?thesis by (intro exI conjI) (rule run fin lock rest)+
qed

lemma idle_ss_ok:
  "ss_wf idle_ss" "lock_free path idle_ss" "nm_reachable calm_env (nm_ip idle_ss)"
  by (simp_all only: idle_ss_wf) (simp_all add: idle_ss_def lock_free_def doesLockRequestedFileAlreadExist_def MAX_REQ_def nm_reachable_def)

lemma idle_ss_appendable: "appendable calm_env idle_ss ''./a'' [''a'']" "file_text [''a''] idle_ss = ''old''"
  using idle_ss_place by (simp_all add: appendable_def file_text_def)

text \<open>C24. An asynchronous write to a file that can be opened, whose lock is free and whose naming server is
  reachable returns, appends exactly the data and a newline to that file, changes nothing else in the file
  system and releases the lock, provided the stack buffer starts out zeroed.\<close>

theorem async_write_appends:
  assumes "ss_wf s" "list_all word_ok [path, cl_ip, prt, dat]" "CHR 0x00 \<notin> set dat" "appendable E s path p" "lock_free path s"
    "nm_reachable E (nm_ip s)"
  shows "\<exists>s' i. write_file_async E (replicate (ASYNC_BUFF_LEN + 1) (CHR 0x00))
      (join CHR ''|'' [''WRITE_ASYNC'', path, cl_ip, prt, dat]) sock s = Inr s' \<and>
    kind_at (fs s') = (kind_at (fs s))(p := File (file_text p s @ dat @ newline)) \<and>
    doesLockRequestedFileAlreadExist s' path = Some i \<and> \<not> is_writing (conc_array s' ! i) \<and> ss_wf s'"
proof -
  have "write_loop dat (replicate (ASYNC_BUFF_LEN + 1) (CHR 0x00)) 0 [] = Inr (dat @ newline)"
    using write_loop_zeros [of dat "[]" "[]"] assms(3) by (simp add: ASYNC_BUFF_LEN_def)
  from async_run [where sock = sock, OF assms(1,2,4,5,6) this] show ?thesis by blast
qed

theorem async_write_appends_witness:
  "\<exists>s'. write_file_async calm_env (replicate (ASYNC_BUFF_LEN + 1) (CHR 0x00))
      (join CHR ''|'' [''WRITE_ASYNC'', ''./a'', ''10.0.0.9'', ''4000'', ''hello'']) 5 idle_ss = Inr s' \<and>
    kind_at (fs s') [''a''] = File (''oldhello'' @ newline)"
  using async_write_appends [OF idle_ss_ok(1) _ _ idle_ss_appendable(1) idle_ss_ok(2,3), of "''10.0.0.9''" "''4000''" "''hello''" 5]
    idle_ss_appendable(2)
  by (force simp: word_ok_def)

text \<open>C38. The buffer of an asynchronous write is not initialised: data shorter than it is followed in the
  file by whatever the stack held behind it, up to the first NUL.\<close>

theorem async_short_write_appends_stack:
  assumes "ss_wf s" "list_all word_ok [path, cl_ip, prt, dat]" "CHR 0x00 \<notin> set dat" "appendable E s path p" "lock_free path s"
    "nm_reachable E (nm_ip s)" "length dat < ASYNC_BUFF_LEN" "length garbage = ASYNC_BUFF_LEN + 1"
    "CHR 0x00 \<in> set (drop (length dat) garbage)"
  shows "\<exists>s'. write_file_async E garbage (join CHR ''|'' [''WRITE_ASYNC'', path, cl_ip, prt, dat]) sock s = Inr s' \<and>
    kind_at (fs s') = (kind_at (fs s))(p := File (file_text p s @ dat @ c_str (drop (length dat) garbage) @ newline))"
proof -
  have "c_str (dat @ drop (length dat) garbage) = dat @ c_str (drop (length dat) garbage)"
    unfolding c_str_def using assms(3) by (intro takeWhile_append2) auto
  then have "write_loop dat garbage 0 [] = Inr (dat @ c_str (drop (length dat) garbage) @ newline)"
    using write_loop_short [of "[]" dat garbage "[]"] assms(7,8,9) by (simp add: array_str_def)
  from async_run [where sock = sock, OF assms(1,2,4,5,6) this] show ?thesis by blast
qed

theorem async_short_write_appends_stack_witness:
  "\<exists>s'. write_file_async calm_env (replicate ASYNC_BUFF_LEN (CHR ''x'') @ [CHR 0x00])
      (join CHR ''|'' [''WRITE_ASYNC'', ''./a'', ''10.0.0.9'', ''4000'', ''hello'']) 5 idle_ss = Inr s' \<and>
    kind_at (fs s') [''a''] = File (''oldhello'' @ replicate 27 (CHR ''x'') @ newline)"
proof -
  have "c_str (drop (length ''hello'') (replicate ASYNC_BUFF_LEN (CHR ''x'') @ [CHR 0x00])) = replicate 27 (CHR ''x'')"
    by (simp add: ASYNC_BUFF_LEN_def c_str_def takeWhile_append)
  with async_short_write_appends_stack [OF idle_ss_ok(1) _ _ idle_ss_appendable(1) idle_ss_ok(2,3), of "''10.0.0.9''" "''4000''" "''hello''"
      "replicate ASYNC_BUFF_LEN (CHR ''x'') @ [CHR 0x00]" 5] idle_ss_appendable(2)
  show ?thesis by (force simp: word_ok_def ASYNC_BUFF_LEN_def)
qed

text \<open>C39. A write that fails to open its file returns with the lock still held: every later write of that
  path, synchronous or asynchronous and whatever the environment, blocks forever.\<close>

theorem failed_open_blocks_path:
  assumes "ss_wf s" "list_all word_ok (path # rest)" "\<forall>t. \<not> sys_fs_ok E t path" "lock_free path s"
  shows "\<exists>s'. write_file_async E garbage (join CHR ''|'' (''WRITE_ASYNC'' # path # rest)) sock s = Inr s' \<and> fs s' = fs s \<and>
    (\<forall>E' garbage' rest' sock'. list_all word_ok rest' \<longrightarrow>
       write_file_async E' garbage' (join CHR ''|'' (''WRITE_ASYNC'' # path # rest')) sock' s' = Inl Blocked \<and>
       write_file E' (join CHR ''|'' (''WRITE_SYNC'' # path # rest')) s' = Inl Blocked)"
proof -
  let ?s0 = "ss_io (\<lambda>w. snd (send_good E sock ''Write Request Recieved'' w)) s"
  have wf0: "ss_wf ?s0" "lock_free path ?s0" using assms(1,4) by simp_all
  obtain i s1 s2 where i: "lock_index path ?s0 = Inr (i, s1)" "take_lock acquire_write_lock i s1 = Inr s2"
    "doesLockRequestedFileAlreadExist s2 path = Some i" "is_writing (conc_array s2 ! i)" "same_but_locks ?s0 s2"
    by (rule async_lock [OF wf0])
  have toks: "strtok_all ''|'' (join CHR ''|'' (c # path # ws)) = c # path # ws" if "word_ok c" "list_all word_ok ws" for c ws
    using assms(2) that by (intro command_tokens) (simp add: word_ok_def)
  have cmds: "word_ok ''WRITE_ASYNC''" "word_ok ''WRITE_SYNC''" "list_all word_ok rest" using assms(2) by (simp_all add: word_ok_def)
  have fopen: "ss_fopen E True path s2 = (None, ss_io tick s2)"
    using assms(3) by (simp add: ss_fopen_def fs_query_def fs_allowed_def)
  let ?s' = "ss_io (\<lambda>w. close sock (snd (send_good E sock (''Failed to open file'' @ newline) w))) (ss_io tick s2)"
  have run: "write_file_async E garbage (join CHR ''|'' (''WRITE_ASYNC'' # path # rest)) sock s = Inr ?s'"
    unfolding write_file_async_def Let_def toks [OF cmds(1,3)] list.case i(1,2) andthen_simps prod.case fopen option.case ..
  have blocked: "andthen (lock_index path (ss_io f ?s')) (\<lambda>(i, s1). andthen (take_lock acquire_write_lock i s1) (g i)) = Inl Blocked"
    for f and g :: "nat \<Rightarrow> ss \<Rightarrow> 'a result"
  proof -
    have "doesLockRequestedFileAlreadExist (ss_io f ?s') path = Some i"
      using i(3) find_lock_cong [of "ss_io f ?s'" s2 path] by simp
    then have "lock_index path (ss_io f ?s') = Inr (i, ss_io f ?s')" by (simp add: lock_index_def)
    then show ?thesis using i(4) by (simp add: take_lock_def acquire_write_lock_def)
  qed
  have id: "?s' = ss_io (\<lambda>w. w) ?s'" by (simp add: ss_io_def)
  have "write_file_async E' g (join CHR ''|'' (''WRITE_ASYNC'' # path # ws)) fd ?s' = Inl Blocked"
    "write_file E' (join CHR ''|'' (''WRITE_SYNC'' # path # ws)) ?s' = Inl Blocked"
    if "list_all word_ok ws" for E' g ws fd
    unfolding write_file_async_def write_file_def Let_def toks [OF cmds(1) that] toks [OF cmds(2) that] list.case
    by (rule blocked) (subst id, rule blocked)
  moreover have "fs ?s' = fs s" using i(5) by (simp add: same_but_locks_def)
  ultimately show ?thesis using run by blast
qed

theorem failed_open_blocks_path_witness:
  "\<exists>s'. write_file_async (calm_env\<lparr>sys_fs_ok := \<lambda>t p. False\<rparr>) [] (join CHR ''|'' [''WRITE_ASYNC'', ''./a'', ''x'']) 5 idle_ss = Inr s' \<and>
    write_file calm_env (join CHR ''|'' [''WRITE_SYNC'', ''./a'', ''hello'']) s' = Inl Blocked"
proof -
  have "list_all word_ok [''./a'', ''x'']" "list_all word_ok [''hello'']" by (simp_all add: word_ok_def)
  with failed_open_blocks_path [OF idle_ss_ok(1), of "''./a''" "[''x'']" "calm_env\<lparr>sys_fs_ok := \<lambda>t p. False\<rparr>" "[]" 5] idle_ss_ok(2)
  show ?thesis by fastforce
qed

end
