(* ===== verification/Ss_Files.thy ===== *)
theory Ss_Files
  imports Ss_State "HOL-Library.Word"
begin

text \<open>
  The file operations of \<^verbatim>\<open>helper.c\<close> that a storage server runs for a command:
  \<^verbatim>\<open>parse_command\<close>, \<^verbatim>\<open>create_directory\<close>,
  \<^verbatim>\<open>delete_directory\<close>, \<^verbatim>\<open>create_file\<close>, \<^verbatim>\<open>remove_file\<close>,
  \<^verbatim>\<open>list_file\<close>, \<^verbatim>\<open>read_file\<close>, \<^verbatim>\<open>read_mp3_file\<close> and
  \<^verbatim>\<open>send_file_metadata\<close>. An operation that fills a reply buffer returns its value, the
  reply and the new state. The argument \<^verbatim>\<open>args[1]\<close> is \<open>None\<close> when it is NULL.
\<close>

section \<open>Arguments\<close>

text \<open>The tokens are stored from \<^verbatim>\<open>args[0]\<close> on; the callers give an array of
  \<open>n\<close> entries, which is neither initialised nor checked.\<close>

definition parse_command :: "nat \<Rightarrow> string \<Rightarrow> string list result" where
  "parse_command n command =
     (let args = strtok_all '' '' command in if length args \<le> n then Inr args else Inl OutOfBounds)"

section \<open>Operations that change the tree\<close>

definition path_reply :: "string \<Rightarrow> string \<Rightarrow> string" where
  "path_reply text path = snprintf BUFFER_SIZE (text @ path @ newline)"

definition invalid_format :: string where
  "invalid_format = ''Invalid command format'' @ newline"

definition create_directory :: "env \<Rightarrow> string option \<Rightarrow> ss \<Rightarrow> int \<times> string \<times> ss" where
  "create_directory E a s =
     (case a of
        None \<Rightarrow> (-1, invalid_format, s)
      | Some path \<Rightarrow>
          (case fs_call E fs_mkdir path s of
             (False, s1) \<Rightarrow> (-1, path_reply ''Could not create folder @ '' path, s1)
           | (True, s1) \<Rightarrow> (0, path_reply ''Created folder @ '' path, s1)))"

definition delete_directory :: "env \<Rightarrow> string option \<Rightarrow> ss \<Rightarrow> int \<times> string \<times> ss" where
  "delete_directory E a s =
     (case a of
        None \<Rightarrow> (-1, invalid_format, s)
      | Some path \<Rightarrow>
          (case fs_call E fs_rmdir path s of
             (False, s1) \<Rightarrow> (-1, path_reply ''Could not delete folder @ '' path, s1)
           | (True, s1) \<Rightarrow> (0, path_reply ''Deleted folder @ '' path, s1)))"

definition create_file :: "env \<Rightarrow> string option \<Rightarrow> ss \<Rightarrow> int \<times> string \<times> ss" where
  "create_file E a s =
     (case a of
        None \<Rightarrow> (-1, invalid_format, s)
      | Some path \<Rightarrow>
          (case ss_fopen E False path s of
             (None, s1) \<Rightarrow> (-1, path_reply ''Could not create file @ '' path, s1)
           | (Some p, s1) \<Rightarrow> (0, path_reply ''Created file @ '' path, s1)))"

definition remove_file :: "env \<Rightarrow> string option \<Rightarrow> ss \<Rightarrow> int \<times> string \<times> ss" where
  "remove_file E a s =
     (case a of
        None \<Rightarrow> (-1, invalid_format, s)
      | Some path \<Rightarrow>
          (case fs_call E fs_remove path s of
             (False, s1) \<Rightarrow> (-1, path_reply ''Could not remove file @ '' path, s1)
           | (True, s1) \<Rightarrow> (0, path_reply ''Removed file @ '' path, s1)))"

section \<open>Listing a directory\<close>

fun open_dir :: "fnode \<Rightarrow> string list \<Rightarrow> string \<Rightarrow> (string \<times> fnode) list option" where
  "open_dir n wd path =
     (case namei n wd path of
        None \<Rightarrow> None
      | Some p \<Rightarrow> (case fs_get n p of Some (FDir es) \<Rightarrow> Some es | _ \<Rightarrow> None))"

fun is_dir :: "fnode \<Rightarrow> bool" where
  "is_dir (FDir es) = True"
| "is_dir (FFile t) = False"

text \<open>What \<^verbatim>\<open>readdir\<close> gives: the two dot entries and the names in the directory.\<close>

definition dir_entries :: "(string \<times> fnode) list \<Rightarrow> (string \<times> bool) list" where
  "dir_entries es = (''.'', True) # (''..'', True) # map (\<lambda>(c, m). (c, is_dir m)) es"

definition ESC :: char where "ESC = CHR 0x1B"

definition list_line :: "string \<times> bool \<Rightarrow> string" where
  "list_line e = (if snd e then ESC # ''[34m'' else ESC # ''[0m'') @ fst e @ ESC # ''[0m'' @ newline"

text \<open>\<open>buf\<close> is the filled part of the buffer. A line that does not fit is put at its start after the
  filled part was sent; one that fills the buffer exactly loses its last byte to the NUL, a longer one
  makes the offset point behind the buffer.\<close>

definition first_line :: "string \<Rightarrow> string result" where
  "first_line l =
     (if length l < BUFFER_SIZE then Inr l
      else if length l = BUFFER_SIZE then Inr (butlast l @ [CHR 0x00])
      else Inl OutOfBounds)"

fun list_loop :: "env \<Rightarrow> int \<Rightarrow> (string \<times> bool) list \<Rightarrow> string \<Rightarrow> ss \<Rightarrow> (int \<times> ss) result" where
  "list_loop E sock [] buf s =
     (if buf = [] then Inr (0, s)
      else (case ss_val (send_good E sock buf) s of (r, s1) \<Rightarrow> Inr (if r < 0 then -1 else 0, s1)))"
| "list_loop E sock (e # es) buf s =
     (let line = list_line e in
      if BUFFER_SIZE - length buf \<le> length line
      then (case ss_val (send_good E sock buf) s of (r, s1) \<Rightarrow>
             if r < 0 then Inr (-1, s1)
             else andthen (first_line line) (\<lambda>buf1. list_loop E sock es buf1 s1))
      else list_loop E sock es (buf @ line) s)"

definition list_file :: "env \<Rightarrow> string option \<Rightarrow> int \<Rightarrow> ss \<Rightarrow> (int \<times> ss) result" where
  "list_file E a sock s =
     (case a of
        None \<Rightarrow> Inr (-1, snd (ss_val (send_good E sock ''Invalid Command Format'') s))
      | Some path \<Rightarrow>
          (case fs_query E open_dir path s of
             (None, s1) \<Rightarrow> Inr (-1, snd (ss_val (send_good E sock (path_reply ''Could not list folder @ '' path)) s1))
           | (Some es, s1) \<Rightarrow> list_loop E sock (dir_entries es) [] s1))"

section \<open>Sending a file\<close>

function read_loop :: "nat \<Rightarrow> env \<Rightarrow> int \<Rightarrow> string \<Rightarrow> ss \<Rightarrow> int \<times> ss" where
  "read_loop n E sock t s =
     (if t = [] \<or> n = 0 then (0, s)
      else (case ss_val (send_good E sock (take n t)) s of (r, s1) \<Rightarrow>
             if r < 0 then (-1, s1) else read_loop n E sock (drop n t) s1))"
  by pat_completeness auto
termination
  by (relation "measure (\<lambda>(n, E, sock, t, s). length t)") auto

declare read_loop.simps [simp del]

text \<open>A directory can be opened, but \<^verbatim>\<open>read\<close> on it fails.\<close>

definition stream_file :: "nat \<Rightarrow> env \<Rightarrow> string option \<Rightarrow> int \<Rightarrow> ss \<Rightarrow> int \<times> ss" where
  "stream_file bs E a sock s =
     (case a of
        None \<Rightarrow>
          (case ss_val (send_good E sock ''Invalid Command Format'') s of (r, s1) \<Rightarrow>
             if r < 0 then (-1, s1) else (-1, ss_io (close sock) s1))
      | Some path \<Rightarrow>
          (case fs_query E open_read path s of
             (None, s1) \<Rightarrow>
               (-1, ss_io (close sock)
                  (snd (ss_val (send_good E sock (snprintf bs (''Could not open file: '' @ path @ newline))) s1)))
           | (Some (FDir es), s1) \<Rightarrow> (-1, ss_io (close sock) s1)
           | (Some (FFile t), s1) \<Rightarrow>
               (case read_loop bs E sock t s1 of (r, s2) \<Rightarrow> (r, ss_io (close sock) s2))))"

definition read_file :: "env \<Rightarrow> string option \<Rightarrow> int \<Rightarrow> ss \<Rightarrow> int \<times> ss" where
  "read_file = stream_file BUFFER_SIZE"

definition read_mp3_file :: "env \<Rightarrow> string option \<Rightarrow> int \<Rightarrow> ss \<Rightarrow> int \<times> ss" where
  "read_mp3_file = stream_file BUFFER_SIZE_FOR_MUSIC"

section \<open>Metadata\<close>

text \<open>The fields of \<^verbatim>\<open>struct stat\<close> that do not come from the tree, and the texts
  \<^verbatim>\<open>ctime\<close> makes of its times.\<close>

record stat =
  st_mode :: "32 word"
  st_blocks :: int
  st_blksize :: int
  st_nlink :: int
  st_uid :: int
  st_gid :: int
  atime_text :: string
  mtime_text :: string
  ctime_text :: string

text \<open>The nine permission bits are the lowest bits of the mode, from the owner's read bit down.\<close>

definition permissions :: "bool \<Rightarrow> 32 word \<Rightarrow> string" where
  "permissions d mode =
     (if d then CHR ''d'' else CHR ''-'') #
     map (\<lambda>(b, c). if bit mode b then c else CHR ''-'')
       [(8, CHR ''r''), (7, CHR ''w''), (6, CHR ''x''), (5, CHR ''r''), (4, CHR ''w''), (3, CHR ''x''),
        (2, CHR ''r''), (1, CHR ''w''), (0, CHR ''x'')]"

definition rule_line :: string where
  "rule_line = ''-----------------------------------'' @ newline"

definition metadata_text :: "string \<Rightarrow> fnode \<Rightarrow> int \<Rightarrow> stat \<Rightarrow> string" where
  "metadata_text filepath n sz st =
     ''Metadata for file or path: '' @ filepath @ newline @ rule_line @
     ''File Size: '' @ show_int sz @ '' bytes'' @ newline @
     ''Number of Blocks: '' @ show_int (st_blocks st) @ newline @
     ''Block Size: '' @ show_int (st_blksize st) @ '' bytes'' @ newline @
     ''File Permissions: '' @ permissions (is_dir n) (st_mode st) @ newline @
     ''Number of Links: '' @ show_int (st_nlink st) @ newline @
     ''File Owner (UID): '' @ show_int (st_uid st) @ newline @
     ''File Group (GID): '' @ show_int (st_gid st) @ newline @
     ''Last Access Time: '' @ atime_text st @
     ''Last Modification Time: '' @ mtime_text st @
     ''Last Status Change Time: '' @ ctime_text st @ rule_line"

fun fs_stat :: "fnode \<Rightarrow> string list \<Rightarrow> string \<Rightarrow> fnode option" where
  "fs_stat n wd path =
     (case namei n wd path of
        None \<Rightarrow> None
      | Some p \<Rightarrow>
          (case fs_get n p of Some (FFile t) \<Rightarrow> if trailing_slash path then None else Some (FFile t) | r \<Rightarrow> r))"

text \<open>The size of a directory is up to the file system.\<close>

definition send_file_metadata :: "env \<Rightarrow> stat \<Rightarrow> int \<Rightarrow> string \<Rightarrow> int \<Rightarrow> ss \<Rightarrow> ss" where
  "send_file_metadata E st dir_size filepath sockfd s =
     (case fs_query E fs_stat filepath s of
        (None, s1) \<Rightarrow>
          snd (ss_val (send E sockfd (path_reply ''Error retrieving file metadata for '' filepath)) s1)
      | (Some n, s1) \<Rightarrow>
          snd (ss_val (send E sockfd (snprintf BUFFER_SIZE
            (metadata_text filepath n (case n of FFile t \<Rightarrow> int (length t) | FDir es \<Rightarrow> dir_size) st))) s1))"

section \<open>The replies tell the truth\<close>

text \<open>The four operations that change the tree under one contract: what they need at the place the path
  names, and what they leave there.\<close>

datatype tree_op = Mkdir | Rmdir | Touch | Rm

fun run_op :: "tree_op \<Rightarrow> env \<Rightarrow> string option \<Rightarrow> ss \<Rightarrow> int \<times> string \<times> ss" where
  "run_op Mkdir = create_directory"
| "run_op Rmdir = delete_directory"
| "run_op Touch = create_file"
| "run_op Rm = remove_file"

fun needs :: "tree_op \<Rightarrow> entry \<Rightarrow> bool" where
  "needs Mkdir k = (k = Absent)"
| "needs Rmdir k = (k = Directory)"
| "needs Touch k = (k \<noteq> Directory)"
| "needs Rm k = (k \<noteq> Absent)"

fun leaves :: "tree_op \<Rightarrow> entry" where
  "leaves Mkdir = Directory"
| "leaves Rmdir = Absent"
| "leaves Touch = File []"
| "leaves Rm = Absent"

lemma path_reply_Could_not [simp]:
  "starts_with ''Could not'' (path_reply (''Could not'' @ t) path)"
  by (simp add: starts_with_def path_reply_def snprintf_def BUFFER_SIZE_def)

lemma path_reply_done [simp]:
  "t \<noteq> [] \<Longrightarrow> hd t \<noteq> CHR ''C'' \<Longrightarrow> \<not> starts_with ''Could not'' (path_reply t path)"
  "\<not> starts_with ''Could not'' (path_reply (CHR ''C'' # CHR ''r'' # t) path)"
  by (cases t; simp add: starts_with_def path_reply_def snprintf_def BUFFER_SIZE_def)+

lemma fs_call_cases:
  assumes "fs_call E op path s = (b, s')"
  obtains n where "b" "op (fs s) (cwd s) path = Some n" "s' = (ss_io tick s)\<lparr>fs := n\<rparr>" | "\<not> b" "s' = ss_io tick s"
  using assms by (auto simp: fs_call_def split: option.splits if_splits)

text \<open>What a successful call did, from the contract of the file system.\<close>

lemma fs_call_contract:
  assumes "ss_wf s" "fs_call E op path s = (True, s')"
    "\<And>n'. op (fs s) (cwd s) path = Some n' \<Longrightarrow> \<exists>p. namei (fs s) (cwd s) path = Some p \<and> P (kind_at (fs s) p) \<and> ok_tree n' \<and>
       kind_at n' = (kind_at (fs s))(p := k)"
  shows "\<exists>p. place s path = Some p \<and> P (kind_at (fs s) p) \<and> kind_at (fs s') = (kind_at (fs s))(p := k) \<and> ss_wf s'"
proof -
  obtain n where n: "op (fs s) (cwd s) path = Some n" "s' = (ss_io tick s)\<lparr>fs := n\<rparr>"
    by (rule fs_call_cases [OF assms(2)]) auto
  obtain p where "namei (fs s) (cwd s) path = Some p" "P (kind_at (fs s) p)" "ok_tree n" "kind_at n = (kind_at (fs s))(p := k)"
    using assms(3) [OF n(1)] by blast
  then show ?thesis using assms(1) by (intro exI [of _ p]) (simp add: place_def ss_wf_def n(2))
qed

lemma tree_op_success:
  assumes "ss_wf s" "run_op op E (Some path) s = (0, msg, s')"
  shows "\<exists>p. place s path = Some p \<and> needs op (kind_at (fs s) p) \<and> kind_at (fs s') = (kind_at (fs s))(p := leaves op) \<and> ss_wf s'"
proof -
  have ok: "ok_tree (fs s)" using assms(1) by (simp add: ss_wf_def)
  show ?thesis
  proof (cases op)
    case Mkdir
    then have "fs_call E fs_mkdir path s = (True, s')" using assms(2) by (auto simp: create_directory_def split: prod.splits bool.splits)
    from fs_call_contract [OF assms(1) this, of "\<lambda>k. k = Absent" Directory] tree.mkdir_only [OF ok, of "cwd s" path] show ?thesis
      using Mkdir by fastforce
  next
    case Rmdir
    then have "fs_call E fs_rmdir path s = (True, s')" using assms(2) by (auto simp: delete_directory_def split: prod.splits bool.splits)
    from fs_call_contract [OF assms(1) this, of "\<lambda>k. k = Directory" Absent] tree.rmdir_only [OF ok, of "cwd s" path] show ?thesis
      using Rmdir by fastforce
  next
    case Touch
    then obtain p where "ss_fopen E False path s = (Some p, s')" using assms(2) by (auto simp: create_file_def split: prod.splits option.splits)
    note f = ss_fopen_place [OF this]
    with Touch assms(1) writable_put [of p "ss_io tick s" "[]"] show ?thesis by (auto simp: writable_def)
  next
    case Rm
    then have "fs_call E fs_remove path s = (True, s')" using assms(2) by (auto simp: remove_file_def split: prod.splits bool.splits)
    from fs_call_contract [OF assms(1) this, of "\<lambda>k. k \<noteq> Absent" Absent] tree.rm_only [OF ok, of "cwd s" path] show ?thesis
      using Rm by fastforce
  qed
qed

lemma tree_op_failure:
  assumes "run_op op E (Some path) s = (r, msg, s')" "r \<noteq> 0"
  shows "r = -1 \<and> s' = ss_io tick s \<and> starts_with ''Could not'' msg"
  using assms path_reply_Could_not [of "'' create folder @ ''"] path_reply_Could_not [of "'' delete folder @ ''"]
    path_reply_Could_not [of "'' create file @ ''"] path_reply_Could_not [of "'' remove file @ ''"]
  by (cases op) (auto simp: create_directory_def delete_directory_def create_file_def remove_file_def
      split: prod.splits bool.splits option.splits elim!: fs_call_cases dest: ss_fopen_fails)

lemma tree_op_reply:
  assumes "run_op op E (Some path) s = (r, msg, s')"
  shows "r = 0 \<longleftrightarrow> \<not> starts_with ''Could not'' msg"
proof -
  have "\<not> starts_with ''Could not'' msg" if "r = 0"
    using assms that by (cases op) (auto simp: create_directory_def delete_directory_def create_file_def remove_file_def
      split: prod.splits bool.splits option.splits)
  then show ?thesis using tree_op_failure [OF assms] by blast
qed

text \<open>C20. The reply of a storage server to mkdir, rmdir, touch and rm tells the truth: it starts with
  ``Could not'' exactly when the operation failed, and then the file system is as before; otherwise the
  place the path names was fit for the operation, and exactly this place changed, to what the operation
  promises. The state stays well formed.\<close>

theorem replies_truthful:
  assumes "ss_wf s" "run_op op E (Some path) s = (r, msg, s')"
  shows "ss_wf s' \<and>
    (if starts_with ''Could not'' msg then r = -1 \<and> fs s' = fs s
     else r = 0 \<and> (\<exists>p. place s path = Some p \<and> needs op (kind_at (fs s) p) \<and>
       kind_at (fs s') = (kind_at (fs s))(p := leaves op)))"
proof (cases "r = 0")
  case True
  then show ?thesis using tree_op_success [of s op E path msg s'] tree_op_reply [OF assms(2)] assms by auto
next
  case False
  then show ?thesis using tree_op_failure [OF assms(2)] assms(1) by simp
qed

theorem replies_truthful_witness:
  "\<exists>msg s'. run_op Rm calm_env (Some ''./a'') idle_ss = (0, msg, s') \<and> kind_at (fs s') [''a''] = Absent"
proof -
  obtain r msg s' where run: "run_op Rm calm_env (Some ''./a'') idle_ss = (r, msg, s')" by (metis prod_cases3)
  have "fs_remove (fs idle_ss) (cwd idle_ss) ''./a'' \<noteq> None" by code_simp
  then have "r = 0" using run by (auto simp: remove_file_def fs_call_def fs_allowed_def)
  then show ?thesis
    using replies_truthful [OF idle_ss_wf run] run idle_ss_place(1) by (fastforce split: if_splits)
qed

text \<open>A directory that was just made can be removed again, and then every path of the file system is
  what it was before.\<close>

lemma mkdir_then_rmdir:
  assumes "ss_wf s" "create_directory E (Some path) s = (0, msg, s1)" "sys_fs_ok E' (clock (ss_net s1)) path"
  shows "\<exists>msg' s2. delete_directory E' (Some path) s1 = (0, msg', s2) \<and> kind_at (fs s2) = kind_at (fs s) \<and> ss_wf s2"
proof -
  have call: "fs_call E fs_mkdir path s = (True, s1)" using assms(2) by (auto simp: create_directory_def split: prod.splits bool.splits)
  obtain n where n: "fs_mkdir (fs s) (cwd s) path = Some n" "s1 = (ss_io tick s)\<lparr>fs := n\<rparr>"
    by (rule fs_call_cases [OF call]) auto
  have "ok_tree (fs s)" using assms(1) by (simp add: ss_wf_def)
  from tree.mkdir_rmdir [OF this n(1)] obtain n' where n': "fs_rmdir n (cwd s) path = Some n'" "ok_tree n'" "kind_at n' = kind_at (fs s)"
    by blast
  have "fs_call E' fs_rmdir path s1 = (True, (ss_io tick s1)\<lparr>fs := n'\<rparr>)"
    using n'(1) n(2) assms(3) by (simp add: fs_call_def fs_allowed_def)
  then show ?thesis using n' assms(1) n(2) by (simp add: delete_directory_def ss_wf_def)
qed

section \<open>What is sent\<close>

definition accepts_all :: "env \<Rightarrow> bool" where
  "accepts_all E \<longleftrightarrow> (\<forall>t f b. sys_send E t f b = SentBytes (length b))"

lemma send_all:
  "accepts_all E \<Longrightarrow> ss_val (send_good E fd b) s = (int (length b), ss_io (\<lambda>w. emit (Sent fd b) (tick w)) s)"
  by (simp add: accepts_all_def ss_val_eq ss_io_def send_good_trace)

text \<open>A run that only sends messages on one socket.\<close>

definition only_sent :: "int \<Rightarrow> string list \<Rightarrow> ss \<Rightarrow> ss \<Rightarrow> bool" where
  "only_sent fd msgs s s' \<longleftrightarrow> (\<exists>w. s' = s\<lparr>ss_net := w\<rparr> \<and> trace w = trace (ss_net s) @ map (Sent fd) msgs)"

lemma only_sent_refl [simp]: "only_sent fd [] s s"
  by (auto simp: only_sent_def intro!: exI [of _ "ss_net s"])

lemma only_sent_step:
  "only_sent fd msgs (ss_io (\<lambda>w. emit (Sent fd b) (tick w)) s) s' \<Longrightarrow> only_sent fd (b # msgs) s s'"
  by (auto simp: only_sent_def ss_io_def)

lemma BUFFER_SIZE_pos: "0 < BUFFER_SIZE"
  by (simp add: BUFFER_SIZE_def)

lemma read_loop_sends:
  assumes "accepts_all E" "0 < n"
  shows "\<exists>msgs s'. read_loop n E fd t s = (0, s') \<and> only_sent fd msgs s s' \<and> concat msgs = t \<and> (\<forall>m\<in>set msgs. length m \<le> n)"
proof (induction t arbitrary: s rule: length_induct)
  case (1 t)
  show ?case
  proof (cases "t = []")
    case True
    then show ?thesis by (intro exI [of _ "[]"] exI [of _ s]) (simp add: read_loop.simps)
  next
    case False
    let ?s1 = "ss_io (\<lambda>w. emit (Sent fd (take n t)) (tick w)) s"
    have "length (drop n t) < length t" using False assms(2) by simp
    then obtain msgs s' where m: "read_loop n E fd (drop n t) ?s1 = (0, s')" "only_sent fd msgs ?s1 s'" "concat msgs = drop n t"
      "\<forall>m\<in>set msgs. length m \<le> n"
      using 1 by blast
    have "read_loop n E fd t s = (0, s')"
      using m(1) False assms by (simp add: read_loop.simps [of n E fd t s] send_all)
    then show ?thesis
      using m only_sent_step [OF m(2)] by (intro exI [of _ "take n t # msgs"] exI [of _ s']) simp
  qed
qed

text \<open>Reading a file that exists sends exactly its contents, in pieces of at most the buffer size,
  then closes the connection, and changes nothing on the server.\<close>

lemma stream_file_run:
  assumes "accepts_all E" "sys_fs_ok E (clock (ss_net s)) path" "place s path = Some p" "kind_at (fs s) p = File t"
    "\<not> trailing_slash path" "0 < n"
  shows "\<exists>msgs s' w. stream_file n E (Some path) fd s = (0, s') \<and> s' = s\<lparr>ss_net := w\<rparr> \<and>
    trace w = trace (ss_net s) @ map (Sent fd) msgs @ [Closed fd] \<and> concat msgs = t \<and> (\<forall>m\<in>set msgs. length m \<le> n)"
proof -
  have "fs_query E open_read path s = (Some (FFile t), ss_io tick s)"
    using assms(2-5) by (simp add: fs_query_def fs_allowed_def open_read_def place_def kind_at_def)
  moreover obtain msgs s' where m: "read_loop n E fd t (ss_io tick s) = (0, s')" "only_sent fd msgs (ss_io tick s) s'"
    "concat msgs = t" "\<forall>m\<in>set msgs. length m \<le> n"
    using read_loop_sends [OF assms(1,6), of fd t "ss_io tick s"] by blast
  ultimately have "stream_file n E (Some path) fd s = (0, ss_io (close fd) s')"
    by (simp add: stream_file_def)
  moreover obtain w where "s' = s\<lparr>ss_net := w\<rparr>" "trace w = trace (ss_net s) @ map (Sent fd) msgs"
    using m(2) by (auto simp: only_sent_def ss_io_def)
  ultimately show ?thesis
    using m(3,4) by (intro exI [of _ msgs] exI [of _ "ss_io (close fd) s'"] exI [of _ "close fd w"]) (simp add: ss_io_def close_def)
qed

lemma list_loop_sends:
  assumes "accepts_all E"
  shows "(\<forall>e\<in>set es. length (list_line e) < BUFFER_SIZE) \<Longrightarrow> length buf < BUFFER_SIZE \<Longrightarrow>
    \<exists>msgs s'. list_loop E fd es buf s = Inr (0, s') \<and> only_sent fd msgs s s' \<and> concat msgs = buf @ concat (map list_line es) \<and>
      (\<forall>m\<in>set msgs. length m < BUFFER_SIZE)"
proof (induction es arbitrary: buf s)
  case Nil
  then show ?case
  proof (cases "buf = []")
    case False
    let ?s1 = "ss_io (\<lambda>w. emit (Sent fd buf) (tick w)) s"
    have "only_sent fd [buf] s ?s1" by (rule only_sent_step) simp
    with False Nil show ?thesis
      by (intro exI [of _ "[buf]"] exI [of _ ?s1]) (simp add: send_all [OF assms])
  qed (auto intro!: exI [of _ "[]"])
next
  case (Cons e es)
  let ?s1 = "ss_io (\<lambda>w. emit (Sent fd buf) (tick w)) s"
  show ?case
  proof (cases "BUFFER_SIZE - length buf \<le> length (list_line e)")
    case True
    obtain msgs s' where m: "list_loop E fd es (list_line e) ?s1 = Inr (0, s')" "only_sent fd msgs ?s1 s'"
      "concat msgs = list_line e @ concat (map list_line es)" "\<forall>m\<in>set msgs. length m < BUFFER_SIZE"
      using Cons.IH [of "list_line e" ?s1] Cons.prems by auto
    then have "list_loop E fd (e # es) buf s = Inr (0, s')"
      using True Cons.prems by (simp add: send_all [OF assms] first_line_def Let_def)
    then show ?thesis
      using m only_sent_step [OF m(2)] Cons.prems(2) by (intro exI [of _ "buf # msgs"] exI [of _ s']) simp
  next
    case False
    then show ?thesis using Cons.IH [of "buf @ list_line e" s] Cons.prems by (auto simp: Let_def)
  qed
qed

text \<open>C40. Listing a directory sends, cut into pieces that fit the buffer, exactly one coloured line per
  directory entry, the two dot entries included, as the unbuffered listing would.\<close>

theorem list_file_sends:
  assumes "accepts_all E" "sys_fs_ok E (clock (ss_net s)) path" "place s path = Some p" "fs_get (fs s) p = Some (FDir es)"
    "\<forall>(c, m)\<in>set es. length c \<le> 255"
  shows "\<exists>msgs s'. list_file E (Some path) fd s = Inr (0, s') \<and> only_sent fd msgs s s' \<and>
    concat msgs = concat (map list_line (dir_entries es)) \<and> (\<forall>m\<in>set msgs. length m < BUFFER_SIZE)"
proof -
  have "fs_query E open_dir path s = (Some es, ss_io tick s)"
    using assms(2-4) by (simp add: fs_query_def fs_allowed_def place_def)
  moreover have "\<forall>e\<in>set (dir_entries es). length (list_line e) < BUFFER_SIZE"
    using assms(5) by (auto simp: dir_entries_def list_line_def newline_def BUFFER_SIZE_def)
  moreover have "only_sent fd msgs (ss_io tick s) s' \<Longrightarrow> only_sent fd msgs s s'" for msgs s'
    by (auto simp: only_sent_def ss_io_def)
  moreover obtain msgs s' where "list_loop E fd (dir_entries es) [] (ss_io tick s) = Inr (0, s')" "only_sent fd msgs (ss_io tick s) s'"
    "concat msgs = concat (map list_line (dir_entries es))" "\<forall>m\<in>set msgs. length m < BUFFER_SIZE"
    using list_loop_sends [OF assms(1), of "dir_entries es" "[]" fd "ss_io tick s"] calculation(2) BUFFER_SIZE_pos by auto
  ultimately show ?thesis by (intro exI [of _ msgs] exI [of _ s']) (simp add: list_file_def)
qed

theorem list_file_sends_witness:
  "\<exists>msgs s'. list_file calm_env (Some ''.'') 5 idle_ss = Inr (0, s') \<and> trace (ss_net s') = map (Sent 5) msgs \<and>
    concat msgs = concat (map list_line [(''.'', True), (''..'', True), (''a'', False), (''docs'', True)])"
proof -
  have all: "accepts_all calm_env" "trace (ss_net idle_ss) = []" by (simp_all add: accepts_all_def idle_ss_def)
  have "place idle_ss ''.'' = Some []" by code_simp
  moreover have "fs_get (fs idle_ss) [] = Some (FDir [(''a'', FFile ''old''), (''docs'', FDir [])])" by (simp add: idle_ss_def)
  ultimately show ?thesis
    using list_file_sends [OF all(1), of idle_ss "''.''" "[]" "[(''a'', FFile ''old''), (''docs'', FDir [])]" 5] all(2)
    by (fastforce simp: only_sent_def dir_entries_def)
qed

end
