(* ===== verification/Fs_Graft.thy ===== *)
theory Fs_Graft
  imports Posix_Fs
begin

text \<open>
  Copying a subtree in the flat view of a file system: \<open>graft q m K\<close> is the view \<open>K\<close> with the tree
  \<open>m\<close> in place of everything at and below \<open>q\<close>. A copy that makes a directory and then copies its
  entries one by one builds the graft entry by entry.
\<close>

definition graft :: "string list \<Rightarrow> fnode \<Rightarrow> (string list \<Rightarrow> entry) \<Rightarrow> string list \<Rightarrow> entry" where
  "graft q m K r = (if prefix q r then kind_at m (drop (length q) r) else K r)"

definition vacant :: "string list \<Rightarrow> (string list \<Rightarrow> entry) \<Rightarrow> bool" where
  "vacant q K \<longleftrightarrow> (\<forall>r. prefix q r \<longrightarrow> K r = Absent)"

lemma vacant_place: "kind_at n q = Absent \<Longrightarrow> vacant q (kind_at n)"
  by (auto simp: vacant_def prefix_def below_absent)

lemma graft_leaf: "vacant q K \<Longrightarrow> leaf (Some m) \<Longrightarrow> graft q m K = K(q := kind_of (Some m))"
proof
  fix r
  assume v: "vacant q K" and l: "leaf (Some m)"
  show "graft q m K r = (K(q := kind_of (Some m))) r"
  proof (cases "prefix q r")
    case True
    then obtain t where "r = q @ t" by (auto simp: prefix_def)
    then show ?thesis
      using v leaf_below [OF l, of t] by (cases t) (auto simp: graft_def vacant_def kind_at_def)
  qed (auto simp: graft_def)
qed

text \<open>One more entry of a directory that is being copied.\<close>

lemma graft_snoc:
  assumes "c \<notin> fst ` set es"
  shows "graft (q @ [c]) m (graft q (FDir es) K) = graft q (FDir (es @ [(c, m)])) K"
proof
  fix r
  show "graft (q @ [c]) m (graft q (FDir es) K) r = graft q (FDir (es @ [(c, m)])) K r"
  proof (cases "prefix q r")
    case True
    then obtain t where t: "r = q @ t" by (auto simp: prefix_def)
    have c: "map_of es c = None" using assms by (simp add: map_of_eq_None_iff)
    show ?thesis
      using t c by (cases t) (auto simp: graft_def kind_at_def map_add_def split: option.splits)
  next
    case False
    then have "\<not> prefix (q @ [c]) r" using append_prefixD by blast
    with False show ?thesis by (simp add: graft_def)
  qed
qed

lemma graft_vacant:
  assumes "c \<notin> fst ` set es"
  shows "vacant (q @ [c]) (graft q (FDir es) K)"
proof -
  have "map_of es c = None" using assms by (simp add: map_of_eq_None_iff)
  then show ?thesis by (auto simp: vacant_def graft_def prefix_def)
qed

lemma graft_directory [simp]: "graft q (FDir es) K q = Directory"
  by (simp add: graft_def kind_at_def)

text \<open>Places that a change at or below \<open>q\<close> cannot affect.\<close>

definition apart :: "string list \<Rightarrow> string list \<Rightarrow> bool" where
  "apart p q \<longleftrightarrow> \<not> prefix p q \<and> \<not> prefix q p"

lemma apart_child: "apart p q \<Longrightarrow> apart p (q @ [c])" "apart p q \<Longrightarrow> apart (p @ [c]) q"
  by (auto simp: apart_def dest: append_prefixD)

lemma fs_get_put_apart: "apart p q \<Longrightarrow> fs_get (fs_put q v n) p = fs_get n p"
proof (induction q v n arbitrary: p rule: fs_put.induct)
  case (3 c v es)
  then show ?case by (cases p) (auto simp: apart_def update_conv' delete_conv' split: option.split)
next
  case (4 c d cs v es)
  show ?case
  proof (cases p)
    case (Cons e ps)
    then have "e = c \<Longrightarrow> apart ps (d # cs)" using "4.prems" by (auto simp: apart_def)
    then show ?thesis using Cons "4.IH" [of _ ps] by (auto simp: update_conv' split: option.split)
  qed (use "4.prems" in \<open>simp add: apart_def\<close>)
qed (auto simp: apart_def)

text \<open>Bounds for the recursions over a tree: its depth, and the longest path below it.\<close>

fun levels :: "fnode \<Rightarrow> nat" where
  "levels (FFile t) = 0"
| "levels (FDir es) = Suc (foldr (\<lambda>e k. max (levels (snd e)) k) es 0)"

lemma levels_entry: "(c, m) \<in> set es \<Longrightarrow> levels m < levels (FDir es)"
proof -
  assume "(c, m) \<in> set es"
  then have "levels m \<le> foldr (\<lambda>e k. max (levels (snd e)) k) es 0" by (induction es) (auto simp: le_max_iff_disj)
  then show ?thesis by simp
qed

fun fits :: "nat \<Rightarrow> nat \<Rightarrow> fnode \<Rightarrow> bool" where
  "fits b l (FFile t) = (l < b)"
| "fits b l (FDir es) = (l < b \<and> (\<forall>e\<in>set es. fits b (l + 1 + length (fst e)) (snd e)))"

lemma fits_bound: "fits b l m \<Longrightarrow> l < b"
  by (cases m) simp_all

end
