(* ===== verification/Ss_Copy.thy ===== *)
theory Ss_Copy
  imports Ss_Files Fs_Graft
begin

text \<open>
  Copies within one storage server: \<^verbatim>\<open>copy_file\<close>, \<^verbatim>\<open>copy_directory\<close> and
  \<^verbatim>\<open>copy_same\<close> of \<^verbatim>\<open>helper.c\<close>. The recursion of
  \<^verbatim>\<open>copy_directory\<close> has a bound on its depth, because a directory that is copied into itself
  makes it run without end; a depth of the copied tree is shown to be enough otherwise. What
  \<^verbatim>\<open>readdir\<close> gives is the directory when it was opened.
\<close>

section \<open>Files\<close>

definition COPY_CHUNK :: nat where "COPY_CHUNK = 4096"

text \<open>Append the pieces to the open destination until a write fails.\<close>

function copy_loop :: "env \<Rightarrow> string \<Rightarrow> string list \<Rightarrow> string \<Rightarrow> ss \<Rightarrow> ss" where
  "copy_loop E dest p t s =
     (if t = [] then s
      else if \<not> fs_allowed E dest s then ss_io tick s
      else copy_loop E dest p (drop COPY_CHUNK t) (ss_append p (take COPY_CHUNK t) (ss_io tick s)))"
  by pat_completeness auto
termination
  by (relation "measure (\<lambda>(E, dest, p, t, s). length t)") (auto simp: COPY_CHUNK_def)

declare copy_loop.simps [simp del]

text \<open>The source is read after the destination was emptied: a file copied onto itself is lost.\<close>

definition copy_file :: "env \<Rightarrow> string \<Rightarrow> string \<Rightarrow> ss \<Rightarrow> ss" where
  "copy_file E src dest s =
     (case fs_query E open_read src s of
        (None, s1) \<Rightarrow> s1
      | (Some n, s1) \<Rightarrow>
          (case ss_fopen E False dest s1 of
             (None, s2) \<Rightarrow> s2
           | (Some p, s2) \<Rightarrow>
               (case open_read (fs s2) (cwd s2) src of
                  Some (FFile t) \<Rightarrow> copy_loop E dest p t s2
                | _ \<Rightarrow> s2)))"

section \<open>Directories\<close>

fun copy_directory :: "nat \<Rightarrow> env \<Rightarrow> string \<Rightarrow> string \<Rightarrow> ss \<Rightarrow> ss result"
and copy_entries :: "nat \<Rightarrow> env \<Rightarrow> string \<Rightarrow> string \<Rightarrow> (string \<times> fnode) list \<Rightarrow> ss \<Rightarrow> ss result" where
  "copy_directory 0 E src dest s = Inl NoFuel"
| "copy_directory (Suc n) E src dest s =
     (case fs_query E fs_stat dest s of (st, s1) \<Rightarrow>
      case (if st = None then fs_call E fs_mkdir dest s1 else (True, s1)) of (made, s2) \<Rightarrow>
        if \<not> made then Inr s2
        else
          (case fs_query E open_dir src s2 of
             (None, s3) \<Rightarrow> Inr s3
           | (Some es, s3) \<Rightarrow> copy_entries n E src dest es s3))"
| "copy_entries n E src dest [] s = Inr s"
| "copy_entries n E src dest ((c, m) # es) s =
     (let src_path = snprintf MAX_PATH_SIZE (src @ ''/'' @ c); dest_path = snprintf MAX_PATH_SIZE (dest @ ''/'' @ c) in
      andthen (if is_dir m then copy_directory n E src_path dest_path s else Inr (copy_file E src_path dest_path s))
        (copy_entries n E src dest es))"

section \<open>copy_same\<close>

text \<open>\<^verbatim>\<open>strrchr(src, '/') + 1\<close>\<close>

definition after_slash :: "string \<Rightarrow> string result" where
  "after_slash src = (case strrchr src CHR ''/'' of None \<Rightarrow> Inl NullDeref | Some i \<Rightarrow> Inr (drop (Suc i) src))"

definition two_words :: "string \<Rightarrow> string \<Rightarrow> (string \<times> string) option" where
  "two_words lit buffer =
     (if starts_with lit buffer
      then (case scan_words (drop (length lit) buffer) of a # b # _ \<Rightarrow> Some (a, b) | _ \<Rightarrow> None)
      else None)"

definition copy_same :: "nat \<Rightarrow> env \<Rightarrow> string \<Rightarrow> ss \<Rightarrow> (string \<times> ss) result" where
  "copy_same n E buffer s =
     (case two_words ''copysame'' buffer of
        None \<Rightarrow> Inr (''Invalid input format. Expected: copysame <srcpath> <destpath>'' @ newline, s)
      | Some (src, dest) \<Rightarrow>
          if MAX_PATH_SIZE \<le> length src \<or> MAX_PATH_SIZE \<le> length dest then Inl OutOfBounds
          else
            (case fs_query E fs_stat src s of
               (None, s1) \<Rightarrow> Inr (''Source path does not exist'' @ newline, s1)
             | (Some m, s1) \<Rightarrow>
                 andthen (after_slash src) (\<lambda>base.
                 let final_dest = snprintf MAX_PATH_SIZE (dest @ ''/'' @ base) in
                 andthen (if is_dir m then copy_directory n E src final_dest s1 else Inr (copy_file E src final_dest s1))
                   (\<lambda>s2. Inr (''Finished Copying'' @ newline, s2)))))"

section \<open>Changes below one place\<close>

definition allows :: "env \<Rightarrow> bool" where
  "allows E \<longleftrightarrow> (\<forall>t p. sys_fs_ok E t p)"

text \<open>The run changed the network, what is left to receive and the tree at or below \<open>q\<close>, nothing else.\<close>

definition changes_at :: "string list \<Rightarrow> ss \<Rightarrow> ss \<Rightarrow> bool" where
  "changes_at q s s' \<longleftrightarrow> s' = s\<lparr>ss_net := ss_net s', fs := fs s', inbox := inbox s'\<rparr> \<and>
     (\<forall>r. apart r q \<longrightarrow> fs_get (fs s') r = fs_get (fs s) r) \<and> (ss_wf s \<longrightarrow> ss_wf s')"

lemma changes_at_io [simp]: "changes_at q s (ss_io f s)"
  by (simp add: changes_at_def ss_io_def ss_wf_def)

lemma changes_at_refl [simp]: "changes_at q s s"
  using changes_at_io [of q s "\<lambda>w. w"] by (simp add: ss_io_def)

lemma changes_at_trans [trans]: "changes_at q s s' \<Longrightarrow> changes_at q s' s'' \<Longrightarrow> changes_at q s s''"
  by (cases s; cases s'; cases s'') (simp add: changes_at_def)

lemma changes_at_cwd: "changes_at q s s' \<Longrightarrow> cwd s' = cwd s"
  by (cases s; cases s') (simp add: changes_at_def)

lemma changes_at_wf: "changes_at q s s' \<Longrightarrow> ss_wf s \<Longrightarrow> ss_wf s'"
  by (simp add: changes_at_def)

lemma changes_at_child: "changes_at (q @ [c]) s s' \<Longrightarrow> changes_at q s s'"
  by (simp add: changes_at_def apart_child)

lemma changes_at_put: "writable q s \<Longrightarrow> changes_at q s (ss_put q t s)"
proof -
  assume w: "writable q s"
  then show ?thesis
    using writable_put(3) [OF w] by (simp add: changes_at_def fs_get_put_apart) (simp add: ss_put_def fs_get_put_apart)
qed

text \<open>Paths keep their meaning while vacant places are filled.\<close>

lemma place_graft:
  assumes "kind_at (fs s') = graft q m (kind_at (fs s))" "vacant q (kind_at (fs s))" "cwd s' = cwd s" "place s path = Some p"
  shows "place s' path = Some p"
  unfolding place_def assms(3)
  by (rule namei_mono [OF _ assms(4) [unfolded place_def]]) (use assms(1,2) in \<open>auto simp: graft_def vacant_def\<close>)

lemma place_child:
  assumes "place s path = Some p" "kind_at (fs s) p = Directory" "proper c"
  shows "place s (path @ ''/'' @ c) = Some (p @ [c])"
  using namei_child [OF _ assms(2,3)] assms(1) by (simp add: place_def)

lemma child_no_slash: "proper c \<Longrightarrow> \<not> trailing_slash (path @ ''/'' @ c)"
  using last_in_set [of c] by (auto simp: trailing_slash_def proper_def simp del: last_in_set)

section \<open>Copies\<close>

lemma copy_loop_appends:
  assumes "allows E" "writable p s" "kind_at (fs s) p = File u"
  shows "changes_at p s (copy_loop E dest p t s) \<and> kind_at (fs (copy_loop E dest p t s)) = (kind_at (fs s))(p := File (u @ t))"
  using assms(2,3)
proof (induction t arbitrary: s u rule: length_induct)
  case (1 t)
  show ?case
  proof (cases "t = []")
    case True
    then show ?thesis using 1 by (simp add: copy_loop.simps fun_upd_idem)
  next
    case False
    let ?s1 = "ss_append p (take COPY_CHUNK t) (ss_io tick s)"
    have s1: "?s1 = ss_put p (u @ take COPY_CHUNK t) (ss_io tick s)"
      using 1 by (simp add: ss_append_def file_text_def)
    have w: "writable p (ss_io tick s)" using 1 by simp
    have k: "kind_at (fs ?s1) = (kind_at (fs s))(p := File (u @ take COPY_CHUNK t))"
      unfolding s1 using writable_put(1) [OF w] by simp
    have "length (drop COPY_CHUNK t) < length t" using False by (simp add: COPY_CHUNK_def)
    with 1(1) writable_put(2) [OF w, of "u @ take COPY_CHUNK t"] k
    have ih: "changes_at p ?s1 (copy_loop E dest p (drop COPY_CHUNK t) ?s1) \<and>
        kind_at (fs (copy_loop E dest p (drop COPY_CHUNK t) ?s1)) = (kind_at (fs ?s1))(p := File ((u @ take COPY_CHUNK t) @ drop COPY_CHUNK t))"
      unfolding s1 by (metis fun_upd_same)
    have run: "copy_loop E dest p t s = copy_loop E dest p (drop COPY_CHUNK t) ?s1"
      using False assms(1) by (simp add: copy_loop.simps [of E dest p t s] fs_allowed_def allows_def)
    have "changes_at p s ?s1"
      using changes_at_trans [OF changes_at_io changes_at_put [OF w]] unfolding s1 .
    then show ?thesis using ih k run changes_at_trans by fastforce
  qed
qed

lemma copy_file_grafts:
  assumes "allows E" "ss_wf s" "place s src = Some p" "fs_get (fs s) p = Some (FFile t)" "\<not> trailing_slash src"
    "place s dest = Some q" "kind_at (fs s) q = Absent" "\<not> trailing_slash dest" "apart p q"
  shows "changes_at q s (copy_file E src dest s) \<and> kind_at (fs (copy_file E src dest s)) = graft q (FFile t) (kind_at (fs s))"
proof -
  have ok: "sys_fs_ok E x y" for x y using assms(1) by (simp add: allows_def)
  let ?s1 = "ss_io tick s" and ?s2 = "ss_put q [] (ss_io tick (ss_io tick s))"
  have opened: "fs_query E open_read src s = (Some (FFile t), ?s1)"
    using ok assms(3,4,5) by (simp add: fs_query_def fs_allowed_def open_read_def place_def)
  have "ss_fopen E False dest ?s1 = (Some q, ss_put q (if False then file_text q ?s1 else []) (ss_io tick ?s1))"
    by (rule ss_fopen_ok) (use ok assms(6-8) in simp_all)
  then have fopen: "ss_fopen E False dest ?s1 = (Some q, ?s2)" by simp
  have w: "writable q ?s1" using ss_fopen_place(2) [OF fopen] .
  then have w2: "writable q ?s2" "kind_at (fs ?s2) = (kind_at (fs s))(q := File [])"
    using writable_put [of q "ss_io tick ?s1" "[]"] by simp_all
  have vac: "vacant q (kind_at (fs s))" by (rule vacant_place [OF assms(7)])
  have "kind_at (fs ?s2) = graft q (FFile []) (kind_at (fs s))" using w2(2) graft_leaf [OF vac, of "FFile []"] by (simp add: leaf_def)
  then have "place ?s2 src = Some p" using place_graft [OF _ vac _ assms(3)] by simp
  moreover have "fs_get (fs ?s2) p = Some (FFile t)" using assms(4,9) by (simp add: ss_put_def fs_get_put_apart)
  ultimately have "open_read (fs ?s2) (cwd ?s2) src = Some (FFile t)" using assms(5) by (simp add: open_read_def place_def)
  then have run: "copy_file E src dest s = copy_loop E dest q t ?s2" using opened fopen by (simp add: copy_file_def)
  have "changes_at q s ?s2" using w changes_at_put [of q "ss_io tick ?s1"] changes_at_trans [OF changes_at_io] by (metis changes_at_io writable_io(1))
  moreover have "kind_at (fs ?s2) q = File []" using w2(2) by simp
  note loop = copy_loop_appends [OF assms(1) w2(1) this, of dest t]
  ultimately show ?thesis
    using loop run w2(2) graft_leaf [OF vac, of "FFile t"] by (auto simp: leaf_def intro: changes_at_trans)
qed

text \<open>The outcome of a copy: the tree is grafted at its destination.\<close>

definition copied :: "string list \<Rightarrow> fnode \<Rightarrow> ss \<Rightarrow> ss \<Rightarrow> bool" where
  "copied q m s s' \<longleftrightarrow> changes_at q s s' \<and> kind_at (fs s') = graft q m (kind_at (fs s))"

lemma fs_mkdir_grafts:
  assumes "allows E" "ss_wf s" "place s dest = Some q" "kind_at (fs s) q = Absent"
  obtains s' where "fs_call E fs_mkdir dest s = (True, s')" "copied q (FDir []) s s'"
proof -
  let ?n = "fs_put q (Some (FDir [])) (fs s)" and ?s' = "(ss_io tick s)\<lparr>fs := fs_put q (Some (FDir [])) (fs s)\<rparr>"
  have parent: "q \<noteq> []" "kind_at (fs s) (butlast q) = Directory" "proper (last q)"
    using place_parent [OF assms(3)] assms(4) by simp_all
  have call: "fs_call E fs_mkdir dest s = (True, ?s')"
    using assms by (simp add: fs_call_def fs_allowed_def allows_def fs_mkdir_def place_def)
  have "kind_at ?n = (kind_at (fs s))(q := Directory)"
    using kind_at_put [OF parent(1,2) leaf_place, of "Some (FDir [])"] assms(4) by (simp add: leaf_def)
  also have "\<dots> = graft q (FDir []) (kind_at (fs s))"
    using graft_leaf [OF vacant_place [OF assms(4)], of "FDir []"] by (simp add: leaf_def)
  finally have "kind_at ?n = graft q (FDir []) (kind_at (fs s))" .
  moreover have "changes_at q s ?s'"
    using ok_tree_put [of "fs s" q "Some (FDir [])"] parent assms(2) by (simp add: changes_at_def fs_get_put_apart ss_wf_def ss_io_def)
  ultimately show thesis using that [OF call] by (simp add: copied_def)
qed

text \<open>The situation in which a subtree can be copied: the source is there, the destination is free, neither
  lies below the other, and all paths fit their buffers.\<close>

definition copyable :: "string \<Rightarrow> string list \<Rightarrow> fnode \<Rightarrow> string \<Rightarrow> string list \<Rightarrow> ss \<Rightarrow> bool" where
  "copyable src p m dest q s \<longleftrightarrow> ss_wf s \<and> place s src = Some p \<and> fs_get (fs s) p = Some m \<and> \<not> trailing_slash src \<and>
     place s dest = Some q \<and> kind_at (fs s) q = Absent \<and> \<not> trailing_slash dest \<and> apart p q \<and>
     fits MAX_PATH_SIZE (length src) m \<and> fits MAX_PATH_SIZE (length dest) m"

lemma ss_wf_node: "ss_wf s \<Longrightarrow> fs_get (fs s) p = Some m \<Longrightarrow> wf_fs m"
  by (rule wf_fs_get) (simp_all add: ss_wf_def ok_tree_def)

text \<open>One entry of a directory: what its copy needs, and what it leaves for the next.\<close>

lemma copyable_entry:
  assumes "ss_wf s" "place s src = Some p" "fs_get (fs s) p = Some (FDir es)" "place s dest = Some q"
    "kind_at (fs s) = graft q (FDir ds) K" "apart p q" "(c, m) \<in> set es" "c \<notin> fst ` set ds"
    "fits MAX_PATH_SIZE (length src) (FDir es)" "fits MAX_PATH_SIZE (length dest) (FDir es)"
  shows "copyable (src @ ''/'' @ c) (p @ [c]) m (dest @ ''/'' @ c) (q @ [c]) s"
    "snprintf MAX_PATH_SIZE (src @ ''/'' @ c) = src @ ''/'' @ c" "snprintf MAX_PATH_SIZE (dest @ ''/'' @ c) = dest @ ''/'' @ c"
proof -
  have wf: "wf_fs (FDir es)" by (rule ss_wf_node [OF assms(1,3)])
  then have c: "proper c" using assms(7) by auto
  have m: "fs_get (fs s) (p @ [c]) = Some m" using wf assms(3,7) by (simp add: fs_get_append)
  have dirs: "kind_at (fs s) p = Directory" "kind_at (fs s) q = Directory"
    using assms(3) by (simp add: kind_at_def) (simp add: assms(5))
  have "kind_at (fs s) (q @ [c]) = Absent" using graft_vacant [OF assms(8), of q K] by (simp add: assms(5) vacant_def)
  moreover have "apart (p @ [c]) (q @ [c])" using apart_child assms(6) by blast
  moreover have "fits MAX_PATH_SIZE (length src + 1 + length c) m" "fits MAX_PATH_SIZE (length dest + 1 + length c) m"
    using assms(7,9,10) by fastforce+
  ultimately show "copyable (src @ ''/'' @ c) (p @ [c]) m (dest @ ''/'' @ c) (q @ [c]) s"
    "snprintf MAX_PATH_SIZE (src @ ''/'' @ c) = src @ ''/'' @ c" "snprintf MAX_PATH_SIZE (dest @ ''/'' @ c) = dest @ ''/'' @ c"
    using assms(1) m place_child [OF assms(2) dirs(1) c] place_child [OF assms(4) dirs(2) c] child_no_slash [OF c]
      fits_bound [of MAX_PATH_SIZE "length src + 1 + length c" m] fits_bound [of MAX_PATH_SIZE "length dest + 1 + length c" m]
    by (simp_all add: copyable_def)
qed

lemma copied_entry:
  assumes "kind_at (fs s) = graft q (FDir ds) K" "c \<notin> fst ` set ds" "copied (q @ [c]) m s s1" "apart p q"
  shows "kind_at (fs s1) = graft q (FDir (ds @ [(c, m)])) K" "changes_at q s s1" "fs_get (fs s1) p = fs_get (fs s) p"
    "place s path = Some r \<Longrightarrow> place s1 path = Some r"
proof -
  have ch: "changes_at (q @ [c]) s s1" "kind_at (fs s1) = graft (q @ [c]) m (kind_at (fs s))" using assms(3) by (simp_all add: copied_def)
  show "kind_at (fs s1) = graft q (FDir (ds @ [(c, m)])) K" using ch(2) assms(1) graft_snoc [OF assms(2)] by simp
  show "changes_at q s s1" by (rule changes_at_child [OF ch(1)])
  show "fs_get (fs s1) p = fs_get (fs s) p" using ch(1) apart_child(1) [OF assms(4)] by (simp add: changes_at_def)
  show "place s path = Some r \<Longrightarrow> place s1 path = Some r"
    by (rule place_graft [OF ch(2) _ changes_at_cwd [OF ch(1)]]) (use graft_vacant [OF assms(2)] assms(1) in simp_all)
qed

lemma copy_entries_graft:
  assumes IH: "\<And>src p m dest q s. is_dir m \<Longrightarrow> levels m \<le> n \<Longrightarrow> copyable src p m dest q s \<Longrightarrow>
      \<exists>s'. copy_directory n E src dest s = Inr s' \<and> copied q m s s'"
    and E: "allows E" and lev: "levels (FDir es) \<le> Suc n" and ap: "apart p q"
    and fit: "fits MAX_PATH_SIZE (length src) (FDir es)" "fits MAX_PATH_SIZE (length dest) (FDir es)"
  shows "es = ds @ rest \<Longrightarrow> ss_wf s \<Longrightarrow> place s src = Some p \<Longrightarrow> fs_get (fs s) p = Some (FDir es) \<Longrightarrow> place s dest = Some q \<Longrightarrow>
    kind_at (fs s) = graft q (FDir ds) K \<Longrightarrow>
    \<exists>s'. copy_entries n E src dest rest s = Inr s' \<and> changes_at q s s' \<and> kind_at (fs s') = graft q (FDir es) K"
proof (induction rest arbitrary: ds s)
  case Nil
  then show ?case by simp
next
  case (Cons e rest)
  obtain c m where e: "e = (c, m)" by (cases e)
  have wf: "wf_fs (FDir es)" by (rule ss_wf_node [OF Cons.prems(2,4)])
  have "distinct (map fst (ds @ (c, m) # rest))" using wf unfolding Cons.prems(1) e wf_fs.simps by (rule conjunct1)
  then have c: "c \<notin> fst ` set ds" "(c, m) \<in> set es" unfolding Cons.prems(1) e by simp_all
  note entry = copyable_entry [OF Cons.prems(2-5) Cons.prems(6) ap c(2,1) fit]
  have "\<exists>s1. (if is_dir m then copy_directory n E (src @ ''/'' @ c) (dest @ ''/'' @ c) s
      else Inr (copy_file E (src @ ''/'' @ c) (dest @ ''/'' @ c) s)) = Inr s1 \<and> copied (q @ [c]) m s s1"
  proof (cases m)
    case (FFile t)
    then show ?thesis
      using entry(1) copy_file_grafts [OF E, of s "src @ ''/'' @ c" "p @ [c]" t "dest @ ''/'' @ c" "q @ [c]"]
      by (simp add: copyable_def copied_def)
  next
    case (FDir es')
    have "levels m \<le> n" using levels_entry [OF c(2)] lev by linarith
    with FDir show ?thesis using IH [OF _ _ entry(1)] by (simp only: is_dir.simps if_True)
  qed
  then obtain s1 where s1: "(if is_dir m then copy_directory n E (src @ ''/'' @ c) (dest @ ''/'' @ c) s
      else Inr (copy_file E (src @ ''/'' @ c) (dest @ ''/'' @ c) s)) = Inr s1" "copied (q @ [c]) m s s1"
    by blast
  note next1 = copied_entry [OF Cons.prems(6) c(1) s1(2) ap]
  obtain s' where "copy_entries n E src dest rest s1 = Inr s'" "changes_at q s1 s'" "kind_at (fs s') = graft q (FDir es) K"
    using Cons.IH [of "ds @ [(c, m)]" s1, OF _ changes_at_wf [OF next1(2) Cons.prems(2)] next1(4) [OF Cons.prems(3)] _
        next1(4) [OF Cons.prems(5)] next1(1)] Cons.prems(1,4) next1(3) e by auto
  moreover have "copy_entries n E src dest (e # rest) s = copy_entries n E src dest rest s1"
    unfolding e copy_entries.simps Let_def entry(2,3) s1(1) andthen_simps ..
  ultimately show ?case using changes_at_trans [OF next1(2)] by (metis (no_types))
qed

lemma copy_directory_grafts:
  assumes "allows E" "is_dir m" "levels m \<le> n" "copyable src p m dest q s"
  shows "\<exists>s'. copy_directory n E src dest s = Inr s' \<and> copied q m s s'"
  using assms(2-4)
proof (induction n arbitrary: m src p dest q s)
  case 0
  then show ?case by (cases m) simp_all
next
  case (Suc n)
  obtain es where m: "m = FDir es" using Suc.prems(1) by (cases m) simp_all
  note cp = Suc.prems(3) [unfolded copyable_def m]
  let ?s1 = "ss_io tick s"
  have "fs_stat (fs s) (cwd s) dest = None" using cp by (simp add: place_def kind_at_def)
  then have st: "fs_query E fs_stat dest s = (None, ?s1)" by (simp add: fs_query_def)
  obtain s2 where s2: "fs_call E fs_mkdir dest ?s1 = (True, s2)" "copied q (FDir []) ?s1 s2"
    by (rule fs_mkdir_grafts [OF assms(1), of ?s1 dest q]) (use cp in simp_all)
  have vac: "vacant q (kind_at (fs ?s1))" using cp vacant_place by simp
  have s2': "kind_at (fs s2) = graft q (FDir []) (kind_at (fs s))" "changes_at q ?s1 s2" using s2(2) by (simp_all add: copied_def)
  have pl: "place s2 path = Some r" if "place s path = Some r" for path r
    using place_graft [OF _ vac changes_at_cwd [OF s2'(2)]] s2'(1) that by simp
  have get: "fs_get (fs s2) p = Some (FDir es)" using s2'(2) cp by (simp add: changes_at_def)
  let ?s3 = "ss_io tick s2"
  have op: "fs_query E open_dir src s2 = (Some es, ?s3)"
    using assms(1) pl cp get by (simp add: fs_query_def fs_allowed_def allows_def place_def)
  have run: "copy_directory (Suc n) E src dest s = copy_entries n E src dest es ?s3"
    using st s2(1) op by simp
  have wf: "ss_wf ?s3" using changes_at_wf [OF s2'(2)] cp by simp
  have "\<exists>s'. copy_entries n E src dest es ?s3 = Inr s' \<and> changes_at q ?s3 s' \<and> kind_at (fs s') = graft q (FDir es) (kind_at (fs s))"
    by (rule copy_entries_graft [where es = es and ds = "[]" and p = p])
      (use Suc.IH assms(1) Suc.prems(2) m cp pl get s2'(1) wf in simp_all)
  then show ?case
    using run changes_at_trans [OF changes_at_trans [OF changes_at_io s2'(2)] changes_at_trans [OF changes_at_io]]
    unfolding m copied_def by metis
qed

lemma copyable_io [simp]: "copyable src p m dest q (ss_io f s) = copyable src p m dest q s"
  by (simp add: copyable_def)

lemma copy_node_grafts:
  assumes "allows E" "levels m \<le> n" "copyable src p m dest q s"
  shows "\<exists>s'. (if is_dir m then copy_directory n E src dest s else Inr (copy_file E src dest s)) = Inr s' \<and> copied q m s s'"
proof (cases m)
  case (FFile t)
  then show ?thesis
    using assms(3) copy_file_grafts [OF assms(1), of s src p t dest q] by (simp add: copyable_def copied_def)
next
  case (FDir es)
  then show ?thesis using copy_directory_grafts [OF assms(1) _ assms(2,3)] by simp
qed

definition blank_free :: "string \<Rightarrow> bool" where
  "blank_free w \<longleftrightarrow> w \<noteq> [] \<and> set w \<inter> set white_space = {}"

lemma two_words_scan:
  "blank_free a \<Longrightarrow> blank_free b \<Longrightarrow> two_words lit (lit @ '' '' @ a @ '' '' @ b) = Some (a, b)"
  using strtok_all_word(1) [of a white_space "CHR '' ''" b] strtok_all_word(2) [of b white_space "CHR '' ''"]
  by (simp add: two_words_def starts_with_def scan_words_def blank_free_def white_space_def)

lemma strrchr_snoc: "c \<notin> set t \<Longrightarrow> strrchr (s @ c # t) c = Some (length s)"
  by (induction s) (simp_all add: iffD2 [OF strrchr_None])

lemma after_slash_child: "CHR ''/'' \<notin> set c \<Longrightarrow> after_slash (path @ ''/'' @ c) = Inr c"
  using strrchr_snoc [of "CHR ''/''" c path] by (simp add: after_slash_def)

text \<open>C12. A copy within one storage server returns, whenever the bound on the recursion is at least the
  depth of the copied tree, and leaves at the destination, under the name of the source, exactly the tree
  of the source; every other path of the file system is what it was. The source may be a file or a
  directory; the place for it must be free, and source and destination must not contain each other.\<close>

theorem copy_same_copies:
  assumes "allows E" "levels m \<le> n" "copyable (pre @ ''/'' @ base) p m (dest @ ''/'' @ base) q s"
    "blank_free (pre @ ''/'' @ base)" "blank_free dest" "CHR ''/'' \<notin> set base"
  shows "\<exists>s'. copy_same n E (''copysame '' @ (pre @ ''/'' @ base) @ '' '' @ dest) s = Inr (''Finished Copying'' @ newline, s') \<and>
    kind_at (fs s') = graft q m (kind_at (fs s)) \<and> ss_wf s'"
proof -
  let ?src = "pre @ ''/'' @ base" and ?dest = "dest @ ''/'' @ base"
  note cp = assms(3) [unfolded copyable_def]
  have len: "length ?src < MAX_PATH_SIZE" "length ?dest < MAX_PATH_SIZE" using cp fits_bound by blast+
  have words: "two_words ''copysame'' (''copysame '' @ ?src @ '' '' @ dest) = Some (?src, dest)"
    using two_words_scan [OF assms(4,5), of "''copysame''"] by simp
  have st: "fs_query E fs_stat ?src s = (Some m, ss_io tick s)"
    using assms(1) cp by (auto simp: fs_query_def fs_allowed_def allows_def place_def split: fnode.split)
  obtain s' where s': "(if is_dir m then copy_directory n E ?src ?dest (ss_io tick s) else Inr (copy_file E ?src ?dest (ss_io tick s))) = Inr s'"
    "copied q m (ss_io tick s) s'"
    using copy_node_grafts [OF assms(1,2), of ?src p ?dest q "ss_io tick s"] assms(3) by auto
  have "copy_same n E (''copysame '' @ ?src @ '' '' @ dest) s = Inr (''Finished Copying'' @ newline, s')"
    unfolding copy_same_def words option.case prod.case st after_slash_child [OF assms(6)] andthen_simps Let_def
      snprintf_short [OF len(2)] s'(1)
    using len by simp
  then show ?thesis using s'(2) cp changes_at_wf by (auto simp: copied_def)
qed

lemma kind_at_file: "kind_at (FFile t) [] = File t"
  by (simp add: kind_at_def)

theorem copy_same_copies_witness:
  "\<exists>s'. copy_same 3 calm_env ''copysame ./a ./docs'' idle_ss = Inr (''Finished Copying'' @ newline, s') \<and>
    kind_at (fs s') [''docs'', ''a''] = File ''old'' \<and> kind_at (fs s') [''a''] = File ''old''"
proof -
  have "copyable (''.'' @ ''/'' @ ''a'') [''a''] (FFile ''old'') (''./docs'' @ ''/'' @ ''a'') [''docs'', ''a''] idle_ss"
    unfolding copyable_def using idle_ss_wf idle_ss_place by (intro conjI) (simp | code_simp)+
  moreover have "allows calm_env" "blank_free (''.'' @ ''/'' @ ''a'')" "blank_free ''./docs''"
    by (simp_all add: allows_def blank_free_def white_space_def)
  ultimately show ?thesis
    using copy_same_copies [of calm_env "FFile ''old''" 3 "''.''" "''a''" "[''a'']" "''./docs''" "[''docs'', ''a'']" idle_ss] idle_ss_place(2)
    by (auto simp: graft_def kind_at_file)
qed

end
