(* ===== verification/Ss_Transfer.thy ===== *)
theory Ss_Transfer
  imports Ss_Copy
begin

text \<open>
  The copy protocol between two storage servers (\<^verbatim>\<open>helper.c\<close>): the sender
  (\<^verbatim>\<open>copy_different_src\<close>, \<^verbatim>\<open>copy_different_src_b\<close>,
  \<^verbatim>\<open>send_directory_over_network\<close>, \<^verbatim>\<open>send_file_over_network\<close>) and the receiver
  (\<^verbatim>\<open>copy_different_dest\<close>, \<^verbatim>\<open>copy_different_dest_b\<close>,
  \<^verbatim>\<open>receive_and_save_directory\<close>, \<^verbatim>\<open>receive_and_save_file\<close>). Every message of the
  sender but the last waits for an acknowledgement. The loop of the receiver is driven by the peer and
  has a bound on its iterations; the recursion of the sender has a bound on its depth.
\<close>

section \<open>Acknowledgements and sockets\<close>

definition ack_text :: string where "ack_text = ''Message received''"

definition send_ack :: "env \<Rightarrow> int \<Rightarrow> ss \<Rightarrow> ss" where
  "send_ack E fd s = snd (ss_val (send E fd ack_text) s)"

definition receive_ack :: "int \<Rightarrow> ss \<Rightarrow> (int \<times> ss) result" where
  "receive_ack fd s =
     andthen (ss_recv_good fd (BUFFER_SIZE - 1) s) (\<lambda>((r, b), s1).
       Inr (if r \<le> 0 then -1 else if c_str b = ack_text then 0 else -1, s1))"

text \<open>\<^verbatim>\<open>send(...) < 0 || receive_ack(...) < 0\<close>, negated.\<close>

definition send_acked :: "env \<Rightarrow> int \<Rightarrow> string \<Rightarrow> ss \<Rightarrow> (bool \<times> ss) result" where
  "send_acked E fd msg s =
     (case ss_val (send E fd msg) s of
        (SendErr e, s1) \<Rightarrow> Inr (False, s1)
      | (SentBytes n, s1) \<Rightarrow> andthen (receive_ack fd s1) (\<lambda>(a, s2). Inr (0 \<le> a, s2)))"

definition ss_info_to_socket :: "env \<Rightarrow> string \<Rightarrow> int \<Rightarrow> ss \<Rightarrow> int \<times> ss" where
  "ss_info_to_socket E ipOfSS portOfSS s =
     (let sock = sys_socket E (clock (ss_net s)); s1 = ss_io tick s in
      if sock < 0 then (-1, s1)
      else if \<not> sys_inet_pton E ipOfSS then (-1, ss_io (close sock) s1)
      else if \<not> sys_connect E (clock (ss_net s1)) sock ipOfSS portOfSS then (-1, ss_io (close sock) (ss_io tick s1))
      else (sock, ss_io tick s1))"

section \<open>The sender\<close>

function send_chunks :: "env \<Rightarrow> int \<Rightarrow> string \<Rightarrow> ss \<Rightarrow> ss result" where
  "send_chunks E fd t s =
     (if t = [] then Inr s
      else andthen (send_acked E fd (take BUFFER_SIZE t) s)
             (\<lambda>(sent, s1). if sent then send_chunks E fd (drop BUFFER_SIZE t) s1 else Inr s1))"
  by pat_completeness auto
termination
  by (relation "measure (\<lambda>(E, fd, t, s). length t)") (auto simp: BUFFER_SIZE_def)

declare send_chunks.simps [simp del]

text \<open>Only called for regular files.\<close>

definition send_file_over_network :: "env \<Rightarrow> int \<Rightarrow> string \<Rightarrow> nat \<Rightarrow> ss \<Rightarrow> ss result" where
  "send_file_over_network E fd src length_to_skip s =
     (case fs_query E open_read src s of
        (None, s1) \<Rightarrow> Inr s1
      | (Some n, s1) \<Rightarrow>
          if \<not> fs_allowed E src s1 then Inr (ss_io tick s1)
          else
            (let t = (case n of FFile t \<Rightarrow> t | FDir es \<Rightarrow> []) in
             andthen (send_acked E fd (snprintf (MAX_PATH_SIZE + 50) (''FILE '' @ drop length_to_skip src @ newline)) (ss_io tick s1))
               (\<lambda>(named, s2).
                  if \<not> named then Inr s2
                  else andthen (send_acked E fd (snprintf (MAX_PATH_SIZE + 50) (show_nat (length t) @ newline)) s2)
                    (\<lambda>(sized, s3). if sized then send_chunks E fd t s3 else Inr s3))))"

fun send_directory_over_network :: "nat \<Rightarrow> env \<Rightarrow> int \<Rightarrow> string \<Rightarrow> nat \<Rightarrow> ss \<Rightarrow> ss result"
and send_entries :: "nat \<Rightarrow> env \<Rightarrow> int \<Rightarrow> string \<Rightarrow> nat \<Rightarrow> (string \<times> fnode) list \<Rightarrow> ss \<Rightarrow> ss result" where
  "send_directory_over_network 0 E fd src length_to_skip s = Inl NoFuel"
| "send_directory_over_network (Suc n) E fd src length_to_skip s =
     (case fs_query E open_dir src s of
        (None, s1) \<Rightarrow> Inr s1
      | (Some es, s1) \<Rightarrow>
          andthen (send_acked E fd (snprintf MAX_PATH_SIZE (''DIR '' @ drop length_to_skip src @ newline)) s1)
            (\<lambda>(named, s2). if \<not> named then Inr s2 else send_entries n E fd src length_to_skip es s2))"
| "send_entries n E fd src length_to_skip [] s = Inr s"
| "send_entries n E fd src length_to_skip ((c, m) # es) s =
     (let full_path = snprintf MAX_PATH_SIZE (src @ ''/'' @ c) in
      andthen
        (case fs_query E fs_stat full_path s of
           (None, s1) \<Rightarrow> Inr s1
         | (Some (FDir es'), s1) \<Rightarrow> send_directory_over_network n E fd full_path length_to_skip s1
         | (Some (FFile t), s1) \<Rightarrow> send_file_over_network E fd full_path length_to_skip s1)
        (send_entries n E fd src length_to_skip es))"

text \<open>The number of bytes up to and with the last slash; the whole path is sent for a directory at the
  top, which the receiver of a backup relies on.\<close>

definition skip_length :: "bool \<Rightarrow> string \<Rightarrow> nat result" where
  "skip_length whole src =
     andthen (after_slash src) (\<lambda>base.
       let k = length src - length base in Inr (if k = 2 \<and> whole then 0 else k))"

definition copy_src :: "nat \<Rightarrow> env \<Rightarrow> bool \<Rightarrow> bool \<Rightarrow> string \<Rightarrow> string \<Rightarrow> int \<Rightarrow> ss \<Rightarrow> (string \<times> ss) result" where
  "copy_src n E whole lcopy src dest fd s =
     (case fs_query E fs_stat src s of
        (None, s1) \<Rightarrow> Inr (snprintf BUFFER_SIZE (''Source path '' @ src @ '' does not exist'' @ newline), s1)
      | (Some m, s1) \<Rightarrow>
          andthen (receive_ack fd s1) (\<lambda>(a, s2).
          if a < 0 then Inr (''Failed to receive acknowledgment for destination info'' @ newline, s2)
          else
            (case ss_val (send E fd (snprintf (MAX_PATH_SIZE + 10) (''DEST '' @ dest @ newline))) s2 of
               (SendErr e, s3) \<Rightarrow> Inr (''Failed to send destination info'' @ newline, s3)
             | (SentBytes k, s3) \<Rightarrow>
                 andthen (receive_ack fd s3) (\<lambda>(b, s4).
                 if b < 0 then Inr (''Failed to receive acknowledgment for destination info'' @ newline, s4)
                 else
                   andthen (skip_length whole src) (\<lambda>length_to_skip.
                   andthen
                     (if is_dir m then send_directory_over_network n E fd src length_to_skip s4
                      else send_file_over_network E fd src (if lcopy then 0 else length_to_skip) s4) (\<lambda>s5.
                   Inr (''Finished Copying'' @ newline, snd (ss_val (send E fd (''END'' @ newline)) s5))))))))"

text \<open>\<^verbatim>\<open>sscanf\<close> into arrays of the given sizes, then a number.\<close>

definition scan_fields :: "nat list \<Rightarrow> string \<Rightarrow> string list option result" where
  "scan_fields sizes buffer =
     (let ws = scan_words buffer; k = length sizes in
      if \<not> list_all (\<lambda>(w, n). length w < n) (zip ws sizes) then Inl OutOfBounds
      else Inr (if k < length ws \<and> scans_int (ws ! k) then Some (take k ws) else None))"

definition copy_different_src :: "nat \<Rightarrow> env \<Rightarrow> bool \<Rightarrow> string \<Rightarrow> int \<Rightarrow> ss \<Rightarrow> (string \<times> ss) result" where
  "copy_different_src n E lcopy buffer fd s =
     andthen (scan_fields [BUFFER_SIZE, MAX_PATH_SIZE, MAX_PATH_SIZE, 16] buffer) (\<lambda>fields.
       case fields of
         Some [cmd, src, dest, ip] \<Rightarrow> copy_src n E (starts_with ''./backupfolderforss'' dest) lcopy src dest fd s
       | _ \<Rightarrow> Inr (''Invalid input format. Expected: copydifferent/lcopy <srcpath> <destpath> <ip> <port>'' @ newline, s))"

definition copy_different_src_b :: "nat \<Rightarrow> env \<Rightarrow> string \<Rightarrow> int \<Rightarrow> ss \<Rightarrow> (string \<times> ss) result" where
  "copy_different_src_b n E buffer fd s =
     andthen
       (if starts_with ''copydifferentb'' buffer
        then scan_fields [MAX_PATH_SIZE, MAX_PATH_SIZE, 16] (drop (length ''copydifferentb'') buffer)
        else Inr None) (\<lambda>fields.
       case fields of
         Some [src, dest, ip] \<Rightarrow> copy_src n E True False src dest fd s
       | _ \<Rightarrow> Inr (''Invalid input format. Expected: copydifferent <srcpath> <destpath> <ip> <port>'' @ newline, s))"

section \<open>The receiver\<close>

definition receive_and_save_directory :: "env \<Rightarrow> string \<Rightarrow> ss \<Rightarrow> ss" where
  "receive_and_save_directory E dest s = snd (fs_call E fs_mkdir dest s)"

text \<open>The inner loop: receive until the piece is complete, \<open>None\<close> when the connection fails.\<close>

lemma ss_recv_good_bytes:
  "ss_recv_good fd n s = Inr ((r, b), s') \<Longrightarrow> 0 < r \<Longrightarrow> b \<noteq> [] \<and> length b \<le> n \<and> r = int (length b)"
  by (cases "inbox s fd"; cases "hd (inbox s fd)") (auto simp: ss_recv_good_def ss_recv_def split: if_splits)

declare andthen_cong [fundef_cong]

function recv_chunk :: "int \<Rightarrow> nat \<Rightarrow> string \<Rightarrow> ss \<Rightarrow> (string option \<times> ss) result" where
  "recv_chunk fd k acc s =
     (if k = 0 then Inr (Some acc, s)
      else andthen (ss_recv_good fd k s) (\<lambda>((r, b), s1).
             if 0 < r then recv_chunk fd (k - length b) (acc @ b) s1 else Inr (None, s1)))"
  by pat_completeness auto
termination
  by (relation "measure (\<lambda>(fd, k, acc, s). k)") (auto dest!: ss_recv_good_bytes intro!: diff_less)

declare recv_chunk.simps [simp del]

text \<open>\<open>k\<close> bytes of the file are missing.\<close>

function recv_file :: "env \<Rightarrow> int \<Rightarrow> string \<Rightarrow> string list \<Rightarrow> nat \<Rightarrow> ss \<Rightarrow> ss result" where
  "recv_file E fd dest p k s =
     (if k = 0 then Inr s
      else andthen (recv_chunk fd (min k BUFFER_SIZE) [] s) (\<lambda>(chunk, s1).
             case chunk of
               None \<Rightarrow> Inr s1
             | Some b \<Rightarrow>
                 if \<not> fs_allowed E dest s1 then Inr (ss_io tick s1)
                 else recv_file E fd dest p (k - min k BUFFER_SIZE) (send_ack E fd (ss_append p b (ss_io tick s1)))))"
  by pat_completeness auto
termination
  by (relation "measure (\<lambda>(E, fd, dest, p, k, s). k)") (auto simp: BUFFER_SIZE_def)

declare recv_file.simps [simp del]

definition receive_and_save_file :: "env \<Rightarrow> int \<Rightarrow> string \<Rightarrow> ss \<Rightarrow> ss result" where
  "receive_and_save_file E fd dest s =
     andthen (ss_recv_good fd (BUFFER_SIZE - 1) s) (\<lambda>((r, b), s1).
       if r \<le> 0 then Inr s1
       else
         (case ss_fopen E False dest (send_ack E fd s1) of
            (None, s2) \<Rightarrow> Inr s2
          | (Some p, s2) \<Rightarrow> recv_file E fd dest p (nat (atoi (c_str b))) s2))"

definition first_word :: "string \<Rightarrow> string result" where
  "first_word t = (case scan_words t of [] \<Rightarrow> Inl Uninitialised | w # ws \<Rightarrow> Inr w)"

text \<open>Where a received name goes; \<^verbatim>\<open>copy_different_dest\<close> drops a leading dot and slash.\<close>

definition full_path :: "bool \<Rightarrow> string \<Rightarrow> string \<Rightarrow> string" where
  "full_path strip base name =
     snprintf MAX_PATH_SIZE (base @ ''/'' @ (if strip \<and> starts_with ''./'' name then drop 2 name else name))"

fun dest_loop :: "nat \<Rightarrow> bool \<Rightarrow> env \<Rightarrow> int \<Rightarrow> string \<Rightarrow> ss \<Rightarrow> ss result" where
  "dest_loop 0 strip E fd base s = Inl NoFuel"
| "dest_loop (Suc n) strip E fd base s =
     andthen (ss_recv_good fd (BUFFER_SIZE - 1) s) (\<lambda>((r, b), s1).
       let buffer = c_str b in
       if r \<le> 0 then Inr s1
       else if starts_with (''END'' @ newline) buffer then Inr s1
       else if starts_with ''FILE '' buffer
         then andthen (first_word (drop 5 buffer)) (\<lambda>filename.
              andthen (receive_and_save_file E fd (full_path strip base filename) (send_ack E fd s1))
                (dest_loop n strip E fd base))
       else if starts_with ''DIR '' buffer
         then andthen (first_word (drop 4 buffer)) (\<lambda>dirname.
              dest_loop n strip E fd base (receive_and_save_directory E (full_path strip base dirname) (send_ack E fd s1)))
       else dest_loop n strip E fd base s1)"

definition copy_dest :: "nat \<Rightarrow> bool \<Rightarrow> env \<Rightarrow> int \<Rightarrow> ss \<Rightarrow> ss result" where
  "copy_dest n strip E fd s =
     andthen (ss_recv_good fd (BUFFER_SIZE - 1) (send_ack E fd s)) (\<lambda>((r, b), s1).
       if r \<le> 0 then Inr s1
       else if \<not> starts_with ''DEST '' (c_str b) then Inr s1
       else andthen (first_word (drop 5 (c_str b))) (\<lambda>base.
              dest_loop n strip E fd base (snd (fs_call E fs_mkdir base (send_ack E fd s1)))))"

definition copy_different_dest :: "nat \<Rightarrow> env \<Rightarrow> int \<Rightarrow> ss \<Rightarrow> ss result" where
  "copy_different_dest n = copy_dest n True"

definition copy_different_dest_b :: "nat \<Rightarrow> env \<Rightarrow> int \<Rightarrow> ss \<Rightarrow> ss result" where
  "copy_different_dest_b n = copy_dest n False"

end
