(* ===== verification/Ss_Index.thy ===== *)
theory Ss_Index
  imports Ns_Index
begin

text \<open>
  \<^verbatim>\<open>indexSubFolder\<close> of \<^verbatim>\<open>helper.c\<close>: the storage server's walk over its
  exported directory, sending one line per path and the end marker. A directory is the list of its
  entries in the order \<^verbatim>\<open>readdir\<close> gives them, with a flag whether
  \<^verbatim>\<open>opendir\<close> succeeds. The lemmas give the exact bytes sent and the paths the naming
  server parses from them.
\<close>

section \<open>The walk\<close>

datatype dirtree =
    Dir bool "(string \<times> dirtree) list"  \<comment> \<open>whether it can be opened, its entries\<close>
  | NoDir                                \<comment> \<open>an entry whose \<^verbatim>\<open>d_type\<close> is not \<^verbatim>\<open>DT_DIR\<close>\<close>

definition visible :: "string \<Rightarrow> bool" where
  "visible d_name \<longleftrightarrow> take 1 d_name \<noteq> ''.'' \<and> take 2 d_name \<noteq> ''..''"

fun indexSubFolders :: "env \<Rightarrow> string \<Rightarrow> dirtree \<Rightarrow> int \<Rightarrow> world \<Rightarrow> world"
and index_entries :: "env \<Rightarrow> string \<Rightarrow> (string \<times> dirtree) list \<Rightarrow> int \<Rightarrow> world \<Rightarrow> world" where
  "indexSubFolders E basePath NoDir sock w = w"
| "indexSubFolders E basePath (Dir opens es) sock w =
     (if \<not> opens then w
      else
        (case send_good E sock (snprintf MAX_PATH_SIZE (basePath @ [NL])) w of
           (sent, w1) \<Rightarrow> if sent < 0 then w1 else index_entries E basePath es sock w1))"
| "index_entries E basePath [] sock w = w"
| "index_entries E basePath ((d_name, t) # es) sock w =
     (if visible d_name
      then
        (let path = snprintf MAX_PATH_SIZE (basePath @ ''/'' @ d_name @ [NL]) in
         case send_good E sock path w of
           (sent, w1) \<Rightarrow>
             if sent < 0 then w1
             else
               index_entries E basePath es sock
                 (case t of NoDir \<Rightarrow> w1 | Dir opens es' \<Rightarrow> indexSubFolders E (butlast path) (Dir opens es') sock w1))
      else index_entries E basePath es sock w)"

definition indexSubFolder :: "env \<Rightarrow> string \<Rightarrow> dirtree \<Rightarrow> int \<Rightarrow> world \<Rightarrow> world" where
  "indexSubFolder E basePath t sock w =
     snd (send_good E sock (finished_marker @ [NL]) (indexSubFolders E basePath t sock w))"

section \<open>The paths of the listing\<close>

text \<open>The listed paths as lists of elements, in the order they are sent: the directory itself, then each
  visible entry, a subdirectory followed by its own listing.\<close>

fun listed :: "string list \<Rightarrow> dirtree \<Rightarrow> string list list"
and listed_entries :: "string list \<Rightarrow> (string \<times> dirtree) list \<Rightarrow> string list list" where
  "listed bs NoDir = []"
| "listed bs (Dir opens es) = (if opens then bs # listed_entries bs es else [])"
| "listed_entries bs [] = []"
| "listed_entries bs ((n, t) # es) =
     (if visible n then (bs @ [n]) # listed (bs @ [n]) t @ listed_entries bs es else listed_entries bs es)"

lemma join_snoc: "bs \<noteq> [] \<Longrightarrow> join d (bs @ [n]) = join d bs @ [d] @ n"
proof (induction bs)
  case (Cons b bs)
  then show ?case by (cases bs) simp_all
qed simp

definition path_text :: "string list \<Rightarrow> string" where
  "path_text ps = join CHR ''/'' ps"

lemma path_text_snoc: "bs \<noteq> [] \<Longrightarrow> path_text (bs @ [n]) = path_text bs @ ''/'' @ n"
  by (simp add: path_text_def join_snoc)

text \<open>Sending when the peer takes every message whole.\<close>

definition sends :: "int \<Rightarrow> string list \<Rightarrow> world \<Rightarrow> world" where
  "sends fd msgs w = \<lparr>clock = clock w + length msgs, trace = trace w @ map (Sent fd) msgs\<rparr>"

lemma sends_simps:
  "sends fd [] w = w" "sends fd ys (sends fd xs w) = sends fd (xs @ ys) w"
  "emit (Sent fd m) (tick w) = sends fd [m] w"
  by (simp_all add: sends_def emit_def tick_def)

definition path_line :: "string list \<Rightarrow> string" where
  "path_line ps = path_text ps @ [NL]"

lemma walk_sends:
  assumes "\<forall>t f b. sys_send E t f b = SentBytes (length b)"
  shows "bs \<noteq> [] \<Longrightarrow> (\<forall>ps\<in>set (listed bs t). length (path_text ps) + 1 < MAX_PATH_SIZE) \<Longrightarrow>
      indexSubFolders E (path_text bs) t fd w = sends fd (map path_line (listed bs t)) w"
    and "bs \<noteq> [] \<Longrightarrow> (\<forall>ps\<in>set (listed_entries bs es). length (path_text ps) + 1 < MAX_PATH_SIZE) \<Longrightarrow>
      index_entries E (path_text bs) es fd w = sends fd (map path_line (listed_entries bs es)) w"
proof (induction bs t and bs es arbitrary: w and w rule: listed_listed_entries.induct)
  case (1 bs)
  then show ?case by (simp add: sends_simps)
next
  case (2 bs opens es)
  show ?case
  proof (cases opens)
    case True
    then have "length (path_text bs) + 1 < MAX_PATH_SIZE" using 2(3) by simp
    then have "send_good E fd (snprintf MAX_PATH_SIZE (path_text bs @ [NL])) w = (int (length (path_line bs)), sends fd [path_line bs] w)"
      using assms by (simp add: send_good_trace sends_simps path_line_def)
    with 2 True show ?thesis by (simp add: sends_simps)
  qed (simp add: sends_simps)
next
  case (3 bs)
  then show ?case by (simp add: sends_simps)
next
  case (4 bs n t es)
  show ?case
  proof (cases "visible n")
    case True
    let ?p = "bs @ [n]"
    have "length (path_text ?p) + 1 < MAX_PATH_SIZE" using 4(5) True by simp
    moreover have pt: "path_text bs @ ''/'' @ n = path_text ?p" using path_text_snoc [OF 4(4)] by simp
    ultimately have sn: "snprintf MAX_PATH_SIZE (path_text bs @ ''/'' @ n @ [NL]) = path_line ?p"
      by (simp add: path_line_def flip: pt)
    have snd: "send_good E fd (path_line ?p) w = (int (length (path_line ?p)), sends fd [path_line ?p] w)"
      using assms by (simp add: send_good_trace sends_simps)
    have but: "butlast (path_line ?p) = path_text ?p" by (simp add: path_line_def)
    have "indexSubFolders E (path_text ?p) t fd w' = sends fd (map path_line (listed ?p t)) w'" for w'
      using 4(1) [OF True] 4(5) True by simp
    moreover have "index_entries E (path_text bs) es fd w' = sends fd (map path_line (listed_entries bs es)) w'" for w'
      using 4(2) [OF True] 4(4,5) True by simp
    ultimately show ?thesis
      using True sn snd by (cases t) (simp_all add: Let_def but sends_simps)
  next
    case False
    with 4(3-5) show ?thesis by simp
  qed
qed

section \<open>The listing as a stream\<close>

definition good_name :: "string \<Rightarrow> bool" where
  "good_name n \<longleftrightarrow> n \<noteq> [] \<and> n \<noteq> ''~'' \<and> set n \<inter> {CHR ''/'', NL, CHR 0x00} = {}"

text \<open>A path the naming server reads back as it was sent.\<close>

definition good_path :: "string list \<Rightarrow> bool" where
  "good_path ps \<longleftrightarrow>
     ps \<noteq> [] \<and> list_all good_name ps \<and> length ps < MAX_PATH \<and> length (path_text ps) + 1 < MAX_PATH_SIZE \<and>
     \<not> contains finished_marker (path_text ps)"

lemma set_join: "set (join d ws) \<subseteq> insert d (\<Union> (set ` set ws))"
  by (induction d ws rule: join.induct) auto

lemma join_not_Nil: "ws \<noteq> [] \<Longrightarrow> \<forall>w\<in>set ws. w \<noteq> [] \<Longrightarrow> join d ws \<noteq> []"
  by (induction d ws rule: join.induct) auto

lemma good_path_text:
  assumes "good_path ps"
  shows "plain_path (path_text ps) ps" "CHR 0x00 \<notin> set (path_text ps)"
proof -
  have el: "\<forall>w\<in>set ps. w \<noteq> [] \<and> CHR ''/'' \<notin> set w \<and> w \<noteq> ''~'' \<and> NL \<notin> set w \<and> CHR 0x00 \<notin> set w"
    using assms by (auto simp: good_path_def good_name_def list_all_iff)
  then have "NL \<notin> set (path_text ps)" "CHR 0x00 \<notin> set (path_text ps)"
    using set_join [of "CHR ''/''" ps] by (auto simp: path_text_def NL_def)
  moreover have "ParsePath (path_text ps) = Inr ps"
    using ParsePath_join_eq [of ps] el assms by (auto simp: path_text_def good_path_def)
  moreover have "path_text ps \<noteq> []"
    using el assms join_not_Nil by (auto simp: path_text_def good_path_def)
  ultimately show "plain_path (path_text ps) ps" "CHR 0x00 \<notin> set (path_text ps)"
    using assms by (simp_all add: plain_path_def good_path_def)
qed

lemma concat_lines: "concat (map path_line pss @ [finished_marker @ [NL]]) = listing (map path_text pss)"
  by (simp add: listing_def path_line_def [abs_def] comp_def)

lemma listing_paths: "list_all good_path pss \<Longrightarrow> list_all2 plain_path (map path_text pss) pss"
  by (induction pss) (auto simp: good_path_text)

lemma index_sends:
  assumes "\<forall>t f b. sys_send E t f b = SentBytes (length b)" "bs \<noteq> []" "list_all good_path (listed bs t)"
  shows "indexSubFolder E (path_text bs) t fd w = sends fd (map path_line (listed bs t) @ [finished_marker @ [NL]]) w"
proof -
  have "indexSubFolders E (path_text bs) t fd w = sends fd (map path_line (listed bs t)) w"
    using walk_sends(1) [OF assms(1,2)] assms(3) by (simp add: good_path_def list_all_iff)
  then show ?thesis
    using assms(1) by (simp add: indexSubFolder_def send_good_trace sends_simps)
qed

definition example_tree :: dirtree where
  "example_tree = Dir True [(''docs'', Dir True [(''a.txt'', NoDir), (''.git'', NoDir)]), (''b.txt'', NoDir)]"

lemma example_tree_listed:
  "listed [''.'', ''root''] example_tree =
     [[''.'', ''root''], [''.'', ''root'', ''docs''], [''.'', ''root'', ''docs''], [''.'', ''root'', ''docs'', ''a.txt''],
      [''.'', ''root'', ''b.txt'']]"
  "list_all good_path (listed [''.'', ''root''] example_tree)"
  by code_simp+

end
