(* ===== verification/Ss_Server.thy ===== *)
theory Ss_Server
  imports Ss_Write Ss_Transfer Ss_Index
begin

text \<open>
  The command handlers of the storage server (\<^verbatim>\<open>storage_server.c\<close>):
  \<^verbatim>\<open>process_client\<close> for one connection of a client or another storage server, and
  \<^verbatim>\<open>listen_to_nm\<close>, the loop over the commands of the naming server, with
  \<^verbatim>\<open>connect_to_nm\<close> and \<^verbatim>\<open>validate_path\<close>. The code reads memory it never
  assigned or already freed; what that memory holds is the parameter \<open>junk\<close>. A thread started for an
  asynchronous write is run where it is started.
\<close>

section \<open>Unassigned memory\<close>

record junk =
  slot :: "string option option"  \<comment> \<open>an unassigned \<^verbatim>\<open>args[1]\<close>: a bad pointer (\<open>None\<close>), NULL or a string\<close>
  freed :: string                 \<comment> \<open>\<^verbatim>\<open>tempBuffer\<close> after \<^verbatim>\<open>free\<close>\<close>
  stack :: string                 \<comment> \<open>the buffer of \<^verbatim>\<open>write_file_async\<close>\<close>
  heap :: string                  \<comment> \<open>the string in a fresh block of \<^verbatim>\<open>malloc\<close>\<close>
  dead :: "nat \<Rightarrow> string"          \<comment> \<open>what the path of a stale lock entry reads\<close>
  file_stat :: stat               \<comment> \<open>the fields of \<^verbatim>\<open>struct stat\<close> that do not come from the tree\<close>
  dir_size :: int

definition args1 :: "junk \<Rightarrow> string list \<Rightarrow> string option result" where
  "args1 J args =
     (if 1 < length args then Inr (Some (args ! 1))
      else (case slot J of None \<Rightarrow> Inl Uninitialised | Some a \<Rightarrow> Inr a))"

text \<open>A NULL path is stored in the lock table and compared by the next lookup.\<close>

definition nonnull :: "string option \<Rightarrow> string result" where
  "nonnull a = (case a of None \<Rightarrow> Inl NullDeref | Some x \<Rightarrow> Inr x)"

text \<open>The lock table keeps pointers into the buffers of the command that made an entry. When the command
  ends, such an entry is stale, and during a later command it reads what that memory holds then.\<close>

definition reused :: "junk \<Rightarrow> ss \<Rightarrow> ss" where
  "reused J s =
     s\<lparr>conc_array := map (\<lambda>(i, l). if i \<in> set (stale s) then l\<lparr>path_to_file := dead J i\<rparr> else l)
         (enumerate 0 (conc_array s))\<rparr>"

definition outdate :: "nat \<Rightarrow> ss \<Rightarrow> ss" where
  "outdate k s = s\<lparr>stale := [k..<num_of_requests s] @ stale s\<rparr>"

section \<open>process_client\<close>

definition serve_write_sync :: "env \<Rightarrow> string \<Rightarrow> int \<Rightarrow> ss \<Rightarrow> ss result" where
  "serve_write_sync E buffer sock s =
     andthen (write_file E buffer s) (\<lambda>(r, buffer2, i, s1).
     andthen (SendACKToNM E buffer (snd (ss_val (send_good E sock buffer2) s1))) (\<lambda>s2.
     Inr (outdate (num_of_requests s) (ss_io (close sock) s2))))"

text \<open>A read under the lock of the path.\<close>

definition serve_cat :: "env \<Rightarrow> string option \<Rightarrow> int \<Rightarrow> ss \<Rightarrow> ss result" where
  "serve_cat E a sock s =
     andthen (nonnull a) (\<lambda>path.
     andthen (lock_index path s) (\<lambda>(i, s1).
     andthen (take_lock acquire_read_lock i s1) (\<lambda>s2.
     Inr (outdate (num_of_requests s) (drop_lock release_read_lock i (snd (read_file E a sock s2)))))))"

definition serve_request :: "nat \<Rightarrow> env \<Rightarrow> junk \<Rightarrow> string \<Rightarrow> string option \<Rightarrow> int \<Rightarrow> ss \<Rightarrow> ss result" where
  "serve_request n E J buffer a sock s =
     (if starts_with ''sscopyb'' buffer then copy_different_dest_b n E sock s
      else if starts_with ''sscopy'' buffer then copy_different_dest n E sock s
      else if starts_with ''ls'' buffer then andthen (list_file E a sock s) (\<lambda>(r, s1). Inr s1)
      else if starts_with ''cat'' buffer then serve_cat E a sock s
      else if starts_with ''stream'' buffer then Inr (snd (read_mp3_file E a sock s))
      else if starts_with ''get_info'' buffer
        then andthen (nonnull a) (\<lambda>path. Inr (send_file_metadata E (file_stat J) (dir_size J) path sock s))
      else Inr s)"

text \<open>The buffer is parsed, freed and parsed again, into the same array of two entries.\<close>

definition client_args :: "junk \<Rightarrow> string \<Rightarrow> string option result" where
  "client_args J buffer =
     andthen (parse_command 2 buffer) (\<lambda>args.
     andthen (args1 J args) (\<lambda>shown.
     andthen (parse_command 2 (freed J)) (\<lambda>again. args1 J (again @ drop (length again) args))))"

definition ss_process_client :: "nat \<Rightarrow> env \<Rightarrow> junk \<Rightarrow> int \<Rightarrow> ss \<Rightarrow> ss result" where
  "ss_process_client n E J sock s =
     andthen (ss_recv_good sock BUFFER_SIZE (reused J s)) (\<lambda>((r, b), s1).
       if r < 0 \<or> r = int BUFFER_SIZE then Inl OutOfBounds
       else
         (let buffer = c_str b; async = starts_with ''WRITE_ASYNC|'' buffer in
          if starts_with ''WRITE_SYNC|'' buffer then serve_write_sync E buffer sock s1
          else
            andthen
              (if starts_with ''ping'' buffer then Inr (snd (ss_val (send_good E sock ''-ping-'') s1))
               else if async then write_file_async E (stack J) buffer sock s1
               else Inr s1) (\<lambda>s2.
            andthen (client_args J buffer) (\<lambda>a.
            andthen (serve_request n E J buffer a sock s2) (\<lambda>s3.
            Inr (if async then s3 else ss_io (close sock) s3))))))"

section \<open>Commands of the naming server\<close>

text \<open>\<^verbatim>\<open>args[1] + 2\<close>: for a string of one character it points behind the block.\<close>

definition backup_path :: "string option \<Rightarrow> ss \<Rightarrow> string result" where
  "backup_path a s =
     andthen (nonnull a) (\<lambda>x.
       if length x < 2 \<or> length (ROOT_PATH s) < 2 then Inl OutOfBounds
       else Inr (snprintf MAX_PATH_SIZE (''./backupfolderforss/'' @ drop 2 (ROOT_PATH s) @ ''/'' @ drop 2 x)))"

text \<open>The fourth and the fifth word of a copy command.\<close>

definition peer_address :: "string \<Rightarrow> (string \<times> int) result" where
  "peer_address buffer =
     (let ws = strtok_all '' '' buffer in
      if length ws < 4 then Inl NullDeref
      else if length ws < 5 then Inl Uninitialised
      else Inr (ws ! 3, atoi (ws ! 4)))"

definition copy_to_peer :: "env \<Rightarrow> string \<Rightarrow> (int \<Rightarrow> ss \<Rightarrow> (string \<times> ss) result) \<Rightarrow> string \<Rightarrow> ss \<Rightarrow> (string \<times> ss) result" where
  "copy_to_peer E hello copy buffer s =
     andthen (peer_address buffer) (\<lambda>(adr, prt).
       case ss_info_to_socket E adr prt s of (fd, s1) \<Rightarrow>
         if fd = -1 then Inr (''Could not connect to the destination server'' @ newline, s1)
         else
           (case ss_val (send_good E fd hello) s1 of (r, s2) \<Rightarrow>
              if r < 0 then Inr (''Failed to send message to client'' @ newline, s2) else copy fd s2))"

definition remove_locked :: "env \<Rightarrow> string option \<Rightarrow> ss \<Rightarrow> (string \<times> ss) result" where
  "remove_locked E a s =
     andthen (nonnull a) (\<lambda>path.
     andthen (lock_index path s) (\<lambda>(i, s1).
     andthen (take_lock acquire_delete_lock i s1) (\<lambda>s2.
       case remove_file E a s2 of (r, buffer2, s3) \<Rightarrow>
         Inr (buffer2, outdate (num_of_requests s) (drop_lock release_delete_lock i s3)))))"

text \<open>The exported directory as \<^verbatim>\<open>indexSubFolder\<close> walks it.\<close>

fun dirtree_of :: "fnode \<Rightarrow> dirtree" where
  "dirtree_of (FFile t) = NoDir"
| "dirtree_of (FDir es) = Dir True (map (\<lambda>e. (fst e, dirtree_of (snd e))) es)"

definition root_tree :: "env \<Rightarrow> ss \<Rightarrow> dirtree" where
  "root_tree E s =
     (if fs_allowed E (ROOT_PATH s) s
      then (case open_dir (fs s) (cwd s) (ROOT_PATH s) of None \<Rightarrow> Dir False [] | Some es \<Rightarrow> dirtree_of (FDir es))
      else Dir False [])"

definition send_index :: "env \<Rightarrow> int \<Rightarrow> ss \<Rightarrow> ss" where
  "send_index E sock s = ss_io (indexSubFolder E (ROOT_PATH s) (root_tree E s) sock) s"

definition backup_op :: "tree_op \<Rightarrow> env \<Rightarrow> string option \<Rightarrow> ss \<Rightarrow> ss result" where
  "backup_op op E a s =
     andthen (backup_path a s) (\<lambda>path. case run_op op E (Some path) s of (r, buffer2, s1) \<Rightarrow> Inr s1)"

definition reply_op :: "tree_op \<Rightarrow> env \<Rightarrow> string option \<Rightarrow> ss \<Rightarrow> (string \<times> ss) result" where
  "reply_op op E a s = (case run_op op E a s of (r, buffer2, s1) \<Rightarrow> Inr (buffer2, s1))"

text \<open>A command that is answered with the reply buffer.\<close>

definition answered :: "nat \<Rightarrow> env \<Rightarrow> junk \<Rightarrow> string \<Rightarrow> string list \<Rightarrow> ss \<Rightarrow> (string \<times> ss) result" where
  "answered n E J buffer args s =
     (if starts_with ''copydifferentb'' buffer then copy_to_peer E ''sscopyb'' (copy_different_src_b n E buffer) buffer s
      else if starts_with ''touch'' buffer then andthen (args1 J args) (\<lambda>a. reply_op Touch E a s)
      else if starts_with ''rmdir'' buffer then andthen (args1 J args) (\<lambda>a. reply_op Rmdir E a s)
      else if starts_with ''rm'' buffer then andthen (args1 J args) (\<lambda>a. remove_locked E a s)
      else if starts_with ''mkdir'' buffer then andthen (args1 J args) (\<lambda>a. reply_op Mkdir E a s)
      else if starts_with ''write'' buffer then andthen (write_file E buffer s) (\<lambda>(r, buffer2, i, s1). Inr (buffer2, outdate (num_of_requests s) s1))
      else if starts_with ''copysame'' buffer then copy_same n E buffer s
      else if starts_with ''lcopy'' buffer then copy_to_peer E ''sscopy'' (copy_different_src n E True buffer) buffer s
      else if starts_with ''copydifferent'' buffer then copy_to_peer E ''sscopy'' (copy_different_src n E False buffer) buffer s
      else Inr (heap J, s))"

definition send_reply :: "env \<Rightarrow> int \<Rightarrow> string \<Rightarrow> ss \<Rightarrow> ss" where
  "send_reply E sock buffer2 s = ss_io (send_or_report E sock buffer2 52) s"

text \<open>Does a command go on to the commands that are not answered?\<close>

definition unanswered :: "env \<Rightarrow> junk \<Rightarrow> string \<Rightarrow> string list \<Rightarrow> int \<Rightarrow> ss \<Rightarrow> ss result option" where
  "unanswered E J buffer args sock s =
     (if starts_with ''touchb'' buffer then Some (andthen (args1 J args) (\<lambda>a. backup_op Touch E a s))
      else if starts_with ''rmdirb'' buffer then Some (andthen (args1 J args) (\<lambda>a. backup_op Rmdir E a s))
      else if starts_with ''rmb'' buffer then Some (andthen (args1 J args) (\<lambda>a. backup_op Rm E a s))
      else if starts_with ''mkdirb'' buffer then Some (andthen (args1 J args) (\<lambda>a. backup_op Mkdir E a s))
      else if starts_with ''reindex'' buffer then Some (Inr (send_index E sock s))
      else None)"

definition nm_command :: "nat \<Rightarrow> env \<Rightarrow> junk \<Rightarrow> int \<Rightarrow> ss \<Rightarrow> ss result" where
  "nm_command n E J sock s =
     andthen (ss_recv_good sock BUFFER_SIZE (reused J s)) (\<lambda>((r, b), s1).
       if r \<le> 0 then Inl Exited
       else if r = int BUFFER_SIZE then Inl OutOfBounds
       else
         (let buffer = c_str b in
          andthen (parse_command 5 buffer) (\<lambda>args.
          let s2 = (if starts_with ''ping'' buffer then snd (ss_val (send_good E sock ''-ping-'') s1) else s1) in
          (case unanswered E J buffer args sock s2 of
             Some m \<Rightarrow> m
           | None \<Rightarrow> andthen (answered n E J buffer args s2) (\<lambda>(buffer2, s3). Inr (send_reply E sock buffer2 s3))))))"

text \<open>The loop, with a bound \<open>k\<close> on the commands.\<close>

fun listen_to_nm :: "nat \<Rightarrow> nat \<Rightarrow> env \<Rightarrow> (nat \<Rightarrow> junk) \<Rightarrow> int \<Rightarrow> ss \<Rightarrow> ss result" where
  "listen_to_nm 0 n E J sock s = Inl NoFuel"
| "listen_to_nm (Suc k) n E J sock s = andthen (nm_command n E (J k) sock s) (listen_to_nm k n E J sock)"

section \<open>Start\<close>

text \<open>The connection to the naming server and the registration: \<open>None\<close> when the socket had to be closed.\<close>

definition register_with_nm :: "env \<Rightarrow> string \<Rightarrow> ss \<Rightarrow> (int option \<times> ss) result" where
  "register_with_nm E ssi s =
     (let sock = sys_socket E (clock (ss_net s)); s1 = ss_io tick s in
      if sock < 0 then Inl Exited
      else if \<not> sys_setsockopt E (clock (ss_net s1)) then Inr (None, ss_io (\<lambda>w. close sock (printErrorDetails 44 w)) s1)
      else if \<not> sys_inet_pton E (nm_ip s) then Inl Exited
      else if \<not> sys_connect E (clock (ss_net s1)) sock (nm_ip s) SERVER_PORT then Inl Exited
      else
        (case ss_val (send_good E sock ssi) (ss_io tick s1) of (r, s2) \<Rightarrow>
           if r = -1 then Inl Exited else Inr (Some sock, s2)))"

definition connect_to_nm :: "nat \<Rightarrow> nat \<Rightarrow> env \<Rightarrow> (nat \<Rightarrow> junk) \<Rightarrow> string \<Rightarrow> ss \<Rightarrow> ss result" where
  "connect_to_nm k n E J ssi s =
     andthen (register_with_nm E ssi s) (\<lambda>(r, s1).
       case r of
         None \<Rightarrow> Inr s1
       | Some sock \<Rightarrow> andthen (listen_to_nm k n E J sock (send_index E sock s1)) (\<lambda>s2. Inr (ss_io (close sock) s2)))"

definition validate_path :: "env \<Rightarrow> string \<Rightarrow> ss \<Rightarrow> int \<times> ss" where
  "validate_path E path s =
     (if take 1 path \<noteq> ''.'' \<or> take 1 (drop 1 path) \<noteq> ''/'' then (-1, s)
      else (case fs_query E fs_stat path s of (r, s1) \<Rightarrow> (if r \<noteq> None then 1 else -2, s1)))"

end
