(* ===== verification/Ss_Frame.thy ===== *)
theory Ss_Frame
  imports Ss_Server
begin

text \<open>
  What every operation of the storage server keeps, whatever its peers and the operating system answer.
  The locale \<open>file_frame\<close> states the interface: a preorder on states that the primitive steps respect
  (network output, a receive, a write to an open file, the calls that change the tree); its lemmas carry the
  preorder through the file operations, the copies and the copy protocol. \<open>ss_frame\<close> extends it
  by changes of the lock table and carries the preorder through every command. They are interpreted by
  the invariant of the state, by the amount of input that is left, and by equality of the lock table.
\<close>

section \<open>Rules for outcomes\<close>

named_theorems frame_intros \<open>rules that carry a preorder on states through an operation\<close>

lemma ensures_bind: "ensures m (\<lambda>x. ensures (f x) Q) \<Longrightarrow> ensures (andthen m f) Q"
  by simp

lemma ensures_pure: "(\<And>x. m = Inr x \<Longrightarrow> Q x) \<Longrightarrow> ensures m Q"
  by (simp add: ensures_iff)

lemma ensures_chain: "ensures m P \<Longrightarrow> (\<And>x. P x \<Longrightarrow> ensures (f x) Q) \<Longrightarrow> ensures (andthen m f) Q"
  by (auto simp: ensures_iff)

lemma ensures_branch: "(b \<Longrightarrow> ensures m Q) \<Longrightarrow> (\<not> b \<Longrightarrow> ensures n Q) \<Longrightarrow> ensures (if b then m else n) Q"
  by simp

section \<open>The interface\<close>

locale file_frame =
  fixes R :: "ss \<Rightarrow> ss \<Rightarrow> bool"
  assumes R_refl: "R s s"
    and R_trans: "R s t \<Longrightarrow> R t u \<Longrightarrow> R s u"
    and R_io: "R s (ss_io f s)"
    and R_recv: "ss_recv fd n s = Inr (r, s') \<Longrightarrow> R s s'"
    and R_put: "p \<noteq> [] \<Longrightarrow> proper (last p) \<Longrightarrow> R s (ss_put p y s)"
    and R_call: "op \<in> {fs_mkdir, fs_rmdir, fs_remove} \<Longrightarrow> R s (snd (fs_call E op path s))"
begin

subsection \<open>Primitive steps\<close>

lemma step_io [frame_intros]: "R s0 s \<Longrightarrow> R s0 (ss_io f s)"
  by (rule R_trans [OF _ R_io])

lemma step_net: "R s0 s \<Longrightarrow> R s0 (s\<lparr>ss_net := w\<rparr>)"
  using step_io [of s0 s "\<lambda>x. w"] by (simp add: ss_io_def)

lemma step_val [frame_intros]: "R s0 s \<Longrightarrow> R s0 (snd (ss_val f s))"
  by (simp add: ss_val_eq step_io)

lemma step_query [frame_intros]: "R s0 s \<Longrightarrow> R s0 (snd (fs_query E op path s))"
  by (simp add: fs_query_def step_io)

lemma step_call [frame_intros]:
  "R s0 s \<Longrightarrow> R s0 (snd (fs_call E fs_mkdir path s))"
  "R s0 s \<Longrightarrow> R s0 (snd (fs_call E fs_rmdir path s))"
  "R s0 s \<Longrightarrow> R s0 (snd (fs_call E fs_remove path s))"
  by (rule R_trans [OF _ R_call]; simp)+

lemma step_put: "R s0 s \<Longrightarrow> p \<noteq> [] \<Longrightarrow> proper (last p) \<Longrightarrow> R s0 (ss_put p t s)"
  by (rule R_trans [OF _ R_put])

lemma step_append [frame_intros]: "R s0 s \<Longrightarrow> p \<noteq> [] \<Longrightarrow> proper (last p) \<Longrightarrow> R s0 (ss_append p t s)"
  by (simp add: ss_append_def step_put)

lemma step_fopen [frame_intros]: "R s0 s \<Longrightarrow> R s0 (snd (ss_fopen E keep path s))"
proof (cases "ss_fopen E keep path s")
  case (Pair a s')
  assume "R s0 s"
  then show ?thesis
    using Pair ss_fopen_fails [of E keep path s s'] ss_fopen_place [of E keep path s _ s']
    by (cases a) (auto simp: writable_def intro!: step_put step_io)
qed

lemma fopen_name: "fst (ss_fopen E keep path s) = Some p \<Longrightarrow> p \<noteq> [] \<and> proper (last p)"
  by (cases "ss_fopen E keep path s") (auto simp: writable_def dest: ss_fopen_place(2))

lemma step_recv [frame_intros]:
  "R s0 s \<Longrightarrow> (\<And>x s'. R s0 s' \<Longrightarrow> Q (x, s')) \<Longrightarrow> ensures (ss_recv_good fd n s) Q"
  using R_trans [OF _ R_recv, of s0 s fd n] by (fastforce simp: ss_recv_good_def ensures_iff)

lemma recvD: "ss_recv_good fd n s = Inr (x, s') \<Longrightarrow> R s0 s \<Longrightarrow> R s0 s'"
  using step_recv [of s0 s "\<lambda>(x, s'). R s0 s'" fd n] by (auto simp: ensures_iff)

subsection \<open>File operations\<close>

lemma step_op [frame_intros]:
  "R s0 s \<Longrightarrow> R s0 (snd (snd (create_directory E a s)))"
  "R s0 s \<Longrightarrow> R s0 (snd (snd (delete_directory E a s)))"
  "R s0 s \<Longrightarrow> R s0 (snd (snd (create_file E a s)))"
  "R s0 s \<Longrightarrow> R s0 (snd (snd (remove_file E a s)))"
  using step_call [of s0 s E] step_fopen [of s0 s E False]
  by (auto simp: create_directory_def delete_directory_def create_file_def remove_file_def split_beta split: option.splits bool.splits)

lemma step_run_op [frame_intros]: "R s0 s \<Longrightarrow> R s0 (snd (snd (run_op op E a s)))"
  by (cases op) (simp_all add: step_op)

lemma step_list_loop [frame_intros]:
  assumes "R s0 s" and Q: "\<And>r s'. R s0 s' \<Longrightarrow> Q (r, s')"
  shows "ensures (list_loop E fd es b s) Q"
  using assms(1)
  by (induction es arbitrary: b s)
    (auto simp: Let_def split_beta intro!: Q step_val ensures_pure [of "first_line l" for l])

lemma step_list_file [frame_intros]:
  assumes "R s0 s" and Q: "\<And>r s'. R s0 s' \<Longrightarrow> Q (r, s')"
  shows "ensures (list_file E a fd s) Q"
  using assms(1) by (auto simp: list_file_def split_beta split: option.splits intro!: frame_intros Q)

lemma step_read_loop [frame_intros]: "R s0 s \<Longrightarrow> R s0 (snd (read_loop n E fd t s))"
  by (induction n E fd t s rule: read_loop.induct) (subst read_loop.simps, auto simp: ss_val_eq intro!: step_io)

lemma step_read [frame_intros]:
  "R s0 s \<Longrightarrow> R s0 (snd (read_file E a fd s))" "R s0 s \<Longrightarrow> R s0 (snd (read_mp3_file E a fd s))"
  by (auto simp: read_file_def read_mp3_file_def stream_file_def split_beta split: option.splits fnode.splits
      intro!: frame_intros)

lemma step_metadata [frame_intros]: "R s0 s \<Longrightarrow> R s0 (send_file_metadata E st d path fd s)"
  by (auto simp: send_file_metadata_def split_beta split: option.splits intro!: frame_intros)

subsection \<open>Copies\<close>

lemma step_copy_loop: "R s0 s \<Longrightarrow> p \<noteq> [] \<Longrightarrow> proper (last p) \<Longrightarrow> R s0 (copy_loop E dest p t s)"
  by (induction E dest p t s rule: copy_loop.induct) (subst copy_loop.simps, auto intro!: frame_intros)

lemma step_copy_file [frame_intros]: "R s0 s \<Longrightarrow> R s0 (copy_file E src dest s)"
  using fopen_name [of E False]
  by (auto simp: copy_file_def split_beta split: option.splits fnode.splits intro!: frame_intros step_copy_loop)

lemma step_copy_entries:
  assumes "\<And>src dest s. R s0 s \<Longrightarrow> ensures (copy_directory n E src dest s) (R s0)" "R s0 s"
  shows "ensures (copy_entries n E src dest es s) (R s0)"
  using assms(2)
proof (induction es arbitrary: s)
  case (Cons e es)
  have "ensures (if is_dir (snd e) then copy_directory n E a b s else Inr (copy_file E a b s)) (R s0)" for a b
    using assms(1) Cons.prems by (simp add: step_copy_file)
  then show ?case by (cases e) (simp only: copy_entries.simps Let_def snd_conv, rule ensures_chain [OF _ Cons.IH])
qed simp

lemma step_copy_directory: "R s0 s \<Longrightarrow> ensures (copy_directory n E src dest s) (R s0)"
  by (induction n arbitrary: src dest s)
    (auto simp: split_beta split: option.splits intro!: frame_intros step_copy_entries)

lemma step_copy_same [frame_intros]:
  assumes "R s0 s" and Q: "\<And>b s'. R s0 s' \<Longrightarrow> Q (b, s')"
  shows "ensures (copy_same n E m s) Q"
  using assms(1)
  by (auto simp: copy_same_def Let_def split_beta split: option.splits
      intro!: frame_intros Q ensures_pure [of "after_slash x" for x] ensures_mono [OF step_copy_directory])

subsection \<open>The copy protocol\<close>

lemma step_receive_ack [frame_intros]:
  "R s0 s \<Longrightarrow> (\<And>r s'. R s0 s' \<Longrightarrow> Q (r, s')) \<Longrightarrow> ensures (receive_ack fd s) Q"
  by (auto simp: receive_ack_def intro!: step_recv)

lemma step_send_acked [frame_intros]:
  assumes "R s0 s" and Q: "\<And>r s'. R s0 s' \<Longrightarrow> Q (r, s')"
  shows "ensures (send_acked E fd m s) Q"
  using assms(1) by (auto simp: send_acked_def ss_val_eq split: send_raw.splits intro!: frame_intros Q)

lemma step_socket [frame_intros]: "R s0 s \<Longrightarrow> R s0 (snd (ss_info_to_socket E ip port s))"
  by (simp add: ss_info_to_socket_def Let_def step_io)

lemma step_send_ack [frame_intros]: "R s0 s \<Longrightarrow> R s0 (send_ack E fd s)"
  by (simp add: send_ack_def step_val)

lemma step_send_chunks [frame_intros]:
  assumes "R s0 s" and Q: "\<And>s'. R s0 s' \<Longrightarrow> Q s'"
  shows "ensures (send_chunks E fd t s) Q"
  using assms(1) by (induction E fd t s rule: send_chunks.induct) (subst send_chunks.simps, auto intro!: step_send_acked Q)

lemma step_send_file [frame_intros]:
  assumes "R s0 s" and Q: "\<And>s'. R s0 s' \<Longrightarrow> Q s'"
  shows "ensures (send_file_over_network E fd src k s) Q"
  using assms(1) by (auto simp: send_file_over_network_def Let_def split_beta split: option.splits intro!: frame_intros Q)

lemma step_send_entries:
  assumes "\<And>src s. R s0 s \<Longrightarrow> ensures (send_directory_over_network n E fd src k s) (R s0)" "R s0 s"
  shows "ensures (send_entries n E fd src k es s) (R s0)"
  using assms(2)
proof (induction es arbitrary: s)
  case (Cons e es)
  have "ensures (case fs_query E fs_stat p s of
           (None, s1) \<Rightarrow> Inr s1
         | (Some (FDir es'), s1) \<Rightarrow> send_directory_over_network n E fd p k s1
         | (Some (FFile t), s1) \<Rightarrow> send_file_over_network E fd p k s1) (R s0)" for p
    using Cons.prems by (auto simp: split_beta split: option.splits fnode.splits intro!: assms(1) frame_intros)
  then show ?case by (cases e) (simp only: send_entries.simps Let_def, rule ensures_chain [OF _ Cons.IH])
qed simp

lemma step_send_directory: "R s0 s \<Longrightarrow> ensures (send_directory_over_network n E fd src k s) (R s0)"
  by (induction n arbitrary: src s)
    (auto simp: split_beta split: option.splits intro!: frame_intros step_send_entries)

lemma step_copy_src [frame_intros]:
  assumes "R s0 s" and Q: "\<And>m s'. R s0 s' \<Longrightarrow> Q (m, s')"
  shows "ensures (copy_src n E whole lcopy src dest fd s) Q"
  using assms(1)
  by (auto simp: copy_src_def ss_val_eq split_beta split: option.splits send_raw.splits
      intro!: frame_intros Q ensures_pure [of "skip_length w x" for w x] ensures_mono [OF step_send_directory])

lemma step_copy_different_src [frame_intros]:
  assumes "R s0 s" and Q: "\<And>m s'. R s0 s' \<Longrightarrow> Q (m, s')"
  shows "ensures (copy_different_src n E lcopy m fd s) Q" "ensures (copy_different_src_b n E m fd s) Q"
  using assms(1)
  by (auto simp: copy_different_src_def copy_different_src_b_def split: option.splits list.splits
      intro!: frame_intros Q ensures_pure [of "scan_fields ns x" for ns x])

lemma step_recv_chunk [frame_intros]:
  assumes "R s0 s" and Q: "\<And>b s'. R s0 s' \<Longrightarrow> Q (b, s')"
  shows "ensures (recv_chunk fd k acc s) Q"
  using assms(1)
proof (induction k arbitrary: acc s rule: less_induct)
  case (less k)
  have "ensures (recv_chunk fd (k - length b) (acc @ b) s') Q" if "ss_recv_good fd k s = Inr ((r, b), s')" "0 < r" "0 < k" for r b s'
    using that recvD [OF that(1) less.prems] ss_recv_good_bytes [OF that(1,2)] by (intro less.IH) (auto intro: diff_less)
  then show ?case using less.prems by (subst recv_chunk.simps) (auto intro!: ensures_pure [of "ss_recv_good fd k s"] Q intro: recvD)
qed

lemma step_recv_file [frame_intros]:
  assumes "R s0 s" "p \<noteq> []" "proper (last p)" and Q: "\<And>s'. R s0 s' \<Longrightarrow> Q s'"
  shows "ensures (recv_file E fd dest p k s) Q"
  using assms(1)
proof (induction k arbitrary: s rule: less_induct)
  case (less k)
  have "ensures (recv_chunk fd (min k BUFFER_SIZE) [] s) (\<lambda>(c, s1). R s0 s1)" using less.prems by (auto intro: frame_intros)
  then show ?case
    using less.prems assms(2,3)
    by (subst recv_file.simps)
      (auto simp: BUFFER_SIZE_def split: option.splits elim!: ensures_chain intro!: less.IH frame_intros Q)
qed

lemma step_receive_file [frame_intros]:
  assumes "R s0 s" and Q: "\<And>s'. R s0 s' \<Longrightarrow> Q s'"
  shows "ensures (receive_and_save_file E fd dest s) Q"
  using assms(1) fopen_name [of E False]
  by (auto simp: receive_and_save_file_def split_beta split: option.splits intro!: frame_intros Q)

lemma step_receive_directory [frame_intros]: "R s0 s \<Longrightarrow> R s0 (receive_and_save_directory E dest s)"
  by (simp add: receive_and_save_directory_def step_call)

lemma step_dest_loop [frame_intros]:
  assumes "R s0 s" and Q: "\<And>s'. R s0 s' \<Longrightarrow> Q s'"
  shows "ensures (dest_loop n strip E fd base s) Q"
  using assms(1)
proof (induction n arbitrary: s)
  case (Suc n)
  then show ?case by (auto simp: Let_def intro!: Suc.IH frame_intros Q ensures_pure [of "first_word t" for t])
qed simp

lemma step_copy_dest [frame_intros]:
  assumes "R s0 s" and Q: "\<And>s'. R s0 s' \<Longrightarrow> Q s'"
  shows "ensures (copy_different_dest n E fd s) Q" "ensures (copy_different_dest_b n E fd s) Q"
  using assms(1)
  by (auto simp: copy_different_dest_def copy_different_dest_b_def copy_dest_def
      intro!: frame_intros Q ensures_pure [of "first_word t" for t])

subsection \<open>Parts of commands without locks\<close>

lemma step_ack [frame_intros]: "R s0 s \<Longrightarrow> (\<And>s'. R s0 s' \<Longrightarrow> Q s') \<Longrightarrow> ensures (SendACKToNM E m s) Q"
  by (auto simp: SendACKToNM_def ensures_iff step_net)

lemma step_copy_to_peer [frame_intros]:
  assumes "R s0 s" and Q: "\<And>m s'. R s0 s' \<Longrightarrow> Q (m, s')"
    and copy: "\<And>fd s1. R s0 s1 \<Longrightarrow> ensures (copy fd s1) Q"
  shows "ensures (copy_to_peer E hello copy m s) Q"
  using assms(1) by (auto simp: copy_to_peer_def split_beta intro!: copy frame_intros Q ensures_pure [of "peer_address m"])

lemma step_backup_op [frame_intros]:
  assumes "R s0 s" and Q: "\<And>s'. R s0 s' \<Longrightarrow> Q s'"
  shows "ensures (backup_op op E a s) Q"
  using assms(1) by (auto simp: backup_op_def split_beta intro!: frame_intros Q ensures_pure [of "backup_path a s"])

lemma step_reply_op [frame_intros]:
  assumes "R s0 s" and Q: "\<And>m s'. R s0 s' \<Longrightarrow> Q (m, s')"
  shows "ensures (reply_op op E a s) Q"
  using assms(1) step_run_op [of s0 s op E a] by (cases "run_op op E a s") (auto simp: reply_op_def intro!: Q)

end

text \<open>None of this touches the lock table.\<close>

interpretation table: file_frame "\<lambda>s s'. conc_array s' = conc_array s \<and> num_of_requests s' = num_of_requests s"
proof (unfold_locales, goal_cases)
  case (4 fd n s r s')
  then show ?case by (auto elim: ss_recv_cases)
next
  case (6 op s E path)
  then show ?case by (simp add: fs_call_def split: option.splits)
qed auto

section \<open>The interface with locks\<close>

text \<open>A lock that is taken, used by operations that leave the table alone, and dropped again. Only a
  writer may return with its lock held.\<close>

definition lock_pairs :: "((lock_struct \<Rightarrow> lock_struct option) \<times> (lock_struct \<Rightarrow> lock_struct \<times> wake)) set" where
  "lock_pairs = {(acquire_read_lock, release_read_lock), (acquire_write_lock, release_write_lock),
     (acquire_delete_lock, release_delete_lock)}"

locale ss_frame = file_frame +
  assumes R_outdate: "R s (outdate k s)"
    and R_reused: "R s (reused J s)"
    and R_index: "lock_index path s = Inr (i, s') \<Longrightarrow> R s s'"
    and R_writing: "take_lock acquire_write_lock i s = Inr s' \<Longrightarrow> R s s'"
    and R_locked: "(acq, rel) \<in> lock_pairs \<Longrightarrow> take_lock acq i s = Inr t \<Longrightarrow> R t u \<Longrightarrow> conc_array u = conc_array t \<Longrightarrow>
      R s (drop_lock rel i u)"
begin

lemma step_outdate [frame_intros]: "R s0 s \<Longrightarrow> R s0 (outdate k s)"
  by (rule R_trans [OF _ R_outdate])

lemma step_reused [frame_intros]: "R s0 s \<Longrightarrow> R s0 (reused J s)"
  by (rule R_trans [OF _ R_reused])

lemma step_lock_index [frame_intros]:
  "R s0 s \<Longrightarrow> (\<And>i s'. R s0 s' \<Longrightarrow> Q (i, s')) \<Longrightarrow> ensures (lock_index path s) Q"
  using R_trans [OF _ R_index, of s0 s path] by (auto simp: ensures_iff)

lemma step_write_lock [frame_intros]:
  assumes "R s0 s"
    and Q: "\<And>s'. R s0 s' \<Longrightarrow> \<forall>E k path. R s0 (drop_lock release_write_lock i (snd (ss_fopen E k path s'))) \<Longrightarrow> Q s'"
  shows "ensures (take_lock acquire_write_lock i s) Q"
proof (rule ensures_pure, rule Q)
  fix s'
  assume t: "take_lock acquire_write_lock i s = Inr s'"
  show "R s0 s'" by (rule R_trans [OF assms(1) R_writing [OF t]])
  show "\<forall>E k path. R s0 (drop_lock release_write_lock i (snd (ss_fopen E k path s')))"
    using R_trans [OF assms(1) R_locked [OF _ t step_fopen [OF R_refl]]] table.step_fopen [of s' s']
    by (simp add: lock_pairs_def)
qed

lemma step_read_lock [frame_intros]:
  assumes "R s0 s" and Q: "\<And>s'. \<forall>E a fd. R s0 (drop_lock release_read_lock i (snd (read_file E a fd s'))) \<Longrightarrow> Q s'"
  shows "ensures (take_lock acquire_read_lock i s) Q"
proof (rule ensures_pure, rule Q)
  fix s'
  assume t: "take_lock acquire_read_lock i s = Inr s'"
  show "\<forall>E a fd. R s0 (drop_lock release_read_lock i (snd (read_file E a fd s')))"
    using R_trans [OF assms(1) R_locked [OF _ t step_read(1) [OF R_refl]]] table.step_read(1) [of s' s']
    by (simp add: lock_pairs_def)
qed

lemma step_delete_lock [frame_intros]:
  assumes "R s0 s" and Q: "\<And>s'. \<forall>E a. R s0 (drop_lock release_delete_lock i (snd (snd (remove_file E a s')))) \<Longrightarrow> Q s'"
  shows "ensures (take_lock acquire_delete_lock i s) Q"
proof (rule ensures_pure, rule Q)
  fix s'
  assume t: "take_lock acquire_delete_lock i s = Inr s'"
  show "\<forall>E a. R s0 (drop_lock release_delete_lock i (snd (snd (remove_file E a s'))))"
    using R_trans [OF assms(1) R_locked [OF _ t step_op(4) [OF R_refl]]] table.step_op(4) [of s' s']
    by (simp add: lock_pairs_def)
qed

subsection \<open>Writes\<close>

lemma step_write_file [frame_intros]:
  assumes "R s0 s" and Q: "\<And>r b i s'. R s0 s' \<Longrightarrow> Q (r, b, i, s')"
  shows "ensures (write_file E m s) Q"
  using assms(1) fopen_name [of E True]
  by (auto simp: write_file_def split_beta split: list.splits option.splits intro!: frame_intros Q)

lemma step_write_async [frame_intros]:
  assumes "R s0 s" and Q: "\<And>s'. R s0 s' \<Longrightarrow> Q s'"
  shows "ensures (write_file_async E g m fd s) Q"
  using assms(1) fopen_name [of E True]
  by (auto simp: write_file_async_def Let_def split_beta split: list.splits option.splits
      intro!: frame_intros Q step_net ensures_pure [of "write_loop d g 0 []" for d] ensures_pure [of "notify_nm E ip x w" for ip x w])

subsection \<open>Commands\<close>

lemma step_serve_cat [frame_intros]:
  assumes "R s0 s" and Q: "\<And>s'. R s0 s' \<Longrightarrow> Q s'"
  shows "ensures (serve_cat E a fd s) Q"
  using assms(1) by (auto simp: serve_cat_def intro!: frame_intros Q ensures_pure [of "nonnull x" for x])

lemma step_serve_request [frame_intros]:
  assumes "R s0 s" and Q: "\<And>s'. R s0 s' \<Longrightarrow> Q s'"
  shows "ensures (serve_request n E J m a fd s) Q"
  using assms(1) by (auto simp: serve_request_def intro!: frame_intros Q ensures_pure [of "nonnull x" for x])

lemma step_serve_write_sync [frame_intros]:
  assumes "R s0 s" and Q: "\<And>s'. R s0 s' \<Longrightarrow> Q s'"
  shows "ensures (serve_write_sync E m fd s) Q"
  using assms(1) by (auto simp: serve_write_sync_def intro!: frame_intros Q)

theorem process_client_step:
  assumes "R s0 s"
  shows "ensures (ss_process_client n E J fd s) (R s0)"
  using assms
  by (auto simp: ss_process_client_def Let_def intro!: frame_intros ensures_pure [of "client_args J m" for m])

lemma step_remove_locked [frame_intros]:
  assumes "R s0 s" and Q: "\<And>m s'. R s0 s' \<Longrightarrow> Q (m, s')"
  shows "ensures (remove_locked E a s) Q"
  using assms(1) by (auto simp: remove_locked_def split_beta intro!: frame_intros Q ensures_pure [of "nonnull x" for x])

lemma step_answered [frame_intros]:
  assumes "R s0 s" and Q: "\<And>m s'. R s0 s' \<Longrightarrow> Q (m, s')"
  shows "ensures (answered n E J m args s) Q"
proof -
  have arg: "ensures (andthen (args1 J args) f) Q" if "\<And>a. ensures (f a) Q" for f
    by (rule ensures_bind) (rule ensures_pure [OF that])
  have peer: "ensures (copy_to_peer E h c m s) Q" if "\<And>fd s1. R s0 s1 \<Longrightarrow> ensures (c fd s1) Q" for h c
    using assms(1) that by (intro step_copy_to_peer Q)
  have ops: "ensures (reply_op op E a s) Q" "ensures (remove_locked E a s) Q" "ensures (copy_same n E m s) Q" for op a
    using assms(1) by (auto intro!: step_reply_op step_remove_locked step_copy_same Q)
  have src: "ensures (copy_different_src n E l m fd s1) Q" "ensures (copy_different_src_b n E m fd s1) Q" if "R s0 s1" for l fd s1
    using that by (auto intro!: step_copy_different_src Q)
  have "ensures (andthen (write_file E m s) (\<lambda>(r, b, i, s1). Inr (b, outdate (num_of_requests s) s1))) Q"
    using assms(1) by (auto intro!: frame_intros Q)
  moreover have "ensures (Inr (heap J, s)) Q" using assms(1) by (simp add: Q)
  ultimately show ?thesis unfolding answered_def by (intro ensures_branch) (assumption | intro arg peer ops src)+
qed

lemma step_unanswered:
  assumes "R s0 s" "unanswered E J m args fd s = Some r"
  shows "ensures r (R s0)"
  using assms by (auto simp: unanswered_def send_index_def split: if_splits intro!: frame_intros ensures_pure [of "args1 J args"])

theorem nm_command_step:
  assumes "R s0 s"
  shows "ensures (nm_command n E J fd s) (R s0)"
  using assms
  by (auto simp: nm_command_def Let_def send_reply_def split: option.splits
      intro!: frame_intros ensures_pure [of "parse_command 5 m" for m] dest: step_unanswered [rotated])

theorem listen_to_nm_step: "R s0 s \<Longrightarrow> ensures (listen_to_nm k n E J fd s) (R s0)"
  by (induction k arbitrary: s) (auto intro: ensures_mono [OF nm_command_step])

end

section \<open>The invariant and the input that is left\<close>

lemma ss_recv_keeps:
  assumes "ss_recv fd n s = Inr (r, s')"
  shows "ss_wf s' = ss_wf s" "pending f s' \<le> pending f s"
  using assms
  by (cases "inbox s fd"; cases "hd (inbox s fd)"; auto simp: ss_recv_def ss_wf_def pending_def split: if_splits)+

lemma tree_call_ok:
  assumes "op \<in> {fs_mkdir, fs_rmdir, fs_remove}" "ok_tree n" "op n wd path = Some n'"
  shows "ok_tree n'"
  using assms tree.mkdir_only [OF assms(2), of wd path] tree.rmdir_only [OF assms(2), of wd path] tree.rm_only [OF assms(2), of wd path]
  by auto

text \<open>The parts of the invariant do not depend on what a lock entry holds.\<close>

definition keeps_shape :: "ss \<Rightarrow> ss \<Rightarrow> bool" where
  "keeps_shape s s' \<longleftrightarrow> length (conc_array s') = length (conc_array s) \<and>
     (num_of_requests s \<le> MAX_REQ \<longrightarrow> num_of_requests s' \<le> MAX_REQ) \<and> fs s' = fs s \<and> inbox s' = inbox s"

lemma shape_locks:
  "keeps_shape s (outdate k s)" "keeps_shape s (reused J s)"
  "lock_index path s = Inr (i, s') \<Longrightarrow> keeps_shape s s'"
  "take_lock acq i s = Inr s' \<Longrightarrow> keeps_shape s s'"
  "keeps_shape s (drop_lock rel i s)"
  by (auto simp: keeps_shape_def outdate_def reused_def lock_index_def take_lock_def drop_lock_def split: option.splits if_splits)

lemma shape_keeps:
  assumes "keeps_shape s s'"
  shows "ss_wf s \<longrightarrow> ss_wf s'" "pending fd s' \<le> pending fd s"
  using assms by (simp_all add: keeps_shape_def ss_wf_def pending_def)

lemmas shape_wf = shape_locks [THEN shape_keeps(1)]

lemmas shape_left = shape_locks [THEN shape_keeps(2)]

interpretation wf: ss_frame "\<lambda>s s'. ss_wf s \<longrightarrow> ss_wf s'"
proof (unfold_locales, goal_cases)
  case (6 op s E path)
  then show ?case using tree_call_ok [OF 6] fs_call_wf [of op s path E] by (auto simp: ss_wf_def)
next
  case (11 acq rel i s t u)
  then show ?case using shape_wf(4) [of acq i s t] shape_wf(5) [of u rel i] by blast
qed (simp add: ss_recv_keeps ss_put_wf | rule shape_wf, assumption?)+

interpretation left: ss_frame "\<lambda>s s'. pending fd s' \<le> pending fd s"
proof (unfold_locales, goal_cases)
  case (6 op s E path)
  then show ?case by (simp add: fs_call_def pending_def split: option.splits)
next
  case (11 acq rel i s t u)
  then show ?case using shape_left(4) [of acq i s t fd] shape_left(5) [of fd rel i u] by linarith
qed (simp add: ss_recv_keeps | rule shape_left, assumption?)+

end
