(* ===== verification/Ss_Properties.thy ===== *)
theory Ss_Properties
  imports Ss_Frame
begin

text \<open>
  Properties of the storage server as a whole: the invariant over every sequence of commands and
  connections, termination of the service of a connection, what a command of the naming server is
  answered, and what the dangling pointers of the lock table lead to.
\<close>

section \<open>Locks between commands\<close>

text \<open>Between two commands nobody reads or deletes: a lock that is held is one a writer left behind.\<close>

definition quiet_lock :: "lock_struct \<Rightarrow> bool" where
  "quiet_lock l \<longleftrightarrow> readers l = 0 \<and> \<not> is_deleting l"

definition quiet :: "ss \<Rightarrow> bool" where
  "quiet s \<longleftrightarrow> (\<forall>l\<in>set (conc_array s). quiet_lock l)"

lemma quiet_simps [simp]: "quiet (ss_io f s) = quiet s" "quiet (ss_put p t s) = quiet s" "quiet (outdate k s) = quiet s"
  by (simp_all add: quiet_def outdate_def)

lemma quiet_update: "quiet s \<Longrightarrow> (i < length (conc_array s) \<Longrightarrow> quiet_lock l) \<Longrightarrow> quiet (s\<lparr>conc_array := (conc_array s)[i := l]\<rparr>)"
  by (cases "i < length (conc_array s)") (auto simp: quiet_def list_update_beyond dest: set_update_subset_insert [THEN subsetD])

lemma quiet_acquire:
  "(acq, rel) \<in> lock_pairs \<Longrightarrow> quiet_lock l \<Longrightarrow> acq l = Some l' \<Longrightarrow> quiet_lock (fst (rel l'))"
  "quiet_lock l \<Longrightarrow> acquire_write_lock l = Some l' \<Longrightarrow> quiet_lock l'"
  by (auto simp: lock_pairs_def quiet_lock_def lock_op_defs Let_def split: if_splits)

lemma take_lock_cases:
  assumes "take_lock acq i s = Inr t"
  obtains l where "acq (conc_array s ! i) = Some l" "t = s\<lparr>conc_array := (conc_array s)[i := l]\<rparr>"
  using assms by (auto simp: take_lock_def split: option.splits)

lemma quiet_dropped:
  assumes "(acq, rel) \<in> lock_pairs" "take_lock acq i s = Inr t" "conc_array u = conc_array t" "quiet s"
  shows "quiet (drop_lock rel i u)"
proof (rule take_lock_cases [OF assms(2)])
  fix l
  assume l: "acq (conc_array s ! i) = Some l" "t = s\<lparr>conc_array := (conc_array s)[i := l]\<rparr>"
  have "quiet_lock (fst (rel l))" if "i < length (conc_array s)"
    using assms(4) that by (intro quiet_acquire(1) [OF assms(1) _ l(1)]) (simp add: quiet_def)
  then show ?thesis
    using quiet_update [OF assms(4), of i "fst (rel l)"] l(2) assms(3)
    by (cases "i < length (conc_array s)") (simp_all add: drop_lock_def quiet_def list_update_beyond)
qed

lemma quiet_writing:
  assumes "take_lock acquire_write_lock i s = Inr t" "quiet s"
  shows "quiet t"
proof (rule take_lock_cases [OF assms(1)])
  fix l
  assume l: "acquire_write_lock (conc_array s ! i) = Some l" "t = s\<lparr>conc_array := (conc_array s)[i := l]\<rparr>"
  have "quiet_lock l" if "i < length (conc_array s)"
    using assms(2) that by (intro quiet_acquire(2) [OF _ l(1)]) (simp add: quiet_def)
  then show ?thesis using quiet_update [OF assms(2), of i l] l(2) by simp
qed

lemma quiet_reused: "quiet s \<Longrightarrow> quiet (reused J s)"
  by (auto simp: quiet_def reused_def quiet_lock_def in_set_enumerate_eq split: if_splits)

lemma quiet_index:
  assumes "lock_index path s = Inr (i, s')" "quiet s"
  shows "quiet s'"
proof -
  have "quiet (s\<lparr>conc_array := (conc_array s)[num_of_requests s := init_lock path]\<rparr>)"
    by (rule quiet_update [OF assms(2)]) (simp add: quiet_lock_def init_lock_def)
  then show ?thesis using assms by (auto simp: lock_index_def quiet_def split: option.splits if_splits)
qed

lemma quiet_files:
  "ss_recv fd n s = Inr (r, s') \<Longrightarrow> quiet s' = quiet s"
  "op \<in> {fs_mkdir, fs_rmdir, fs_remove} \<Longrightarrow> quiet (snd (fs_call E op path s)) = quiet s"
  using table.R_recv [of fd n s r s'] table.R_call [of op E path s] by (simp_all add: quiet_def)

interpretation quiet: ss_frame "\<lambda>s s'. quiet s \<longrightarrow> quiet s'"
proof (unfold_locales, goal_cases)
  case (9 path s i s')
  then show ?case using quiet_index by blast
next
  case (10 i s s')
  then show ?case using quiet_writing by blast
next
  case (11 acq rel i s t u)
  then show ?case using quiet_dropped by blast
qed (auto simp: quiet_files quiet_reused)

section \<open>Start\<close>

text \<open>The lock table starts as zeroed memory.\<close>

definition ss_start :: "ss \<Rightarrow> bool" where
  "ss_start s \<longleftrightarrow> length (conc_array s) = MAX_REQ \<and> quiet s \<and> num_of_requests s = 0 \<and> ok_tree (fs s)"

text \<open>Memory that was zeroed, for the examples.\<close>

definition zero_junk :: junk where
  "zero_junk = \<lparr>slot = Some None, freed = [], stack = replicate (ASYNC_BUFF_LEN + 1) (CHR 0x00), heap = [], dead = (\<lambda>i. []),
     file_stat = \<lparr>st_mode = 0, st_blocks = 0, st_blksize = 4096, st_nlink = 1, st_uid = 0, st_gid = 0,
       atime_text = [], mtime_text = [], ctime_text = []\<rparr>, dir_size = 4096\<rparr>"

lemma closed_connection:
  "ss_process_client 0 calm_env zero_junk 4 (idle_ss\<lparr>inbox := (inbox idle_ss)(4 := inbox idle_ss 4 @ [RecvBytes []])\<rparr>) =
     Inr (ss_io (close 4) (reused zero_junk idle_ss))"
  by (simp add: ss_process_client_def ss_recv_good_def ss_recv_def idle_ss_def reused_def starts_with_def c_str_def BUFFER_SIZE_def
      client_args_def parse_command_def args1_def zero_junk_def serve_request_def ss_io_def fun_eq_iff)

section \<open>Termination\<close>

text \<open>The receiver of a copy is the only loop whose length its peer decides.\<close>

definition fuel_ok :: "'a result \<Rightarrow> bool" where
  "fuel_ok m \<longleftrightarrow> m \<noteq> Inl NoFuel"

lemma fuel_ok_simps [simp]: "fuel_ok (Inr x)" "fuel_ok (Inl e) = (e \<noteq> NoFuel)"
  by (simp_all add: fuel_ok_def)

lemma fuel_ok_andthen [intro!]: "fuel_ok m \<Longrightarrow> (\<And>x. m = Inr x \<Longrightarrow> fuel_ok (f x)) \<Longrightarrow> fuel_ok (andthen m f)"
  by (cases m) auto

lemma fuel_ok_recv [simp]: "fuel_ok (ss_recv_good fd n s)"
  by (auto simp: ss_recv_good_def ss_recv_def split: list.splits recv_raw.splits)

lemma fuel_ok_parts [simp]:
  "fuel_ok (first_word t)" "fuel_ok (nonnull a)" "fuel_ok (parse_command k m)" "fuel_ok (lock_index path s)"
  "fuel_ok (take_lock acq i s)" "fuel_ok (first_line l)" "fuel_ok (array_str b)" "fuel_ok (notify_nm E ip m w)"
  by (auto simp: first_word_def nonnull_def parse_command_def lock_index_def take_lock_def first_line_def array_str_def notify_nm_def Let_def
      split: list.splits option.splits prod.splits)

lemma fuel_ok_loops [simp]:
  "fuel_ok (recv_chunk fd k acc s)" "fuel_ok (list_loop E fd es b s)" "fuel_ok (write_loop d g k out)"
proof -
  show "fuel_ok (recv_chunk fd k acc s)"
    by (induction fd k acc s rule: recv_chunk.induct) (subst recv_chunk.simps, auto)
  show "fuel_ok (list_loop E fd es b s)"
    by (induction es arbitrary: b s) (auto simp: Let_def split_beta)
  show "fuel_ok (write_loop d g k out)"
    by (induction d g k out rule: write_loop.induct) (auto simp: Let_def)
qed

lemma fuel_ok_recv_file [simp]: "fuel_ok (recv_file E fd dest p k s)"
proof (induction k arbitrary: s rule: less_induct)
  case (less k)
  then show ?case by (subst recv_file.simps) (auto simp: BUFFER_SIZE_def split: option.splits)
qed

lemma fuel_ok_receive [simp]: "fuel_ok (receive_and_save_file E fd dest s)"
  by (auto simp: receive_and_save_file_def split: option.splits prod.splits)

lemma recv_shortens: "ss_recv_good fd (BUFFER_SIZE - 1) s = Inr (x, s') \<Longrightarrow> pending fd s' < pending fd s"
  by (erule ss_recv_good_cases) (simp add: BUFFER_SIZE_def)

lemma dest_loop_terminates: "pending fd s < n \<Longrightarrow> fuel_ok (dest_loop n strip E fd base s)"
proof (induction n arbitrary: s)
  case (Suc n)
  have left: "pending fd s1 < n" if "ss_recv_good fd (BUFFER_SIZE - 1) s = Inr (x, s1)" for x s1
    using recv_shortens [OF that] Suc.prems by simp
  have "ensures (receive_and_save_file E fd p (send_ack E fd s1)) (\<lambda>s2. pending fd s2 \<le> pending fd s1)" for p s1
    by (rule left.step_receive_file, rule left.step_send_ack) simp_all
  then have files: "pending fd s2 \<le> pending fd s1" if "receive_and_save_file E fd p (send_ack E fd s1) = Inr s2" for p s1 s2
    using that by (fastforce simp: ensures_iff)
  have dir: "pending fd (receive_and_save_directory E p (send_ack E fd s1)) \<le> pending fd s1" for p s1
    by (intro left.step_receive_directory left.step_send_ack) simp
  show ?case using left by (auto simp: Let_def intro!: Suc.IH intro: le_less_trans [OF files] le_less_trans [OF dir])
qed simp

lemma copy_dest_terminates: "pending fd s \<le> n \<Longrightarrow> fuel_ok (copy_dest n strip E fd s)"
proof -
  assume n: "pending fd s \<le> n"
  have "pending fd (snd (fs_call E fs_mkdir base (send_ack E fd s1))) < n"
    if "ss_recv_good fd (BUFFER_SIZE - 1) (send_ack E fd s) = Inr (x, s1)" for x s1 base
  proof -
    have "pending fd (snd (fs_call E fs_mkdir base (send_ack E fd s1))) \<le> pending fd s1"
      by (intro left.step_call left.step_send_ack) simp
    also have "\<dots> < pending fd (send_ack E fd s)" by (rule recv_shortens [OF that])
    also have "\<dots> \<le> pending fd s" by (rule left.step_send_ack) simp
    finally show ?thesis using n by simp
  qed
  then show ?thesis by (auto simp: copy_dest_def intro!: dest_loop_terminates)
qed

lemma fuel_ok_handlers [simp]:
  "fuel_ok (write_file E m s)" "fuel_ok (write_file_async E g m fd s)" "fuel_ok (SendACKToNM E m s)"
  "fuel_ok (list_file E a fd s)" "fuel_ok (serve_cat E a fd s)" "fuel_ok (args1 J args)"
  by (auto simp: write_file_def write_file_async_def SendACKToNM_def list_file_def serve_cat_def args1_def Let_def
      split: list.splits option.splits prod.splits)

lemma fuel_ok_client_args [simp]: "fuel_ok (client_args J m)"
  by (auto simp: client_args_def)


definition peer_ss :: ss where
  "peer_ss = idle_ss\<lparr>inbox := (\<lambda>f. if f = 4 then map RecvBytes [''sscopy'', ''DEST ./docs'' @ newline, ''DIR n'' @ newline, ''END'' @ newline] else [])\<rparr>"


section \<open>A synchronous write\<close>

lemma reused_simps [simp]:
  "fs (reused J s) = fs s" "cwd (reused J s) = cwd s" "ss_net (reused J s) = ss_net s" "inbox (reused J s) = inbox s"
  "nm_ip (reused J s) = nm_ip s" "num_of_requests (reused J s) = num_of_requests s" "length (conc_array (reused J s)) = length (conc_array s)"
  "place (reused J s) path = place s path" "file_text p (reused J s) = file_text p s" "ss_wf (reused J s) = ss_wf s"
  by (simp_all add: reused_def place_def file_text_def ss_wf_def)

lemma outdate_simps [simp]:
  "fs (outdate k s) = fs s" "ss_net (outdate k s) = ss_net s" "num_of_requests (outdate k s) = num_of_requests s"
  "conc_array (outdate k s) = conc_array s" "ss_wf (outdate k s) = ss_wf s"
  by (simp_all add: outdate_def ss_wf_def)

lemma receive_request:
  assumes "inbox s fd = RecvBytes b # ms" "length b < BUFFER_SIZE"
  shows "ss_recv_good fd BUFFER_SIZE s = Inr ((int (length b), b), s\<lparr>inbox := (inbox s)(fd := ms)\<rparr>)"
  using assms by (simp add: ss_recv_good_def ss_recv_def)

lemma lock_index_count:
  assumes "lock_index path s = Inr (i, s1)"
  shows "num_of_requests s1 = num_of_requests s + (if doesLockRequestedFileAlreadExist s path = None then 1 else 0)"
  using assms by (auto simp: lock_index_def split: option.splits if_splits)

lemma take_lock_count: "take_lock acq i s = Inr t \<Longrightarrow> num_of_requests t = num_of_requests s"
  by (auto simp: take_lock_def split: option.splits)

lemma write_file_run:
  assumes "ss_wf s" "list_all word_ok [path, dat]" "appendable E s path p" "lock_free path s"
  shows "\<exists>i s'. write_file E (join CHR ''|'' [''WRITE_SYNC'', path, dat]) s = Inr (0, ''Data written successfully'' @ newline, i, s') \<and>
    kind_at (fs s') = (kind_at (fs s))(p := File (file_text p s @ dat @ newline)) \<and> ss_net s' = tick (ss_net s) \<and>
    \<not> is_writing (conc_array s' ! i) \<and> ss_wf s' \<and> nm_ip s' = nm_ip s \<and>
    num_of_requests s' = num_of_requests s + (if doesLockRequestedFileAlreadExist s path = None then 1 else 0)"
proof -
  obtain i s1 s2 s3 where i: "lock_index path s = Inr (i, s1)" "take_lock acquire_write_lock i s1 = Inr s2"
    "ss_fopen E True path s2 = (Some p, s3)"
    and dr: "\<not> is_writing (conc_array (drop_lock release_write_lock i s3) ! i)" "ss_wf (drop_lock release_write_lock i s3)"
      "writable p (drop_lock release_write_lock i s3)" "file_text p (drop_lock release_write_lock i s3) = file_text p s"
      "kind_at (fs (drop_lock release_write_lock i s3)) = (kind_at (fs s))(p := File (file_text p s))"
      "nm_ip (drop_lock release_write_lock i s3) = nm_ip s" "ss_net (drop_lock release_write_lock i s3) = tick (ss_net s)"
    by (rule locked_append [OF assms(1,4,3)])
  have toks: "strtok_all ''|'' (join CHR ''|'' [''WRITE_SYNC'', path, dat]) = [''WRITE_SYNC'', path, dat]"
    using assms(2) by (intro command_tokens) (simp add: word_ok_def)
  let ?s4 = "drop_lock release_write_lock i s3"
  let ?s' = "ss_append p (dat @ newline) ?s4"
  have run: "write_file E (join CHR ''|'' [''WRITE_SYNC'', path, dat]) s = Inr (0, ''Data written successfully'' @ newline, i, ?s')"
    unfolding write_file_def toks list.case i(1) andthen_simps prod.case i(2) i(3) option.case ..
  have count: "num_of_requests ?s' = num_of_requests s + (if doesLockRequestedFileAlreadExist s path = None then 1 else 0)"
    using lock_index_count [OF i(1)] take_lock_count [OF i(2)] ss_fopen_place(3) [OF i(3)] by (simp add: ss_append_def drop_lock_def)
  have eff: "kind_at (fs ?s') = (kind_at (fs s))(p := File (file_text p s @ dat @ newline))"
    using writable_put(1) [OF dr(3)] dr(4,5) by (simp add: ss_append_def)
  have rest: "ss_net ?s' = tick (ss_net s)" "\<not> is_writing (conc_array ?s' ! i)" "ss_wf ?s'" "nm_ip ?s' = nm_ip s"
    using dr writable_put(3) [OF dr(3,2)] by (simp_all add: ss_append_def)
  show ?thesis by (intro exI conjI) (rule run eff rest count)+
qed

text \<open>The whole service of the request.\<close>

lemma sync_write_run:
  assumes "ss_wf s" "list_all word_ok [path, dat]" "msg = join CHR ''|'' [''WRITE_SYNC'', path, dat]" "CHR 0x00 \<notin> set msg"
    "length msg < BUFFER_SIZE" "inbox s fd = RecvBytes msg # ms" "appendable E s path p" "lock_free path (reused J s)"
    "nm_reachable E (nm_ip s)"
  shows "\<exists>s' nm. ss_process_client n E J fd s = Inr s' \<and> ss_wf s' \<and>
    kind_at (fs s') = (kind_at (fs s))(p := File (file_text p s @ dat @ newline)) \<and>
    trace (ss_net s') = trace (ss_net s) @ [Sent fd (''Data written successfully'' @ newline), Sent nm msg, Closed nm, Closed fd] \<and>
    num_of_requests s' = num_of_requests s + (if doesLockRequestedFileAlreadExist (reused J s) path = None then 1 else 0)"
proof -
  let ?r = "(reused J s)\<lparr>inbox := (inbox s)(fd := ms)\<rparr>"
  have lf: "lock_free path ?r" "appendable E ?r path p" "ss_wf ?r" "file_text p ?r = file_text p s"
    using assms(1,7,8) by (simp_all add: lock_free_def doesLockRequestedFileAlreadExist_def appendable_def file_text_def cong: option.case_cong)
  obtain i s1 where w: "write_file E msg ?r = Inr (0, ''Data written successfully'' @ newline, i, s1)"
    "kind_at (fs s1) = (kind_at (fs s))(p := File (file_text p s @ dat @ newline))" "ss_net s1 = tick (ss_net s)" "ss_wf s1"
    "nm_ip s1 = nm_ip s" "num_of_requests s1 = num_of_requests s + (if doesLockRequestedFileAlreadExist (reused J s) path = None then 1 else 0)"
    using write_file_run [OF lf(3) assms(2) lf(2,1)] lf(4) assms(3) by (auto simp: doesLockRequestedFileAlreadExist_def)
  have recv: "ss_recv_good fd BUFFER_SIZE (reused J s) = Inr ((int (length msg), msg), ?r)"
    using receive_request [of "reused J s" fd msg ms] assms(5,6) by simp
  have pre: "starts_with ''WRITE_SYNC|'' msg" "c_str msg = msg" using assms(3,4) by (simp_all add: starts_with_def)
  let ?s2 = "snd (ss_val (send_good E fd (''Data written successfully'' @ newline)) s1)"
  have s2: "?s2 = ss_io (\<lambda>w. emit (Sent fd (''Data written successfully'' @ newline)) (tick w)) s1"
    using assms(9) by (simp add: ss_val_eq send_good_trace nm_reachable_def)
  obtain nm v where v: "SendACKToNM E msg ?s2 = Inr (?s2\<lparr>ss_net := v\<rparr>)"
    "trace v = trace (ss_net s) @ [Sent fd (''Data written successfully'' @ newline), Sent nm msg, Closed nm]"
    using notify_nm_ok [of E "nm_ip s" msg] assms(9) w(3,5) unfolding s2 by (auto simp: SendACKToNM_def close_def)
  let ?s' = "outdate (num_of_requests ?r) (ss_io (close fd) (?s2\<lparr>ss_net := v\<rparr>))"
  have run: "ss_process_client n E J fd s = Inr ?s'"
    unfolding ss_process_client_def recv andthen_simps prod.case Let_def pre(2) serve_write_sync_def w(1) v(1)
    using pre(1) assms(5) by simp
  moreover have "kind_at (fs ?s') = (kind_at (fs s))(p := File (file_text p s @ dat @ newline))" "ss_wf ?s'"
    using w(2,4) unfolding s2 by (simp_all add: ss_wf_def)
  moreover have "trace (ss_net ?s') = trace (ss_net s) @ [Sent fd (''Data written successfully'' @ newline), Sent nm msg, Closed nm, Closed fd]"
    using v(2) by (simp add: close_def)
  moreover have "num_of_requests ?s' = num_of_requests s + (if doesLockRequestedFileAlreadExist (reused J s) path = None then 1 else 0)"
    using w(6) unfolding s2 by simp
  ultimately show ?thesis by blast
qed


definition writer_ss :: ss where
  "writer_ss = idle_ss\<lparr>inbox := (\<lambda>f. [RecvBytes (join CHR ''|'' [''WRITE_SYNC'', ''./a'', ''hello''])])\<rparr>"


section \<open>Reading a file\<close>

definition read_free :: "string \<Rightarrow> ss \<Rightarrow> bool" where
  "read_free path s \<longleftrightarrow>
     (case doesLockRequestedFileAlreadExist s path of
        None \<Rightarrow> num_of_requests s < MAX_REQ
      | Some i \<Rightarrow> acquire_read_lock (conc_array s ! i) \<noteq> None)"

lemma read_lock:
  assumes "ss_wf s" "read_free path s"
  obtains i s1 s2 where "lock_index path s = Inr (i, s1)" "take_lock acquire_read_lock i s1 = Inr s2"
    "fs s2 = fs s" "cwd s2 = cwd s" "ss_net s2 = ss_net s"
proof (cases "doesLockRequestedFileAlreadExist s path")
  case None
  then show ?thesis
    using assms that [of "num_of_requests s" "s\<lparr>conc_array := (conc_array s)[num_of_requests s := init_lock path],
      num_of_requests := Suc (num_of_requests s)\<rparr>"]
    by (auto simp: lock_index_def read_free_def take_lock_def ss_wf_def acquire_read_lock_def init_lock_def)
next
  case (Some i)
  then show ?thesis using assms(2) that [of i s] by (auto simp: lock_index_def read_free_def take_lock_def)
qed

text \<open>A request of a word and a path, as long as the freed copy of the request is not overwritten before
  it is parsed again.\<close>

lemma request_run:
  assumes "cmd \<in> {''cat'', ''stream''}" "m = cmd @ '' '' @ path" "inbox s fd = RecvBytes m # ms" "path \<noteq> []" "CHR '' '' \<notin> set path"
    "CHR 0x00 \<notin> set path" "length m < BUFFER_SIZE" "freed J = m"
  shows "ss_process_client n E J fd s =
    andthen (serve_request n E J m (Some path) fd ((reused J s)\<lparr>inbox := (inbox s)(fd := ms)\<rparr>)) (\<lambda>s'. Inr (ss_io (close fd) s'))"
proof -
  have recv: "ss_recv_good fd BUFFER_SIZE (reused J s) = Inr ((int (length m), m), (reused J s)\<lparr>inbox := (inbox s)(fd := ms)\<rparr>)"
    using receive_request [of "reused J s" fd m ms] assms(1-3,7) by auto
  have cm: "c_str m = m" using assms(1,2,6) by auto
  have "strtok_all '' '' m = [cmd, path]"
    using strtok_all_word(1) [of cmd "'' ''" "CHR '' ''" path] strtok_all_word(2) [of path "'' ''" "CHR '' ''"] assms(1,2,4,5) by auto
  then have args: "client_args J m = Inr (Some path)"
    by (simp add: client_args_def parse_command_def args1_def assms(8) del: append.simps)
  have "\<not> starts_with ''WRITE_ASYNC|'' m" "\<not> starts_with ''WRITE_SYNC|'' m" "\<not> starts_with ''ping'' m" using assms(1,2) by (auto simp: starts_with_def)
  then show ?thesis
    unfolding ss_process_client_def recv andthen_simps prod.case Let_def cm args
    using assms(7) by simp
qed

text \<open>The service of a \<^verbatim>\<open>cat\<close>; the connection is closed twice.\<close>

lemma cat_served:
  assumes "ss_wf s" "inbox s fd = RecvBytes (''cat '' @ path) # ms" "path \<noteq> []" "CHR '' '' \<notin> set path" "CHR 0x00 \<notin> set path"
    "length path + 4 < BUFFER_SIZE" "freed J = ''cat '' @ path" "accepts_all E" "\<forall>t. sys_fs_ok E t path"
    "place s path = Some p" "kind_at (fs s) p = File t" "\<not> trailing_slash path" "read_free path (reused J s)"
  shows "\<exists>s' msgs. ss_process_client n E J fd s = Inr s' \<and> fs s' = fs s \<and>
    trace (ss_net s') = trace (ss_net s) @ map (Sent fd) msgs @ [Closed fd, Closed fd] \<and> concat msgs = t"
proof -
  let ?m = "''cat '' @ path" and ?r = "(reused J s)\<lparr>inbox := (inbox s)(fd := ms)\<rparr>"
  have "ss_wf ?r" "read_free path ?r"
    using assms(1,13) by (simp_all add: read_free_def doesLockRequestedFileAlreadExist_def cong: option.case_cong)
  then obtain i s1 s2 where "lock_index path ?r = Inr (i, s1)" "take_lock acquire_read_lock i s1 = Inr s2"
    "fs s2 = fs ?r" "cwd s2 = cwd ?r" "ss_net s2 = ss_net ?r"
    by (rule read_lock)
  then have i: "lock_index path ?r = Inr (i, s1)" "take_lock acquire_read_lock i s1 = Inr s2"
    "fs s2 = fs s" "cwd s2 = cwd s" "ss_net s2 = ss_net s" by simp_all
  obtain msgs s3 w where rd: "read_file E (Some path) fd s2 = (0, s3)" "s3 = s2\<lparr>ss_net := w\<rparr>"
    "trace w = trace (ss_net s2) @ map (Sent fd) msgs @ [Closed fd]" "concat msgs = t"
    using stream_file_run [OF assms(8) _ _ _ assms(12) BUFFER_SIZE_pos, of s2 p t fd] assms(9-11) i(3,4) by (auto simp: place_def read_file_def)
  have serve: "serve_request n E J ?m (Some path) fd ?r = Inr (outdate (num_of_requests ?r) (drop_lock release_read_lock i s3))"
  proof -
    have "serve_request n E J ?m (Some path) fd ?r = serve_cat E (Some path) fd ?r" by (simp add: serve_request_def starts_with_def)
    then show ?thesis by (simp add: serve_cat_def nonnull_def i(1,2) rd(1))
  qed
  let ?s' = "ss_io (close fd) (outdate (num_of_requests ?r) (drop_lock release_read_lock i s3))"
  have "ss_process_client n E J fd s = Inr ?s'"
    using request_run [of "''cat''" ?m path s fd ms J n E] assms(2-7) serve by simp
  moreover have "trace (ss_net ?s') = trace (ss_net s) @ map (Sent fd) msgs @ [Closed fd, Closed fd]" "fs ?s' = fs s"
    using rd(2,3) i(3,5) by (simp_all add: drop_lock_def close_def)
  ultimately show ?thesis using rd(4) by blast
qed

text \<open>A stream takes no lock.\<close>

lemma stream_served:
  assumes "inbox s fd = RecvBytes (''stream '' @ path) # ms" "path \<noteq> []" "CHR '' '' \<notin> set path" "CHR 0x00 \<notin> set path"
    "length path + 7 < BUFFER_SIZE" "freed J = ''stream '' @ path" "accepts_all E" "\<forall>t. sys_fs_ok E t path"
    "place s path = Some p" "kind_at (fs s) p = File t" "\<not> trailing_slash path"
  shows "\<exists>s' msgs. ss_process_client n E J fd s = Inr s' \<and> fs s' = fs s \<and> conc_array s' = conc_array (reused J s) \<and>
    trace (ss_net s') = trace (ss_net s) @ map (Sent fd) msgs @ [Closed fd, Closed fd] \<and> concat msgs = t"
proof -
  let ?m = "''stream '' @ path" and ?r = "(reused J s)\<lparr>inbox := (inbox s)(fd := ms)\<rparr>"
  have pos: "0 < BUFFER_SIZE_FOR_MUSIC" by (simp add: BUFFER_SIZE_FOR_MUSIC_def)
  obtain msgs s3 w where rd: "read_mp3_file E (Some path) fd ?r = (0, s3)" "s3 = ?r\<lparr>ss_net := w\<rparr>"
    "trace w = trace (ss_net ?r) @ map (Sent fd) msgs @ [Closed fd]" "concat msgs = t"
    using stream_file_run [OF assms(7) _ _ _ assms(11) pos, of ?r p t fd] assms(8-10) by (auto simp: place_def read_mp3_file_def)
  have "serve_request n E J ?m (Some path) fd ?r = Inr s3" by (simp add: serve_request_def starts_with_def rd(1))
  then have "ss_process_client n E J fd s = Inr (ss_io (close fd) s3)"
    using request_run [of "''stream''" ?m path s fd ms J n E] assms(1-6) by simp
  then show ?thesis using rd(2-4) by (simp add: close_def) blast
qed

section \<open>Commands that change the tree\<close>

definition tree_commands :: "(string \<times> tree_op) set" where
  "tree_commands = {(''mkdir'', Mkdir), (''touch'', Touch), (''rmdir'', Rmdir)}"

lemma tree_command_branch:
  assumes "(cmd, op) \<in> tree_commands"
  shows "unanswered E J (cmd @ '' '' @ path) args fd s = None"
    "answered n E J (cmd @ '' '' @ path) [cmd, path] s = reply_op op E (Some path) s"
    "\<not> starts_with ''ping'' (cmd @ '' '' @ path)" "CHR '' '' \<notin> set cmd" "cmd \<noteq> []" "CHR 0x00 \<notin> set cmd" "length cmd = 5"
  using assms by (auto simp: tree_commands_def unanswered_def answered_def args1_def starts_with_def)

lemma tree_command_run:
  assumes "(cmd, op) \<in> tree_commands" "inbox s fd = RecvBytes (cmd @ '' '' @ path) # ms" "path \<noteq> []" "CHR '' '' \<notin> set path"
    "CHR 0x00 \<notin> set path" "length path + 6 < BUFFER_SIZE" "run_op op E (Some path) ((reused J s)\<lparr>inbox := (inbox s)(fd := ms)\<rparr>) = (r, msg, s1)"
  shows "nm_command n E J fd s = Inr (send_reply E fd msg s1)"
proof -
  note br = tree_command_branch [OF assms(1)]
  let ?m = "cmd @ '' '' @ path" and ?r = "(reused J s)\<lparr>inbox := (inbox s)(fd := ms)\<rparr>"
  have recv: "ss_recv_good fd BUFFER_SIZE (reused J s) = Inr ((int (length ?m), ?m), ?r)"
    using receive_request [of "reused J s" fd ?m ms] assms(2,6) br(7) by simp
  have cm: "c_str ?m = ?m" using assms(5) br(6) by simp
  have "strtok_all '' '' ?m = [cmd, path]"
    using strtok_all_word(1) [of cmd "'' ''" "CHR '' ''" path] strtok_all_word(2) [of path "'' ''" "CHR '' ''"] assms(3,4) br(4,5) by simp
  then have args: "parse_command 5 ?m = Inr [cmd, path]" by (simp add: parse_command_def)
  show ?thesis
    unfolding nm_command_def recv andthen_simps prod.case Let_def cm args br(1) br(2) option.case
    using assms(6,7) br(3,5,7) by (simp add: br(2) reply_op_def)
qed

end
