(* ===== verification/Ss_Main.thy ===== *)
theory Ss_Main
  imports Ss_Properties Nfs_Boot
begin

text \<open>
  The storage server as a program: \<^verbatim>\<open>main\<close> and \<^verbatim>\<open>listen_to_client\<close> of
  \<^verbatim>\<open>storage_server.c\<close>, with the thread of \<^verbatim>\<open>connect_to_nm\<close> that runs beside them. Both use the
  structure \<^verbatim>\<open>ssi\<close>: the thread sends it to the naming server, \<^verbatim>\<open>main\<close> sets its port after it
  has started the thread. A client's thread gets its socket by value.
\<close>

section \<open>Start-up\<close>

definition ss_asks :: "(nat \<Rightarrow> 'a) \<Rightarrow> (ss, 'a) boot" where
  "ss_asks f s = (Inr (f (clock (ss_net s))), ss_io tick s)"

definition ss_must :: "(nat \<Rightarrow> bool) \<Rightarrow> (world \<Rightarrow> world) \<Rightarrow> (ss, unit) boot" where
  "ss_must ok undo = next_do (ss_asks ok) (\<lambda>b. if b then goes () else next_do (acts (ss_io undo)) (\<lambda>u. ends (Exit 1)))"

text \<open>\<^verbatim>\<open>main\<close> up to the start of the thread. The shell's status is not looked at: the directory for
  backups is there afterwards unless \<^verbatim>\<open>mkdir\<close> failed.\<close>

definition ss_begin :: "env \<Rightarrow> host \<Rightarrow> string list \<Rightarrow> (ss, unit) boot" where
  "ss_begin E H argv =
     (if length argv < 3 then ends (Exit 1)
      else
        next_do (calls (validate_path E (argv ! 2))) (\<lambda>path_var.
          if path_var = -1
          then next_do (acts (ss_io (emit (Stdout (RED @ ''Invalid format! please re-check the path and start ss again!'' @ newline @ RESET))))) (\<lambda>u. ends (Exit 1))
          else if path_var = -2
          then next_do (acts (ss_io (emit (Stdout (RED @ ''Path doesn'' @ CHR 0x27 # ''t exist!! please re-check the path and start ss again!'' @ newline @ RESET))))) (\<lambda>u. ends (Exit 1))
          else
            next_do (acts (ROOT_PATH_update (\<lambda>x. argv ! 2))) (\<lambda>u.
            next_do (ss_must (sys_system H) (printErrorDetails 56)) (\<lambda>u.
            next_do (acts (\<lambda>s. snd (fs_call E fs_mkdir ''backupfolderforss'' s))) (\<lambda>u.
            next_do (acts (nm_ip_update (\<lambda>x. argv ! 1))) (\<lambda>u.
            ss_must (sys_pthread_create H) (printErrorDetails 43)))))))"

text \<open>The rest of \<^verbatim>\<open>main\<close>: the socket for clients and its port.\<close>

definition ss_listener_up :: "env \<Rightarrow> host \<Rightarrow> (ss, int \<times> int) boot" where
  "ss_listener_up E H =
     next_do (ss_asks (sys_socket E)) (\<lambda>sk.
       if sk < 0 then next_do (acts (ss_io (printErrorDetails 7))) (\<lambda>u. ends (Exit 1))
       else
         next_do (ss_must (\<lambda>t. sys_bind H t sk 0) (\<lambda>w. close sk (printErrorDetails 41 w))) (\<lambda>u.
         next_do (ss_asks (\<lambda>t. sys_getsockname H t sk)) (\<lambda>name.
           case name of
             None \<Rightarrow> next_do (acts (ss_io (\<lambda>w. close sk (printErrorDetails 57 w)))) (\<lambda>u. ends (Exit 1))
           | Some p \<Rightarrow>
               next_do (acts (ss_io (\<lambda>w. emit (Stdout (''Storage server listening for clients on port '' @ show_int p @ newline))
                 (emit (Bound sk p) w)))) (\<lambda>u. goes (sk, p)))))"

text \<open>One iteration of the accept loop: the socket given to a new thread.\<close>

definition listen_to_client :: "host \<Rightarrow> int \<Rightarrow> (ss, int option) boot" where
  "listen_to_client H server_sock =
     next_do (ss_must (\<lambda>t. sys_listen H t server_sock) (\<lambda>w. close server_sock (printErrorDetails 40 w))) (\<lambda>u.
     next_do (acts (ss_io (emit (Listening server_sock)))) (\<lambda>u.
     next_do (ss_asks (\<lambda>t. sys_accept H t server_sock)) (\<lambda>got.
       case got of
         AcceptErr e \<Rightarrow> next_do (acts (ss_io (printErrorDetails 42))) (\<lambda>u. goes None)
       | Accepted sk adr prt \<Rightarrow>
           next_do (acts (ss_io (emit (Stdout (''Got a client'' @ newline))))) (\<lambda>u.
           next_do (ss_asks (sys_pthread_create H)) (\<lambda>made.
             if made then goes (Some (int sk))
             else next_do (acts (ss_io (\<lambda>w. close (int sk) (printErrorDetails 43 w)))) (\<lambda>u. goes None))))))"

section \<open>The running program\<close>

datatype nm_phase = Starting | Connected int | Gone

record ss_run =
  store :: ss
  ssi_port :: int              \<comment> \<open>\<^verbatim>\<open>ssi.portClient\<close>\<close>
  nm_thread :: nm_phase
  told :: "int option"         \<comment> \<open>the port in the registration that was sent\<close>
  listener :: "int option"
  new_clients :: "int list"    \<comment> \<open>the arguments of threads that have not begun\<close>

datatype ss_run_label = Listens int | Tells int | Gives_up | Obeys int | ClientIn "int option" | Serving int | Arrives int

inductive ss_run_step :: "ss_run \<Rightarrow> ss_run_label \<Rightarrow> ss_run \<Rightarrow> bool" where
  listens: "listener r = None \<Longrightarrow> ss_listener_up E H (store r) = (Inr (sk, p), s') \<Longrightarrow>
    ss_run_step r (Listens p) (r\<lparr>store := s', listener := Some sk, ssi_port := p\<rparr>)"
| tells: "nm_thread r = Starting \<Longrightarrow> portClient_of E ssi = ssi_port r \<Longrightarrow> register_with_nm E ssi (store r) = Inr (Some sk, s') \<Longrightarrow>
    ss_run_step r (Tells (ssi_port r)) (r\<lparr>store := send_index E sk s', nm_thread := Connected sk, told := Some (ssi_port r)\<rparr>)"
| gives_up: "nm_thread r = Starting \<Longrightarrow> register_with_nm E ssi (store r) = Inr (None, s') \<Longrightarrow>
    ss_run_step r Gives_up (r\<lparr>store := s', nm_thread := Gone\<rparr>)"
| obeys: "nm_thread r = Connected sk \<Longrightarrow> nm_command n E J sk (store r) = Inr s' \<Longrightarrow> ss_run_step r (Obeys sk) (r\<lparr>store := s'\<rparr>)"
| client_in: "listener r = Some sk \<Longrightarrow> listen_to_client H sk (store r) = (Inr got, s') \<Longrightarrow>
    ss_run_step r (ClientIn got) (r\<lparr>store := s', new_clients := new_clients r @ (case got of None \<Rightarrow> [] | Some fd \<Rightarrow> [fd])\<rparr>)"
| serving: "new_clients r = as @ fd # bs \<Longrightarrow> ss_process_client n E J fd (store r) = Inr s' \<Longrightarrow>
    ss_run_step r (Serving fd) (r\<lparr>store := s', new_clients := as @ bs\<rparr>)"
| arrives: "ss_run_step r (Arrives fd) (r\<lparr>store := (store r)\<lparr>inbox := (inbox (store r))(fd := inbox (store r) fd @ ms)\<rparr>\<rparr>)"

inductive_cases ss_run_stepE: "ss_run_step r l r'"

text \<open>The port of the structure on the stack of \<^verbatim>\<open>main\<close> is not set when the thread starts.\<close>

definition ss_run_start :: "ss_run \<Rightarrow> bool" where
  "ss_run_start r \<longleftrightarrow> nm_thread r = Starting \<and> told r = None \<and> listener r = None \<and> new_clients r = [] \<and>
     (\<exists>E H argv s. ss_start s \<and> ss_begin E H argv s = (Inr (), store r))"

section \<open>Invariant\<close>

lemma ss_boots [boot_simps]:
  "boots (ss_asks q) R Q s = Q (q (clock (ss_net s))) (ss_io tick s)"
  by (simp add: boots_def ss_asks_def)

lemma ss_boots_must [boot_simps]:
  "boots (ss_must q undo) R Q s = (if q (clock (ss_net s)) then Q () (ss_io tick s) else R (Exit 1) (ss_io undo (ss_io tick s)))"
  by (simp add: ss_must_def boot_simps)

context file_frame
begin

lemma step_register: "R s0 s \<Longrightarrow> ensures (register_with_nm E ssi s) (\<lambda>(x, s'). R s0 s')"
  by (auto simp: register_with_nm_def Let_def ss_val_eq intro!: step_io)

lemma step_index: "R s0 s \<Longrightarrow> R s0 (send_index E sk s)"
  by (simp add: send_index_def step_io)

lemma step_listener: "R s0 s \<Longrightarrow> boots (ss_listener_up E H) (\<lambda>e s'. True) (\<lambda>x s'. R s0 s') s"
  by (auto simp: ss_listener_up_def boot_simps intro!: step_io split: option.split)

lemma step_accept: "R s0 s \<Longrightarrow> boots (listen_to_client H sk) (\<lambda>e s'. True) (\<lambda>x s'. R s0 s') s"
  by (auto simp: listen_to_client_def boot_simps intro!: step_io split: accepted.split)

end

text \<open>What the locale gives for each of the two parts of the invariant.\<close>

definition ss_ok :: "ss \<Rightarrow> bool" where
  "ss_ok s \<longleftrightarrow> ss_wf s \<and> quiet s"

lemma ss_ok_simps [simp]:
  "ss_ok (ss_io f s) = ss_ok s" "ss_ok (s\<lparr>ROOT_PATH := x\<rparr>) = ss_ok s" "ss_ok (s\<lparr>nm_ip := x\<rparr>) = ss_ok s" "ss_ok (s\<lparr>inbox := q\<rparr>) = ss_ok s"
  by (simp_all add: ss_ok_def quiet_def ss_wf_def)

lemma ss_ok_register: "ss_ok s \<Longrightarrow> register_with_nm E ssi s = Inr (x, s') \<Longrightarrow> ss_ok s'"
  using wf.step_register [of s s E ssi] quiet.step_register [of s s E ssi] by (simp add: ss_ok_def ensures_iff)

lemma ss_ok_index [simp]: "ss_ok (send_index E sk s) = ss_ok s"
  by (simp add: send_index_def)

lemma ss_ok_listener: "ss_ok s \<Longrightarrow> ss_listener_up E H s = (Inr y, s') \<Longrightarrow> ss_ok s'"
  using boots_run [OF wf.step_listener [of s s E H]] boots_run [OF quiet.step_listener [of s s E H]] by (simp add: ss_ok_def)

lemma ss_ok_accept: "ss_ok s \<Longrightarrow> listen_to_client H sk s = (Inr got, s') \<Longrightarrow> ss_ok s'"
  using boots_run [OF wf.step_accept [of s s H sk]] boots_run [OF quiet.step_accept [of s s H sk]] by (simp add: ss_ok_def)

lemma ss_ok_command: "ss_ok s \<Longrightarrow> nm_command n E J sk s = Inr s' \<Longrightarrow> ss_ok s'"
  using wf.nm_command_step [of s s n E J sk] quiet.nm_command_step [of s s n E J sk] by (simp add: ss_ok_def ensures_iff)

lemma ss_ok_client: "ss_ok s \<Longrightarrow> ss_process_client n E J sk s = Inr s' \<Longrightarrow> ss_ok s'"
  using wf.process_client_step [of s s n E J sk] quiet.process_client_step [of s s n E J sk] by (simp add: ss_ok_def ensures_iff)

lemma ss_ok_mkdir: "ss_ok s \<Longrightarrow> ss_ok (snd (fs_call E fs_mkdir path s))"
  using wf.R_call [of fs_mkdir s E path] quiet.R_call [of fs_mkdir s E path] by (simp add: ss_ok_def)

lemma ss_ok_validate: "ss_ok (snd (validate_path E path s)) = ss_ok s"
  by (simp add: validate_path_def fs_query_def)

lemma ss_begin_ok: "ss_ok s \<Longrightarrow> boots (ss_begin E H argv) (\<lambda>e s'. True) (\<lambda>u s'. ss_ok s') s"
  by (simp add: ss_begin_def boot_simps ss_ok_mkdir ss_ok_validate)

lemma ss_run_step_ok: "ss_ok (store r) \<Longrightarrow> ss_run_step r l r' \<Longrightarrow> ss_ok (store r')"
proof (erule ss_run_stepE, goal_cases)
  case (1 E H sk p s')
  then show ?case using ss_ok_listener by simp
next
  case (2 E ssi sk s')
  then show ?case using ss_ok_register [OF 2(1) 2(6)] by simp
next
  case (3 E ssi s')
  then show ?case using ss_ok_register [OF 3(1) 3(5)] by simp
next
  case (4 sk n E J s')
  then show ?case using ss_ok_command by simp
next
  case (5 sk H got s')
  then show ?case using ss_ok_accept [OF 5(1) 5(5)] by simp
next
  case (6 as fd bs n E J s')
  then show ?case using ss_ok_client [OF 6(1) 6(5)] by simp
qed simp

lemma ss_run_start_ok:
  assumes "ss_run_start r"
  shows "ss_ok (store r)"
proof -
  from assms obtain E H argv s where s: "ss_start s" "ss_begin E H argv s = (Inr (), store r)" by (auto simp: ss_run_start_def)
  then have "ss_ok s" by (simp add: ss_start_def ss_ok_def ss_wf_def)
  from boots_run [OF ss_begin_ok [OF this] s(2)] show ?thesis .
qed

interpretation ss_prog: invariant_of ss_run_start ss_run_step "\<lambda>r. ss_ok (store r)"
  by unfold_locales (auto intro: ss_run_start_ok ss_run_step_ok)

section \<open>Which connections are served\<close>

fun accepted_fd :: "ss_run_label \<Rightarrow> int option" where
  "accepted_fd (ClientIn got) = got"
| "accepted_fd _ = None"

fun served_fd :: "ss_run_label \<Rightarrow> int option" where
  "served_fd (Serving fd) = Some fd"
| "served_fd _ = None"

interpretation cli: handover ss_run_step accepted_fd served_fd "\<lambda>r. mset (new_clients r)"
  by unfold_locales (erule ss_run_stepE, auto split: option.splits)

lemma clients_served_once:
  assumes "ss_run_start r0" "runs ss_run_step r0 ls r"
  shows "noted accepted_fd ls = noted served_fd ls + mset (new_clients r)"
  using cli.accounts [OF assms(2)] assms(1) by (simp add: ss_run_start_def)

section \<open>Which port is told\<close>

definition port_known :: "ss_run \<Rightarrow> ss_run \<Rightarrow> bool" where
  "port_known r0 r \<longleftrightarrow> (listener r = None \<longrightarrow> ssi_port r = ssi_port r0) \<and>
     (\<forall>q. told r = Some q \<longrightarrow> q = ssi_port r0 \<or> listener r \<noteq> None \<and> q = ssi_port r)"

lemma port_known_runs: "runs ss_run_step r0 ls r \<Longrightarrow> told r0 = None \<Longrightarrow> port_known r0 r"
proof (induction rule: runs.induct)
  case (runs_snoc s ls s' l s'')
  then have "port_known s s'" by simp
  with runs_snoc.hyps(2) show ?case by (auto simp: port_known_def elim!: ss_run_stepE)
qed (simp add: port_known_def)

section \<open>Properties\<close>


text \<open>C23. The port a storage server registers: it is either the one its clients can reach, or what the
  unassigned field held when the thread was started; the second happens whenever the thread sends the
  registration before \<^verbatim>\<open>main\<close> has bound its socket.\<close>

theorem port_race:
  assumes "ss_run_start r0"
  shows "(\<forall>ls r q. runs ss_run_step r0 ls r \<and> told r = Some q \<longrightarrow> q = ssi_port r0 \<or> listener r \<noteq> None \<and> q = ssi_port r) \<and>
    (\<forall>E E' H ssi sk s1 l p s2. portClient_of E ssi = ssi_port r0 \<and> register_with_nm E ssi (store r0) = Inr (Some sk, s1) \<and>
       ss_listener_up E' H (send_index E sk s1) = (Inr (l, p), s2) \<longrightarrow>
       (\<exists>r. runs ss_run_step r0 [Tells (ssi_port r0), Listens p] r \<and> told r = Some (ssi_port r0) \<and> listener r = Some l \<and> ssi_port r = p))"
proof (intro conjI allI impI)
  show "q = ssi_port r0 \<or> listener r \<noteq> None \<and> q = ssi_port r" if "runs ss_run_step r0 ls r \<and> told r = Some q" for ls r q
    using port_known_runs [of r0 ls r] that assms by (simp add: ss_run_start_def port_known_def)
  fix E E' H ssi sk s1 l p s2
  assume a: "portClient_of E ssi = ssi_port r0 \<and> register_with_nm E ssi (store r0) = Inr (Some sk, s1) \<and>
    ss_listener_up E' H (send_index E sk s1) = (Inr (l, p), s2)"
  let ?r1 = "r0\<lparr>store := send_index E sk s1, nm_thread := Connected sk, told := Some (ssi_port r0)\<rparr>"
  have "ss_run_step r0 (Tells (ssi_port r0)) ?r1" using a assms tells [of r0 E ssi sk s1] by (simp add: ss_run_start_def)
  moreover have "ss_run_step ?r1 (Listens p) (?r1\<lparr>store := s2, listener := Some l, ssi_port := p\<rparr>)"
    using a assms listens [of ?r1 E' H l p s2] by (simp add: ss_run_start_def)
  ultimately have "runs ss_run_step r0 (([] @ [Tells (ssi_port r0)]) @ [Listens p]) (?r1\<lparr>store := s2, listener := Some l, ssi_port := p\<rparr>)"
    by (meson runs_snoc [where step = ss_run_step] runs_Nil [where step = ss_run_step])
  then show "\<exists>r. runs ss_run_step r0 [Tells (ssi_port r0), Listens p] r \<and> told r = Some (ssi_port r0) \<and> listener r = Some l \<and> ssi_port r = p"
    by fastforce
qed

lemma idle_stat: "fs_stat (fs idle_ss) (cwd idle_ss) ''./a'' \<noteq> None"
  by code_simp

lemma ss_begin_calm:
  "\<exists>r. ss_run_start r \<and> ssi_port r = 99 \<and> ss_begin calm_env (calm_host f) [''ss'', ''10.0.0.2'', ''./a''] idle_ss = (Inr (), store r)"
proof -
  have "boots (ss_begin calm_env (calm_host f) [''ss'', ''10.0.0.2'', ''./a'']) (\<lambda>e s'. False) (\<lambda>u s'. True) idle_ss"
    using idle_stat by (simp add: ss_begin_def boot_simps validate_path_def fs_query_def fs_allowed_def)
  then obtain s' where s': "ss_begin calm_env (calm_host f) [''ss'', ''10.0.0.2'', ''./a''] idle_ss = (Inr (), s')"
    by (auto simp: boots_def split: prod.splits sum.splits)
  moreover have "ss_start idle_ss"
    using idle_ss_wf by (simp add: ss_start_def ss_wf_def idle_ss_def quiet_def quiet_lock_def init_lock_def)
  ultimately show ?thesis
    by (intro exI [of _ "\<lparr>store = s', ssi_port = 99, nm_thread = Starting, told = None, listener = None, new_clients = []\<rparr>"])
      (auto simp: ss_run_start_def)
qed

lemma ss_listener_calm: "\<exists>s'. ss_listener_up calm_env (calm_host f) s = (Inr (7, 5000), s')"
  by (simp add: ss_listener_up_def next_do_def ss_asks_def ss_must_def goes_def acts_def)


lemma ss_register_calm:
  "\<exists>s1. register_with_nm (calm_env\<lparr>portClient_of := g\<rparr>) ssi s = Inr (Some 7, s1)"
  by (simp add: register_with_nm_def Let_def ss_val_eq send_good_def send_def calm_env_def)

theorem port_race_witness:
  "\<exists>r0 r ls. runs ss_run_step r0 ls r \<and> told r = Some 99 \<and> listener r = Some 7 \<and> ssi_port r = 5000"
proof -
  let ?E = "calm_env\<lparr>portClient_of := (\<lambda>b. 99)\<rparr>"
  obtain r0 where r0: "ss_run_start r0" "ssi_port r0 = 99" using ss_begin_calm by blast
  obtain s1 where s1: "register_with_nm ?E ''ssi'' (store r0) = Inr (Some 7, s1)" using ss_register_calm by blast
  obtain s2 where s2: "ss_listener_up calm_env (calm_host id) (send_index ?E 7 s1) = (Inr (7, 5000), s2)"
    using ss_listener_calm by blast
  have "portClient_of ?E ''ssi'' = ssi_port r0 \<and> register_with_nm ?E ''ssi'' (store r0) = Inr (Some 7, s1) \<and>
    ss_listener_up calm_env (calm_host id) (send_index ?E 7 s1) = (Inr (7, 5000), s2)" using s1 s2 r0(2) by simp
  then obtain r where "runs ss_run_step r0 [Tells (ssi_port r0), Listens 5000] r" "told r = Some (ssi_port r0)" "listener r = Some 7" "ssi_port r = 5000"
    using conjunct2 [OF port_race [OF r0(1)]] by blast
  then show ?thesis unfolding r0(2) by blast
qed

end
