(* ===== verification/Transfer_Copy.thy ===== *)
theory Transfer_Copy
  imports Ss_Transfer
begin

text \<open>
  The copy protocol copies: the messages of a tree (\<open>script\<close>), what the sender sends when every
  message is acknowledged, and what the receiver builds from them.
\<close>

section \<open>The messages of a tree\<close>

function chunks :: "nat \<Rightarrow> string \<Rightarrow> string list" where
  "chunks n t = (if t = [] \<or> n = 0 then [] else take n t # chunks n (drop n t))"
  by pat_completeness auto
termination
  by (relation "measure (\<lambda>(n, t). length t)") auto

declare chunks.simps [simp del]

fun script :: "string \<Rightarrow> fnode \<Rightarrow> string list" where
  "script rel (FFile t) = (''FILE '' @ rel @ newline) # (show_nat (length t) @ newline) # chunks BUFFER_SIZE t"
| "script rel (FDir es) = (''DIR '' @ rel @ newline) # concat (map (\<lambda>e. script (rel @ ''/'' @ fst e) (snd e)) es)"

text \<open>Sizes fit \<^verbatim>\<open>off_t\<close>; names are what \<^verbatim>\<open>\%s\<close> reads back.\<close>

fun sendable :: "fnode \<Rightarrow> bool" where
  "sendable (FFile t) = (length t < 2 ^ 63)"
| "sendable (FDir es) = (\<forall>e\<in>set es. blank_free (fst e) \<and> CHR 0x00 \<notin> set (fst e) \<and> sendable (snd e))"

lemma size_line_short: "n < 2 ^ 63 \<Longrightarrow> length (show_nat n @ newline) < 30"
  using show_nat_length [of n 19] by (simp add: newline_def)

section \<open>The sender\<close>

definition talks :: "int \<Rightarrow> string list \<Rightarrow> recv_raw list \<Rightarrow> ss \<Rightarrow> ss \<Rightarrow> bool" where
  "talks fd msgs q s s' \<longleftrightarrow> s' = s\<lparr>ss_net := ss_net s', inbox := (inbox s)(fd := q)\<rparr> \<and>
     trace (ss_net s') = trace (ss_net s) @ map (Sent fd) msgs"

lemma talks_trans: "talks fd m1 q1 s s1 \<Longrightarrow> talks fd m2 q2 s1 s2 \<Longrightarrow> talks fd (m1 @ m2) q2 s s2"
  by (cases s; cases s1; cases s2) (simp add: talks_def)

lemma talks_tick: "talks fd msgs q (ss_io tick s) s' \<Longrightarrow> talks fd msgs q s s'"
  by (cases s; cases s') (simp add: talks_def ss_io_def)

lemma talks_nil: "inbox s fd = q \<Longrightarrow> talks fd [] q s s"
  by (cases s) (auto simp: talks_def)

lemma talks_same:
  assumes "talks fd msgs q s s'"
  shows "fs s' = fs s" "place s' = place s" "inbox s' fd = q" "ss_wf s' = ss_wf s"
  using assms by (cases s; cases s'; simp add: talks_def place_def ss_wf_def fun_eq_iff)+

abbreviation acks :: "nat \<Rightarrow> recv_raw list" where
  "acks k \<equiv> replicate k (RecvBytes ack_text)"

lemma ack_text_short: "length ack_text \<le> BUFFER_SIZE - 1" "c_str ack_text = ack_text" "ack_text \<noteq> []"
  by (simp_all add: ack_text_def BUFFER_SIZE_def c_str_def)

lemma receive_message:
  assumes "inbox s fd = RecvBytes b # q" "b \<noteq> []" "length b \<le> n"
  shows "ss_recv_good fd n s = Inr ((int (length b), b), s\<lparr>inbox := (inbox s)(fd := q)\<rparr>)"
  using assms by (simp add: ss_recv_good_def ss_recv_def)

lemma send_acked_ok:
  assumes "accepts_all E" "inbox s fd = RecvBytes ack_text # q"
  shows "\<exists>s'. send_acked E fd msg s = Inr (True, s') \<and> talks fd [msg] q s s'"
proof -
  let ?s1 = "ss_io (\<lambda>w. emit (Sent fd msg) (tick w)) s"
  have "ss_val (send E fd msg) s = (SentBytes (length msg), ?s1)"
    using assms(1) by (simp add: ss_val_eq send_def accepts_all_def ss_io_def)
  moreover have "receive_ack fd ?s1 = Inr (0, ?s1\<lparr>inbox := (inbox ?s1)(fd := q)\<rparr>)"
    using receive_message [of ?s1 fd ack_text q "BUFFER_SIZE - 1"] assms(2) ack_text_short by (simp add: receive_ack_def)
  ultimately show ?thesis by (simp add: send_acked_def talks_def ss_io_def)
qed

lemma send_chunks_ok:
  assumes "accepts_all E"
  shows "inbox s fd = acks (length (chunks BUFFER_SIZE t)) @ q \<Longrightarrow>
    \<exists>s'. send_chunks E fd t s = Inr s' \<and> talks fd (chunks BUFFER_SIZE t) q s s'"
proof (induction t arbitrary: s rule: length_induct)
  case (1 t)
  show ?case
  proof (cases "t = []")
    case True
    then show ?thesis using "1.prems" talks_nil [of s fd q] by (simp add: send_chunks.simps chunks.simps)
  next
    case False
    have ch: "chunks BUFFER_SIZE t = take BUFFER_SIZE t # chunks BUFFER_SIZE (drop BUFFER_SIZE t)"
      using False by (subst chunks.simps) (simp add: BUFFER_SIZE_def)
    have "inbox s fd = RecvBytes ack_text # acks (length (chunks BUFFER_SIZE (drop BUFFER_SIZE t))) @ q"
      using "1.prems" by (simp add: ch)
    from send_acked_ok [OF assms this] obtain s1 where s1: "send_acked E fd (take BUFFER_SIZE t) s = Inr (True, s1)"
      "talks fd [take BUFFER_SIZE t] (acks (length (chunks BUFFER_SIZE (drop BUFFER_SIZE t))) @ q) s s1" by blast
    have "length (drop BUFFER_SIZE t) < length t" using False by (simp add: BUFFER_SIZE_def)
    with 1 talks_same(3) [OF s1(2)] obtain s' where s': "send_chunks E fd (drop BUFFER_SIZE t) s1 = Inr s'"
      "talks fd (chunks BUFFER_SIZE (drop BUFFER_SIZE t)) q s1 s'" by blast
    have "send_chunks E fd t s = Inr s'" using False s1(1) s'(1) by (simp add: send_chunks.simps [of E fd t])
    then show ?thesis using talks_trans [OF s1(2) s'(2)] by (simp add: ch)
  qed
qed

text \<open>A tree the sender can name and describe.\<close>

definition source_at :: "ss \<Rightarrow> string \<Rightarrow> string list \<Rightarrow> fnode \<Rightarrow> bool" where
  "source_at s src p m \<longleftrightarrow> ss_wf s \<and> place s src = Some p \<and> fs_get (fs s) p = Some m \<and> \<not> trailing_slash src \<and>
     fits (MAX_PATH_SIZE - 6) (length src) m \<and> sendable m"

lemma source_at_talks: "talks fd msgs q s s' \<Longrightarrow> source_at s' src p m = source_at s src p m"
  by (simp add: source_at_def talks_same)

lemma source_at_io [simp]: "source_at (ss_io f s) src p m = source_at s src p m"
  by (simp add: source_at_def)

lemma source_at_entry:
  assumes "source_at s src p (FDir es)" "(c, m) \<in> set es"
  shows "source_at s (src @ ''/'' @ c) (p @ [c]) m" "snprintf MAX_PATH_SIZE (src @ ''/'' @ c) = src @ ''/'' @ c"
proof -
  note s = assms(1) [unfolded source_at_def]
  have wf: "wf_fs (FDir es)" using ss_wf_node s by blast
  then have c: "proper c" using assms(2) by auto
  have fit: "fits (MAX_PATH_SIZE - 6) (length src + 1 + length c) m" using s assms(2) by fastforce
  show "snprintf MAX_PATH_SIZE (src @ ''/'' @ c) = src @ ''/'' @ c" using fits_bound [OF fit] by simp
  have "kind_at (fs s) p = Directory" using s by (simp add: kind_at_def)
  then have "place s (src @ ''/'' @ c) = Some (p @ [c])" using place_child [OF _ _ c] s by blast
  moreover have "fs_get (fs s) (p @ [c]) = Some m" using s wf assms(2) by (simp add: fs_get_append)
  ultimately show "source_at s (src @ ''/'' @ c) (p @ [c]) m"
    using s fit child_no_slash [OF c] assms(2) by (auto simp: source_at_def)
qed

lemma send_file_ok:
  assumes "accepts_all E" "allows E" "source_at s src p (FFile t)" "inbox s fd = acks (length (script (drop k src) (FFile t))) @ q"
  shows "\<exists>s'. send_file_over_network E fd src k s = Inr s' \<and> talks fd (script (drop k src) (FFile t)) q s s'"
proof -
  note src = assms(3) [unfolded source_at_def]
  let ?h = "''FILE '' @ drop k src @ newline" and ?z = "show_nat (length t) @ newline" and ?n = "length (chunks BUFFER_SIZE t)"
  have op: "fs_query E open_read src s = (Some (FFile t), ss_io tick s)" "fs_allowed E src (ss_io tick s)"
    using assms(2) src by (simp_all add: fs_query_def fs_allowed_def allows_def open_read_def place_def)
  have "length ?h < MAX_PATH_SIZE + 50" using src by (auto simp: newline_def MAX_PATH_SIZE_def)
  note short = snprintf_short [OF this]
  have "length ?z < MAX_PATH_SIZE + 50" using size_line_short [of "length t"] src by (simp add: MAX_PATH_SIZE_def)
  note short' = snprintf_short [OF this]
  let ?s2 = "ss_io tick (ss_io tick s)"
  have "inbox ?s2 fd = RecvBytes ack_text # RecvBytes ack_text # acks ?n @ q" using assms(4) by simp
  from send_acked_ok [OF assms(1) this] obtain s3 where s3: "send_acked E fd ?h ?s2 = Inr (True, s3)"
    "talks fd [?h] (RecvBytes ack_text # acks ?n @ q) ?s2 s3" by blast
  from send_acked_ok [OF assms(1) talks_same(3) [OF s3(2)]] obtain s4 where s4: "send_acked E fd ?z s3 = Inr (True, s4)"
    "talks fd [?z] (acks ?n @ q) s3 s4" by blast
  from send_chunks_ok [OF assms(1) talks_same(3) [OF s4(2)]] obtain s' where s': "send_chunks E fd t s4 = Inr s'"
    "talks fd (chunks BUFFER_SIZE t) q s4 s'" by blast
  have "send_file_over_network E fd src k s = Inr s'"
    unfolding send_file_over_network_def op(1) prod.case option.case fnode.case Let_def short short' s3(1) andthen_simps
    using op(2) s4(1) s'(1) by simp
  then show ?thesis using talks_tick [OF talks_tick [OF talks_trans [OF s3(2) talks_trans [OF s4(2) s'(2)]]]] by simp
qed

lemma send_entries_ok:
  assumes IH: "\<And>src p m s q. is_dir m \<Longrightarrow> levels m \<le> n \<Longrightarrow> source_at s src p m \<Longrightarrow> k \<le> length src \<Longrightarrow>
      inbox s fd = acks (length (script (drop k src) m)) @ q \<Longrightarrow>
      \<exists>s'. send_directory_over_network n E fd src k s = Inr s' \<and> talks fd (script (drop k src) m) q s s'"
    and E: "accepts_all E" "allows E" and lev: "levels (FDir es) \<le> Suc n" and k: "k \<le> length src"
  shows "set rest \<subseteq> set es \<Longrightarrow> source_at s src p (FDir es) \<Longrightarrow>
    inbox s fd = acks (length (concat (map (\<lambda>e. script (drop k src @ ''/'' @ fst e) (snd e)) rest))) @ q \<Longrightarrow>
    \<exists>s'. send_entries n E fd src k rest s = Inr s' \<and>
      talks fd (concat (map (\<lambda>e. script (drop k src @ ''/'' @ fst e) (snd e)) rest)) q s s'"
proof (induction rest arbitrary: s)
  case Nil
  then show ?case using talks_nil [of s fd q] by simp
next
  case (Cons e rest)
  obtain c m where e: "e = (c, m)" by (cases e)
  have c: "(c, m) \<in> set es" using Cons.prems(1) e by simp
  let ?p = "src @ ''/'' @ c" and ?ms = "script (drop k src @ ''/'' @ c) m"
    and ?rs = "concat (map (\<lambda>e. script (drop k src @ ''/'' @ fst e) (snd e)) rest)"
  have dr: "drop k ?p = drop k src @ ''/'' @ c" "k \<le> length ?p" using k by simp_all
  note entry = source_at_entry [OF Cons.prems(2) c]
  note src = entry(1) [unfolded source_at_def]
  have st: "fs_query E fs_stat ?p s = (Some m, ss_io tick s)"
    using E(2) src by (auto simp: fs_query_def fs_allowed_def allows_def place_def split: fnode.split)
  have box: "inbox (ss_io tick s) fd = acks (length ?ms) @ acks (length ?rs) @ q"
    using Cons.prems(3) by (simp add: e replicate_add)
  have "\<exists>s1. (case m of FDir es' \<Rightarrow> send_directory_over_network n E fd ?p k (ss_io tick s)
      | FFile t \<Rightarrow> send_file_over_network E fd ?p k (ss_io tick s)) = Inr s1 \<and> talks fd ?ms (acks (length ?rs) @ q) (ss_io tick s) s1"
  proof (cases m)
    case (FFile t)
    then show ?thesis using send_file_ok [OF E, of "ss_io tick s" ?p "p @ [c]" t fd k] entry(1) box dr(1) by simp
  next
    case (FDir es')
    have "levels m \<le> n" using levels_entry [OF c] lev by linarith
    then show ?thesis using IH [of m "ss_io tick s" ?p "p @ [c]"] entry(1) box dr FDir by (simp only: is_dir.simps source_at_io fnode.case)
  qed
  then obtain s1 where s1: "(case m of FDir es' \<Rightarrow> send_directory_over_network n E fd ?p k (ss_io tick s)
      | FFile t \<Rightarrow> send_file_over_network E fd ?p k (ss_io tick s)) = Inr s1" "talks fd ?ms (acks (length ?rs) @ q) s s1"
    using talks_tick by blast
  obtain s' where s': "send_entries n E fd src k rest s1 = Inr s'" "talks fd ?rs q s1 s'"
    using Cons.IH [of s1] Cons.prems(1,2) source_at_talks [OF s1(2)] talks_same(3) [OF s1(2)] by auto
  have "send_entries n E fd src k (e # rest) s = Inr s'"
    using s1(1) s'(1) unfolding e send_entries.simps Let_def entry(2) st prod.case option.case by (cases m) simp_all
  then show ?case using talks_trans [OF s1(2) s'(2)] by (simp add: e)
qed

lemma send_directory_ok:
  assumes "accepts_all E" "allows E" "is_dir m" "levels m \<le> n" "source_at s src p m" "k \<le> length src"
    "inbox s fd = acks (length (script (drop k src) m)) @ q"
  shows "\<exists>s'. send_directory_over_network n E fd src k s = Inr s' \<and> talks fd (script (drop k src) m) q s s'"
  using assms(3-7)
proof (induction n arbitrary: m src p s q)
  case 0
  then show ?case by (cases m) simp_all
next
  case (Suc n)
  obtain es where m: "m = FDir es" using Suc.prems(1) by (cases m) simp_all
  note src = Suc.prems(3) [unfolded source_at_def m]
  let ?h = "''DIR '' @ drop k src @ newline" and ?rs = "concat (map (\<lambda>e. script (drop k src @ ''/'' @ fst e) (snd e)) es)"
  have op: "fs_query E open_dir src s = (Some es, ss_io tick s)"
    using assms(2) src by (simp add: fs_query_def fs_allowed_def allows_def place_def)
  have "length ?h < MAX_PATH_SIZE" using src by (auto simp: newline_def MAX_PATH_SIZE_def)
  note short = snprintf_short [OF this]
  have "inbox (ss_io tick s) fd = RecvBytes ack_text # acks (length ?rs) @ q" using Suc.prems(5) by (simp add: m)
  from send_acked_ok [OF assms(1) this] obtain s2 where s2: "send_acked E fd ?h (ss_io tick s) = Inr (True, s2)"
    "talks fd [?h] (acks (length ?rs) @ q) (ss_io tick s) s2" by blast
  have "source_at s2 src p (FDir es)" using Suc.prems(3) source_at_talks [OF s2(2)] by (simp add: m)
  have "\<exists>s'. send_entries n E fd src k es s2 = Inr s' \<and> talks fd ?rs q s2 s'"
    by (rule send_entries_ok [OF _ assms(1,2) Suc.prems(2) [unfolded m] Suc.prems(4) subset_refl \<open>source_at s2 src p (FDir es)\<close>
          talks_same(3) [OF s2(2)]]) (rule Suc.IH)
  then obtain s' where s': "send_entries n E fd src k es s2 = Inr s'" "talks fd ?rs q s2 s'" by blast
  have "send_directory_over_network (Suc n) E fd src k s = Inr s'"
    unfolding send_directory_over_network.simps op prod.case option.case short s2(1) andthen_simps using s'(1) by simp
  then show ?case using talks_tick [OF talks_trans [OF s2(2) s'(2)]] by (simp add: m)
qed

section \<open>The receiver\<close>

lemma send_ack_ok: "accepts_all E \<Longrightarrow> send_ack E fd s = ss_io (\<lambda>w. emit (Sent fd ack_text) (tick w)) s"
  by (simp add: send_ack_def ss_val_eq send_def accepts_all_def ss_io_def)

text \<open>What the receiver does with a tree: it copies it, uses up its messages and acknowledges each.\<close>

definition stored :: "int \<Rightarrow> nat \<Rightarrow> recv_raw list \<Rightarrow> ss \<Rightarrow> ss \<Rightarrow> bool" where
  "stored fd k q s s' \<longleftrightarrow> inbox s' = (inbox s)(fd := q) \<and> trace (ss_net s') = trace (ss_net s) @ replicate k (Sent fd ack_text)"

lemma stored_trans: "stored fd k q s s1 \<Longrightarrow> stored fd k' q' s1 s2 \<Longrightarrow> stored fd (k + k') q' s s2"
  by (simp add: stored_def replicate_add)

lemma stored_box: "stored fd k q s s' \<Longrightarrow> inbox s' fd = q"
  by (simp add: stored_def)

lemma recv_chunk_whole:
  assumes "inbox s fd = RecvBytes b # q" "b \<noteq> []"
  shows "recv_chunk fd (length b) [] s = Inr (Some b, s\<lparr>inbox := (inbox s)(fd := q)\<rparr>)"
proof -
  have "recv_chunk fd 0 b s' = Inr (Some b, s')" for s' by (subst recv_chunk.simps) simp
  then show ?thesis using receive_message [OF assms le_refl] assms(2) by (subst recv_chunk.simps) simp
qed

lemma recv_file_step:
  assumes "k \<noteq> 0" "recv_chunk fd (min k BUFFER_SIZE) [] s = Inr (Some b, s1)" "fs_allowed E dest s1"
  shows "recv_file E fd dest p k s = recv_file E fd dest p (k - min k BUFFER_SIZE) (send_ack E fd (ss_append p b (ss_io tick s1)))"
  using assms by (subst recv_file.simps) simp

lemma recv_file_0: "recv_file E fd dest p 0 s = Inr s"
  by (subst recv_file.simps) simp

lemma recv_file_ok:
  assumes "accepts_all E" "allows E"
  shows "inbox s fd = map RecvBytes (chunks BUFFER_SIZE t) @ q \<Longrightarrow> writable p s \<Longrightarrow> kind_at (fs s) p = File u \<Longrightarrow>
    \<exists>s'. recv_file E fd dest p (length t) s = Inr s' \<and> changes_at p s s' \<and>
      kind_at (fs s') = (kind_at (fs s))(p := File (u @ t)) \<and> stored fd (length (chunks BUFFER_SIZE t)) q s s'"
proof (induction t arbitrary: s u rule: length_induct)
  case (1 t)
  show ?case
  proof (cases "t = []")
    case True
    then show ?thesis
      using "1.prems" by (intro exI [of _ s]) (simp add: recv_file_0 chunks.simps stored_def fun_upd_idem)
  next
    case False
    let ?b = "take BUFFER_SIZE t" and ?d = "drop BUFFER_SIZE t"
    have ch: "chunks BUFFER_SIZE t = ?b # chunks BUFFER_SIZE ?d"
      using False by (subst chunks.simps) (simp add: BUFFER_SIZE_def)
    have b: "?b \<noteq> []" "min (length t) BUFFER_SIZE = length ?b" "length ?b \<noteq> 0" using False by (simp_all add: BUFFER_SIZE_def)
    let ?q = "map RecvBytes (chunks BUFFER_SIZE ?d) @ q"
    let ?s1 = "s\<lparr>inbox := (inbox s)(fd := ?q)\<rparr>"
    have "inbox s fd = RecvBytes ?b # ?q" using "1.prems"(1) unfolding ch by simp
    then have rc: "recv_chunk fd (min (length t) BUFFER_SIZE) [] s = Inr (Some ?b, ?s1)"
      unfolding b(2) by (rule recv_chunk_whole [OF _ b(1)])
    have w: "writable p (ss_io tick ?s1)" "kind_at (fs (ss_io tick ?s1)) p = File u" using "1.prems"(2,3) by (simp_all add: writable_def)
    let ?s2 = "send_ack E fd (ss_append p ?b (ss_io tick ?s1))"
    have app: "ss_append p ?b (ss_io tick ?s1) = ss_put p (u @ ?b) (ss_io tick ?s1)" using w(2) by (simp add: ss_append_def file_text_def)
    have s2: "inbox ?s2 = (inbox s)(fd := ?q)" "kind_at (fs ?s2) = (kind_at (fs s))(p := File (u @ ?b))" "writable p ?s2"
      using writable_put [OF w(1), of "u @ ?b"] by (simp_all add: send_ack_ok [OF assms(1)] app)
    have "length ?d < length t" using False by (simp add: BUFFER_SIZE_def)
    moreover have "inbox ?s2 fd = ?q" "kind_at (fs ?s2) p = File (u @ ?b)" using s2 by simp_all
    ultimately obtain s' where s': "recv_file E fd dest p (length ?d) ?s2 = Inr s'" "changes_at p ?s2 s'"
      "kind_at (fs s') = (kind_at (fs ?s2))(p := File ((u @ ?b) @ ?d))" "stored fd (length (chunks BUFFER_SIZE ?d)) q ?s2 s'"
      using 1(1) s2(3) by blast
    have "fs_allowed E dest ?s1" using assms(2) by (simp add: fs_allowed_def allows_def)
    moreover have "length t - min (length t) BUFFER_SIZE = length ?d" by simp
    ultimately have "recv_file E fd dest p (length t) s = Inr s'"
      using recv_file_step [OF _ rc, of E dest p] s'(1) False by (simp only: length_0_conv not_False_eq_True simp_thms)
    moreover have "changes_at p s ?s2"
    proof -
      have "changes_at p s ?s1" by (simp add: changes_at_def)
      from changes_at_trans [OF changes_at_trans [OF this changes_at_io] changes_at_trans [OF changes_at_put [OF w(1)] changes_at_io]]
      show ?thesis by (simp add: send_ack_ok [OF assms(1)] app)
    qed
    moreover have "stored fd 1 ?q s ?s2" using s2(1) by (simp add: stored_def send_ack_ok [OF assms(1)] app)
    moreover have "kind_at (fs s') = (kind_at (fs s))(p := File (u @ t))" using s'(3) s2(2) by simp
    ultimately show ?thesis
      using changes_at_trans [OF _ s'(2)] stored_trans [of fd 1 ?q s ?s2, OF _ s'(4)] unfolding ch
      by (intro exI [of _ s']) (simp only: plus_1_eq_Suc list.size add_Suc_right add_0_right simp_thms)
  qed
qed

text \<open>Names as they appear in the messages.\<close>

definition rel_ok :: "bool \<Rightarrow> string \<Rightarrow> bool" where
  "rel_ok strip rel \<longleftrightarrow> blank_free rel \<and> CHR 0x00 \<notin> set rel \<and> (strip \<longrightarrow> \<not> starts_with ''./'' rel \<and> rel \<noteq> ''.'')"

lemma rel_ok_child:
  assumes "rel_ok strip rel" "blank_free c" "CHR 0x00 \<notin> set c"
  shows "rel_ok strip (rel @ ''/'' @ c)"
proof -
  have "strip \<Longrightarrow> \<not> starts_with ''./'' (rel @ ''/'' @ c)"
    using assms(1) by (cases rel; cases "tl rel") (auto simp: rel_ok_def starts_with_def blank_free_def)
  moreover have "rel @ ''/'' @ c \<noteq> ''.''" using assms(1) by (cases rel) (auto simp: rel_ok_def blank_free_def)
  ultimately show ?thesis using assms by (auto simp: rel_ok_def blank_free_def white_space_def)
qed

lemma header_line:
  assumes "rel_ok strip rel" "length lit + length rel + 1 < BUFFER_SIZE" "CHR 0x00 \<notin> set lit" "lit \<noteq> []"
    "inbox s fd = RecvBytes (lit @ rel @ newline) # q"
  shows "ss_recv_good fd (BUFFER_SIZE - 1) s = Inr ((int (length (lit @ rel @ newline)), lit @ rel @ newline), s\<lparr>inbox := (inbox s)(fd := q)\<rparr>)"
    "c_str (lit @ rel @ newline) = lit @ rel @ newline" "first_word (rel @ newline) = Inr rel"
proof -
  show "ss_recv_good fd (BUFFER_SIZE - 1) s = Inr ((int (length (lit @ rel @ newline)), lit @ rel @ newline), s\<lparr>inbox := (inbox s)(fd := q)\<rparr>)"
    by (rule receive_message [OF assms(5)]) (use assms(2) in \<open>simp_all add: newline_def\<close>)
  show "c_str (lit @ rel @ newline) = lit @ rel @ newline" using assms(1,3) by (intro c_str_id) (simp add: rel_ok_def newline_def)
  show "first_word (rel @ newline) = Inr rel" using scan_word_line [of rel] assms(1) by (simp add: first_word_def rel_ok_def blank_free_def newline_def)
qed

lemma full_path_plain: "rel_ok strip rel \<Longrightarrow> length base + 1 + length rel < MAX_PATH_SIZE \<Longrightarrow> full_path strip base rel = base @ ''/'' @ rel"
  by (auto simp: full_path_def rel_ok_def)

text \<open>A place where the receiver can store a tree under a name.\<close>

definition target_at :: "bool \<Rightarrow> string \<Rightarrow> string \<Rightarrow> string list \<Rightarrow> fnode \<Rightarrow> ss \<Rightarrow> bool" where
  "target_at strip base rel q m s \<longleftrightarrow> ss_wf s \<and> place s (base @ ''/'' @ rel) = Some q \<and> kind_at (fs s) q = Absent \<and>
     \<not> trailing_slash rel \<and> rel_ok strip rel \<and> wf_fs m \<and> sendable m \<and> fits (BUFFER_SIZE - 6) (length rel) m \<and>
     fits MAX_PATH_SIZE (length base + 1 + length rel) m"

fun heads :: "fnode \<Rightarrow> nat" where
  "heads (FFile t) = 1"
| "heads (FDir es) = Suc (sum_list (map (\<lambda>e. heads (snd e)) es))"

lemma trailing_slash_append: "rel \<noteq> [] \<Longrightarrow> trailing_slash (base @ rel) = trailing_slash rel"
  by (simp add: trailing_slash_def)

lemma store_file:
  assumes "accepts_all E" "allows E" "target_at strip base rel q (FFile t) s" "inbox s fd = map RecvBytes (script rel (FFile t)) @ bx"
  shows "\<exists>s'. dest_loop (Suc k) strip E fd base s = dest_loop k strip E fd base s' \<and> copied q (FFile t) s s' \<and>
    stored fd (length (script rel (FFile t))) bx s s'"
proof -
  note tg = assms(3) [unfolded target_at_def]
  let ?dest = "base @ ''/'' @ rel" and ?z = "show_nat (length t) @ newline" and ?cs = "map RecvBytes (chunks BUFFER_SIZE t) @ bx"
  have box: "inbox s fd = RecvBytes (''FILE '' @ rel @ newline) # RecvBytes ?z # ?cs" using assms(4) by simp
  have len: "length ''FILE '' + length rel + 1 < BUFFER_SIZE" using tg by (simp add: less_diff_conv)
  have rel: "rel_ok strip rel" using tg by simp
  have lit: "CHR 0x00 \<notin> set ''FILE ''" "''FILE '' \<noteq> []" by simp_all
  note hd = header_line [OF rel len lit box]
  let ?s1 = "send_ack E fd (s\<lparr>inbox := (inbox s)(fd := RecvBytes ?z # ?cs)\<rparr>)"
  let ?s2 = "send_ack E fd (?s1\<lparr>inbox := (inbox s)(fd := ?cs)\<rparr>)"
  have small: "length t < 2 ^ 63" using tg by simp
  have "length ?z \<le> BUFFER_SIZE - 1" using size_line_short [OF small] by (simp add: BUFFER_SIZE_def)
  then have rz: "ss_recv_good fd (BUFFER_SIZE - 1) ?s1 = Inr ((int (length ?z), ?z), ?s1\<lparr>inbox := (inbox s)(fd := ?cs)\<rparr>)"
    using receive_message [of ?s1 fd ?z ?cs "BUFFER_SIZE - 1"] by (simp add: send_ack_ok [OF assms(1)])
  have "CHR 0x00 \<notin> set (show_nat (length t))" using show_nat_digits [of "CHR 0x00" "length t"] by (auto simp: is_digit_def)
  then have num: "c_str ?z = ?z" "atoi ?z = int (length t)"
    using atoi_show_nat_append [of newline "length t"] by (simp_all add: newline_def is_digit_def)
  have net: "fs ?s2 = fs s" "cwd ?s2 = cwd s" "inbox ?s2 = (inbox s)(fd := ?cs)" by (simp_all add: send_ack_ok [OF assms(1)])
  have "place ?s2 ?dest = Some q" "kind_at (fs ?s2) q = Absent" using tg net by (simp_all add: place_def)
  then have "ss_fopen E False ?dest ?s2 = (Some q, ss_put q (if False then file_text q ?s2 else []) (ss_io tick ?s2))"
    using tg assms(2) trailing_slash_append [of rel "base @ ''/''"]
    by (intro ss_fopen_ok) (simp_all add: allows_def rel_ok_def blank_free_def)
  then have fo: "ss_fopen E False ?dest ?s2 = (Some q, ss_put q [] (ss_io tick ?s2))" by simp
  let ?s3 = "ss_put q [] (ss_io tick ?s2)"
  have w: "writable q (ss_io tick ?s2)" using ss_fopen_place(2) [OF fo] by simp
  have k3: "kind_at (fs ?s3) = (kind_at (fs s))(q := File [])" "inbox ?s3 fd = ?cs" "kind_at (fs ?s3) q = File []"
    using writable_put(1) [OF w, of "[]"] net by simp_all
  from recv_file_ok [OF assms(1,2) k3(2) writable_put(2) [OF w] k3(3), of ?dest]
  obtain s' where s': "recv_file E fd ?dest q (length t) ?s3 = Inr s'" "changes_at q ?s3 s'"
    "kind_at (fs s') = (kind_at (fs ?s3))(q := File t)" "stored fd (length (chunks BUFFER_SIZE t)) bx ?s3 s'" by auto
  have "receive_and_save_file E fd ?dest ?s1 = Inr s'"
    unfolding receive_and_save_file_def rz andthen_simps prod.case num fo option.case nat_int s'(1) by (simp add: newline_def)
  moreover have "full_path strip base rel = ?dest" using full_path_plain [OF rel] tg by simp
  ultimately have run: "dest_loop (Suc k) strip E fd base s = dest_loop k strip E fd base s'"
    unfolding dest_loop.simps hd(1) andthen_simps prod.case Let_def hd(2) using hd(3) by (simp add: starts_with_def)
  have "changes_at q s ?s3"
  proof -
    have "changes_at q s (ss_io tick ?s2)" by (simp add: changes_at_def send_ack_ok [OF assms(1)] ss_io_def ss_wf_def)
    from changes_at_trans [OF this changes_at_put [OF w]] show ?thesis .
  qed
  moreover have "graft q (FFile t) (kind_at (fs s)) = (kind_at (fs s))(q := File t)"
    using graft_leaf [OF vacant_place, of "fs s" q "FFile t"] tg by (simp add: leaf_def)
  ultimately have "copied q (FFile t) s s'" using changes_at_trans [OF _ s'(2)] s'(3) k3(1) by (simp add: copied_def)
  moreover have "stored fd 2 ?cs s ?s3" by (simp add: stored_def send_ack_ok [OF assms(1)] numeral_2_eq_2)
  ultimately show ?thesis using run stored_trans [OF _ s'(4)] by fastforce
qed

text \<open>The entries of a directory, one after the other, when each of them is stored.\<close>

lemma store_entries:
  assumes step: "\<And>e rel q s k bx. e \<in> set es \<Longrightarrow> target_at strip base rel q (snd e) s \<Longrightarrow>
      inbox s fd = map RecvBytes (script rel (snd e)) @ bx \<Longrightarrow>
      \<exists>s'. dest_loop (heads (snd e) + k) strip E fd base s = dest_loop k strip E fd base s' \<and> copied q (snd e) s s' \<and>
        stored fd (length (script rel (snd e))) bx s s'"
    and wf: "wf_fs (FDir es)" "sendable (FDir es)" "rel_ok strip rel" "fits (BUFFER_SIZE - 6) (length rel) (FDir es)"
      "fits MAX_PATH_SIZE (length base + 1 + length rel) (FDir es)"
  shows "es = ds @ rest \<Longrightarrow> ss_wf s \<Longrightarrow> place s (base @ ''/'' @ rel) = Some q \<Longrightarrow> kind_at (fs s) = graft q (FDir ds) K \<Longrightarrow>
    inbox s fd = map RecvBytes (concat (map (\<lambda>e. script (rel @ ''/'' @ fst e) (snd e)) rest)) @ bx \<Longrightarrow>
    \<exists>s'. dest_loop (sum_list (map (\<lambda>e. heads (snd e)) rest) + k) strip E fd base s = dest_loop k strip E fd base s' \<and>
      changes_at q s s' \<and> kind_at (fs s') = graft q (FDir es) K \<and>
      stored fd (length (concat (map (\<lambda>e. script (rel @ ''/'' @ fst e) (snd e)) rest))) bx s s'"
proof (induction rest arbitrary: ds s)
  case Nil
  then show ?case by (intro exI [of _ s]) (auto simp: stored_def)
next
  case (Cons e rest)
  obtain c m where e: "e = (c, m)" by (cases e)
  have "distinct (map fst (ds @ (c, m) # rest))" using wf(1) unfolding Cons.prems(1) e wf_fs.simps by (rule conjunct1)
  then have c: "c \<notin> fst ` set ds" "(c, m) \<in> set es" unfolding Cons.prems(1) e by simp_all
  have cm: "proper c" "wf_fs m" "blank_free c" "CHR 0x00 \<notin> set c" "sendable m" using wf(1,2) c(2) by auto
  let ?r = "rel @ ''/'' @ c" and ?ms = "script (rel @ ''/'' @ c) m"
  let ?rs = "concat (map (\<lambda>e. script (rel @ ''/'' @ fst e) (snd e)) rest)" and ?k = "sum_list (map (\<lambda>e. heads (snd e)) rest) + k"
  have dir: "kind_at (fs s) q = Directory" by (simp add: Cons.prems(4))
  have "place s ((base @ ''/'' @ rel) @ ''/'' @ c) = Some (q @ [c])" by (rule place_child [OF Cons.prems(3) dir cm(1)])
  moreover have "kind_at (fs s) (q @ [c]) = Absent"
    using graft_vacant [OF c(1), of q K] by (simp add: Cons.prems(4) vacant_def)
  moreover have "fits (BUFFER_SIZE - 6) (length rel + 1 + length c) m" "fits MAX_PATH_SIZE (length base + 1 + length rel + 1 + length c) m"
    using wf(4,5) c(2) by fastforce+
  then have "fits (BUFFER_SIZE - 6) (length ?r) m" "fits MAX_PATH_SIZE (length base + 1 + length ?r) m" by (simp_all add: add.assoc)
  moreover have "\<not> trailing_slash ?r" by (rule child_no_slash [OF cm(1)])
  ultimately have tg: "target_at strip base ?r (q @ [c]) m s"
    using Cons.prems(2) rel_ok_child [OF wf(3) cm(3,4)] cm(2,5) by (simp add: target_at_def)
  have box: "inbox s fd = map RecvBytes ?ms @ map RecvBytes ?rs @ bx" using Cons.prems(5) by (simp add: e)
  obtain s1 where s1: "dest_loop (heads m + ?k) strip E fd base s = dest_loop ?k strip E fd base s1" "copied (q @ [c]) m s s1"
    "stored fd (length ?ms) (map RecvBytes ?rs @ bx) s s1"
    using step [OF c(2)] tg box by (simp only: snd_conv) blast
  have ch: "changes_at (q @ [c]) s s1" "kind_at (fs s1) = graft (q @ [c]) m (kind_at (fs s))" using s1(2) by (simp_all add: copied_def)
  have k1: "kind_at (fs s1) = graft q (FDir (ds @ [(c, m)])) K" using ch(2) Cons.prems(4) graft_snoc [OF c(1)] by simp
  have pl: "place s1 (base @ ''/'' @ rel) = Some q"
    by (rule place_graft [OF ch(2) _ changes_at_cwd [OF ch(1)] Cons.prems(3)]) (use graft_vacant [OF c(1)] Cons.prems(4) in simp)
  have "es = (ds @ [(c, m)]) @ rest" using Cons.prems(1) e by simp
  from Cons.IH [OF this changes_at_wf [OF ch(1) Cons.prems(2)] pl k1 stored_box [OF s1(3)]]
  obtain s' where s': "dest_loop ?k strip E fd base s1 = dest_loop k strip E fd base s'" "changes_at q s1 s'"
    "kind_at (fs s') = graft q (FDir es) K" "stored fd (length ?rs) bx s1 s'"
    by blast
  have "changes_at q s s'" by (rule changes_at_trans [OF changes_at_child [OF ch(1)] s'(2)])
  moreover have "stored fd (length (concat (map (\<lambda>e. script (rel @ ''/'' @ fst e) (snd e)) (e # rest)))) bx s s'"
    using stored_trans [OF s1(3) s'(4)] by (simp add: e)
  moreover have "dest_loop (sum_list (map (\<lambda>e. heads (snd e)) (e # rest)) + k) strip E fd base s = dest_loop k strip E fd base s'"
    using s1(1) s'(1) by (simp add: e add.assoc)
  ultimately show ?case using s'(3) by blast
qed

lemma store_node:
  assumes E: "accepts_all E" "allows E"
  shows "target_at strip base rel q m s \<Longrightarrow> inbox s fd = map RecvBytes (script rel m) @ bx \<Longrightarrow>
    \<exists>s'. dest_loop (heads m + k) strip E fd base s = dest_loop k strip E fd base s' \<and> copied q m s s' \<and>
      stored fd (length (script rel m)) bx s s'"
proof (induction m arbitrary: rel q s k bx)
  case (FFile t)
  then show ?case using store_file [OF E] by simp
next
  case (FDir es)
  note tg = FDir.prems(1) [unfolded target_at_def]
  let ?dest = "base @ ''/'' @ rel" and ?rs = "concat (map (\<lambda>e. script (rel @ ''/'' @ fst e) (snd e)) es)"
  have box: "inbox s fd = RecvBytes (''DIR '' @ rel @ newline) # map RecvBytes ?rs @ bx" using FDir.prems(2) by simp
  have len: "length ''DIR '' + length rel + 1 < BUFFER_SIZE" using tg by (simp add: less_diff_conv)
  have rel: "rel_ok strip rel" using tg by simp
  have lit: "CHR 0x00 \<notin> set ''DIR ''" "''DIR '' \<noteq> []" by simp_all
  note hd = header_line [OF rel len lit box]
  let ?s1 = "send_ack E fd (s\<lparr>inbox := (inbox s)(fd := map RecvBytes ?rs @ bx)\<rparr>)"
  have net: "fs ?s1 = fs s" "cwd ?s1 = cwd s" "inbox ?s1 = (inbox s)(fd := map RecvBytes ?rs @ bx)" "ss_wf ?s1" "place ?s1 = place s"
    using tg by (simp_all add: send_ack_ok [OF E(1)] ss_io_def ss_wf_def place_def fun_eq_iff)
  have "changes_at q s ?s1" by (simp add: changes_at_def send_ack_ok [OF E(1)] ss_io_def ss_wf_def)
  obtain s2 where s2: "fs_call E fs_mkdir ?dest ?s1 = (True, s2)" "copied q (FDir []) ?s1 s2"
    by (rule fs_mkdir_grafts [OF E(2), of ?s1 ?dest q]) (use tg net in simp_all)
  have s2': "kind_at (fs s2) = graft q (FDir []) (kind_at (fs s))" "changes_at q ?s1 s2" using s2(2) net(1) by (simp_all add: copied_def)
  have st: "stored fd 1 (map RecvBytes ?rs @ bx) s s2"
  proof -
    have "inbox s2 = inbox ?s1" "trace (ss_net s2) = trace (ss_net ?s1)"
      using s2(1) by (auto simp: fs_call_def split: option.splits if_splits)
    then show ?thesis by (simp add: stored_def send_ack_ok [OF E(1)])
  qed
  have "full_path strip base rel = ?dest" using full_path_plain [OF rel] tg by simp
  then have run: "dest_loop (Suc n) strip E fd base s = dest_loop n strip E fd base s2" for n
    unfolding dest_loop.simps hd(1) andthen_simps prod.case Let_def hd(2)
    using hd(3) s2(1) by (simp add: starts_with_def receive_and_save_directory_def)
  have vac: "vacant q (kind_at (fs ?s1))" using tg vacant_place net(1) by simp
  have pl: "place s2 ?dest = Some q"
    by (rule place_graft [OF _ vac changes_at_cwd [OF s2'(2)]]) (use s2'(1) net tg in simp_all)
  have "\<exists>s'. dest_loop (sum_list (map (\<lambda>e. heads (snd e)) es) + k) strip E fd base s2 = dest_loop k strip E fd base s' \<and>
      changes_at q s2 s' \<and> kind_at (fs s') = graft q (FDir es) (kind_at (fs s)) \<and> stored fd (length ?rs) bx s2 s'"
    by (rule store_entries [where ds = "[]" and es = es, OF _ _ _ rel])
      (use FDir.IH tg changes_at_wf [OF s2'(2) net(4)] pl s2'(1) stored_box [OF st] in \<open>(fastforce simp: snds.simps | simp)+\<close>)
  then obtain s' where s': "dest_loop (sum_list (map (\<lambda>e. heads (snd e)) es) + k) strip E fd base s2 = dest_loop k strip E fd base s'"
    "changes_at q s2 s'" "kind_at (fs s') = graft q (FDir es) (kind_at (fs s))" "stored fd (length ?rs) bx s2 s'" by blast
  have "copied q (FDir es) s s'"
    using changes_at_trans [OF changes_at_trans [OF \<open>changes_at q s ?s1\<close> s2'(2)] s'(2)] s'(3) by (simp add: copied_def)
  moreover have "stored fd (length (script rel (FDir es))) bx s s'" using stored_trans [OF st s'(4)] by simp
  ultimately show ?case using run s'(1) by auto
qed

section \<open>Both sides\<close>

text \<open>Everything the sender says for a copy of \<open>m\<close> named \<open>base\<close> into the directory \<open>dest\<close>.\<close>

definition dialogue :: "string \<Rightarrow> string \<Rightarrow> fnode \<Rightarrow> string list" where
  "dialogue dest base m = (''DEST '' @ dest @ newline) # script base m @ [''END'' @ newline]"

lemma receive_ack_ok:
  assumes "inbox s fd = RecvBytes ack_text # q"
  shows "receive_ack fd s = Inr (0, s\<lparr>inbox := (inbox s)(fd := q)\<rparr>)"
  using receive_message [OF assms ack_text_short(3,1)] ack_text_short(2,3) by (simp add: receive_ack_def)

lemma send_ok: "accepts_all E \<Longrightarrow> ss_val (send E fd b) s = (SentBytes (length b), ss_io (\<lambda>w. emit (Sent fd b) (tick w)) s)"
  by (simp add: ss_val_eq send_def accepts_all_def ss_io_def)

lemma send_node_ok:
  assumes "accepts_all E" "allows E" "levels m \<le> n" "source_at s src p m" "k \<le> length src"
    "inbox s fd = acks (length (script (drop k src) m)) @ q"
  shows "\<exists>s'. (if is_dir m then send_directory_over_network n E fd src k s else send_file_over_network E fd src k s) = Inr s' \<and>
    talks fd (script (drop k src) m) q s s'"
proof (cases m)
  case (FFile t)
  then show ?thesis using send_file_ok [OF assms(1,2)] assms(4,6) by simp
next
  case (FDir es)
  then show ?thesis using send_directory_ok [OF assms(1,2) _ assms(3-6)] by simp
qed

lemma copy_src_ok:
  assumes E: "accepts_all E" "allows E" and m: "levels m \<le> n" "source_at s (pre @ ''/'' @ base) p m" "CHR ''/'' \<notin> set base"
    and d: "length dest < MAX_PATH_SIZE" and box: "inbox s fd = acks (length (script base m) + 2)"
  shows "\<exists>s'. copy_src n E False False (pre @ ''/'' @ base) dest fd s = Inr (''Finished Copying'' @ newline, s') \<and>
    talks fd (dialogue dest base m) [] s s'"
proof -
  let ?src = "pre @ ''/'' @ base" and ?d = "''DEST '' @ dest @ newline" and ?k = "length pre + 1"
  have st: "fs_query E fs_stat ?src s = (Some m, ss_io tick s)"
    using E(2) m(2) by (auto simp: source_at_def fs_query_def fs_allowed_def allows_def place_def split: fnode.split)
  have sk: "skip_length False ?src = Inr ?k" "drop ?k ?src = base" "?k \<le> length ?src"
    using after_slash_child [OF m(3)] by (simp_all add: skip_length_def)
  let ?a = "acks (length (script base m))"
  have b1: "inbox (ss_io tick s) fd = RecvBytes ack_text # RecvBytes ack_text # ?a" using box by simp
  let ?s2 = "(ss_io tick s)\<lparr>inbox := (inbox s)(fd := RecvBytes ack_text # ?a)\<rparr>"
  let ?s3 = "ss_io (\<lambda>w. emit (Sent fd ?d) (tick w)) ?s2"
  let ?s4 = "?s3\<lparr>inbox := (inbox s)(fd := ?a)\<rparr>"
  have r1: "receive_ack fd (ss_io tick s) = Inr (0, ?s2)" using receive_ack_ok [OF b1] by simp
  have r2: "receive_ack fd ?s3 = Inr (0, ?s4)" using receive_ack_ok [of ?s3 fd ?a] by simp
  have "length ?d < MAX_PATH_SIZE + 10" using d by (simp add: newline_def)
  note short = snprintf_short [OF this]
  have t4: "talks fd [?d] ?a s ?s4" by (simp add: talks_def ss_io_def)
  have "source_at ?s4 ?src p m" using m(2) source_at_talks [OF t4] by simp
  then obtain s5 where s5: "(if is_dir m then send_directory_over_network n E fd ?src ?k ?s4 else send_file_over_network E fd ?src ?k ?s4) = Inr s5"
    "talks fd (script base m) [] ?s4 s5"
    using send_node_ok [OF E m(1) _ sk(3), of ?s4 p fd "[]"] sk(2) by auto
  let ?s6 = "ss_io (\<lambda>w. emit (Sent fd (''END'' @ newline)) (tick w)) s5"
  have "talks fd [''END'' @ newline] [] s5 ?s6" using talks_same(3) [OF s5(2)] by (cases s5) (simp add: talks_def ss_io_def fun_upd_idem)
  then have "talks fd (dialogue dest base m) [] s ?s6"
    using talks_trans [OF t4 talks_trans [OF s5(2)]] by (simp add: dialogue_def)
  moreover have "copy_src n E False False ?src dest fd s = Inr (''Finished Copying'' @ newline, ?s6)"
    unfolding copy_src_def st prod.case option.case r1 andthen_simps short send_ok [OF E(1)] send_raw.case r2 sk(1) if_False s5(1)
    by simp
  ultimately show ?thesis by blast
qed

lemma copy_dest_ok:
  assumes E: "accepts_all E" "allows E" and s: "ss_wf s" "place s dest = Some d" "kind_at (fs s) d = Directory"
    and d: "rel_ok False dest" "length dest + 6 < BUFFER_SIZE"
    and m: "kind_at (fs s) (d @ [base]) = Absent" "proper base" "rel_ok strip base" "wf_fs m" "sendable m"
      "fits (BUFFER_SIZE - 6) (length base) m" "fits MAX_PATH_SIZE (length dest + 1 + length base) m"
    and box: "inbox s fd = map RecvBytes (dialogue dest base m)" and n: "heads m < n"
  shows "\<exists>s'. copy_dest n strip E fd s = Inr s' \<and> kind_at (fs s') = graft (d @ [base]) m (kind_at (fs s)) \<and> ss_wf s' \<and>
    stored fd (length (script base m) + 2) [] s s'"
proof -
  let ?ms = "map RecvBytes (script base m)" and ?e = "RecvBytes (''END'' @ newline)"
  have box1: "inbox (send_ack E fd s) fd = RecvBytes (''DEST '' @ dest @ newline) # ?ms @ [?e]"
    using box by (simp add: send_ack_ok [OF E(1)] dialogue_def)
  have len: "length ''DEST '' + length dest + 1 < BUFFER_SIZE" using d(2) by simp
  have lit: "CHR 0x00 \<notin> set ''DEST ''" "''DEST '' \<noteq> []" by simp_all
  note hd = header_line [OF d(1) len lit box1]
  let ?s2 = "send_ack E fd ((send_ack E fd s)\<lparr>inbox := (inbox (send_ack E fd s))(fd := ?ms @ [?e])\<rparr>)"
  let ?s3 = "ss_io tick ?s2"
  have net: "fs ?s2 = fs s" "cwd ?s2 = cwd s" "place ?s2 = place s" "ss_wf ?s2" "changes_at (d @ [base]) s ?s3"
    using s(1) by (simp_all add: send_ack_ok [OF E(1)] place_def fun_eq_iff ss_wf_def changes_at_def ss_io_def)
  have st: "stored fd 2 (?ms @ [?e]) s ?s3" by (simp add: stored_def send_ack_ok [OF E(1)] numeral_2_eq_2)
  have "fs_mkdir (fs s) (cwd s) dest = None" using s(2,3) by (simp add: fs_mkdir_def place_def)
  then have mk: "snd (fs_call E fs_mkdir dest ?s2) = ?s3" using net(1,2) by (simp add: fs_call_def)
  have run: "copy_dest n strip E fd s = dest_loop n strip E fd dest ?s3"
    unfolding copy_dest_def hd(1) andthen_simps prod.case hd(2) using hd(3) mk by (simp add: starts_with_def)
  have "\<not> trailing_slash base" using m(2) last_in_set [of base] by (auto simp: trailing_slash_def proper_def simp del: last_in_set)
  moreover have "place s (dest @ ''/'' @ base) = Some (d @ [base])" by (rule place_child [OF s(2,3) m(2)])
  ultimately have tg: "target_at strip dest base (d @ [base]) m ?s3" using m net by (simp add: target_at_def)
  obtain j where j: "n = heads m + Suc j" using n by (metis add_Suc_right less_iff_Suc_add)
  obtain s4 where s4: "dest_loop n strip E fd dest ?s3 = dest_loop (Suc j) strip E fd dest s4" "copied (d @ [base]) m ?s3 s4"
    "stored fd (length (script base m)) [?e] ?s3 s4"
    using store_node [OF E tg, of fd "[?e]" "Suc j"] stored_box [OF st] j by auto
  let ?s5 = "s4\<lparr>inbox := (inbox s4)(fd := [])\<rparr>"
  have "ss_recv_good fd (BUFFER_SIZE - 1) s4 = Inr ((int (length (''END'' @ newline)), ''END'' @ newline), ?s5)"
    by (rule receive_message) (use stored_box [OF s4(3)] in \<open>simp_all add: newline_def BUFFER_SIZE_def\<close>)
  moreover have "c_str (''END'' @ newline) = ''END'' @ newline" by (rule c_str_id) (simp add: newline_def)
  ultimately have "dest_loop (Suc j) strip E fd dest s4 = Inr ?s5" by (simp add: starts_with_def)
  moreover have "stored fd (2 + length (script base m)) [] s ?s5"
    using stored_trans [OF st s4(3)] by (simp add: stored_def)
  moreover have "ss_wf s4" "kind_at (fs s4) = graft (d @ [base]) m (kind_at (fs s))"
    using s4(2) net changes_at_wf [of "d @ [base]" ?s3 s4] by (simp_all add: copied_def)
  ultimately show ?thesis using run s4(1) by (auto simp: add.commute)
qed

lemma scan_fields_command:
  assumes "list_all blank_free [cmd, src, dest, adr, prt]" "length cmd < BUFFER_SIZE" "length src < MAX_PATH_SIZE" "length dest < MAX_PATH_SIZE"
    "length adr < 16" "scans_int prt"
  shows "scan_fields [BUFFER_SIZE, MAX_PATH_SIZE, MAX_PATH_SIZE, 16] (cmd @ '' '' @ src @ '' '' @ dest @ '' '' @ adr @ '' '' @ prt) =
    Inr (Some [cmd, src, dest, adr])"
proof -
  have w: "strtok_all white_space (x @ CHR '' '' # y) = x # strtok_all white_space y" "strtok_all white_space x = [x]"
    if "blank_free x" for x y
    using that strtok_all_word [of x white_space "CHR '' ''"] by (simp_all add: blank_free_def white_space_def)
  have "scan_words (cmd @ '' '' @ src @ '' '' @ dest @ '' '' @ adr @ '' '' @ prt) = [cmd, src, dest, adr, prt]"
    using assms(1) by (simp add: scan_words_def w)
  then show ?thesis using assms by (simp add: scan_fields_def Let_def)
qed

text \<open>C11. Copying between two storage servers copies. When the sender gets the acknowledgements of the
  receiver and the receiver the messages of the sender, both return; the sender has sent exactly the
  dialogue for the tree and changed nothing in its file system, the receiver has answered every message but
  the last with an acknowledgement, and in its destination directory there is now, under the name of the
  source, exactly the tree of the source, every other path being what it was.\<close>

theorem copy_between_servers:
  assumes "accepts_all Es" "allows Es" "accepts_all Er" "allows Er"
    "source_at v (pre @ ''/'' @ base) p m" "levels m \<le> n" "heads m < k"
    "list_all blank_free [pre @ ''/'' @ base, dest, adr, prt]" "length adr < 16" "scans_int prt" "\<not> starts_with ''./backupfolderforss'' dest"
    "CHR 0x00 \<notin> set dest" "length dest + 6 < BUFFER_SIZE"
    "ss_wf s" "place s dest = Some d" "kind_at (fs s) d = Directory" "kind_at (fs s) (d @ [base]) = Absent" "proper base" "rel_ok True base"
    "fits (BUFFER_SIZE - 6) (length base) m" "fits MAX_PATH_SIZE (length dest + 1 + length base) m"
    "inbox v fv = acks (length (script base m) + 2)" "inbox s f = map RecvBytes (dialogue dest base m)"
  shows "\<exists>v' s'. copy_different_src n Es False (''copydifferent'' @ '' '' @ (pre @ ''/'' @ base) @ '' '' @ dest @ '' '' @ adr @ '' '' @ prt) fv v =
      Inr (''Finished Copying'' @ newline, v') \<and>
    trace (ss_net v') = trace (ss_net v) @ map (Sent fv) (dialogue dest base m) \<and> fs v' = fs v \<and>
    copy_different_dest k Er f s = Inr s' \<and>
    trace (ss_net s') = trace (ss_net s) @ replicate (length (script base m) + 2) (Sent f ack_text) \<and>
    kind_at (fs s') = graft (d @ [base]) m (kind_at (fs s))"
proof -
  note src = assms(5) [unfolded source_at_def]
  have wf: "wf_fs m" "sendable m" "length (pre @ ''/'' @ base) < MAX_PATH_SIZE" using src ss_wf_node fits_bound by fastforce+
  have base: "CHR ''/'' \<notin> set base" using assms(18) by (simp add: proper_def)
  have len: "length dest < MAX_PATH_SIZE" using assms(13) by (simp add: BUFFER_SIZE_def MAX_PATH_SIZE_def)
  have fields: "scan_fields [BUFFER_SIZE, MAX_PATH_SIZE, MAX_PATH_SIZE, 16]
      (''copydifferent'' @ '' '' @ (pre @ ''/'' @ base) @ '' '' @ dest @ '' '' @ adr @ '' '' @ prt) =
    Inr (Some [''copydifferent'', pre @ ''/'' @ base, dest, adr])"
    by (rule scan_fields_command)
      (use assms(8-10) wf(3) len in \<open>simp_all add: blank_free_def white_space_def BUFFER_SIZE_def\<close>)
  obtain v' where v': "copy_src n Es False False (pre @ ''/'' @ base) dest fv v = Inr (''Finished Copying'' @ newline, v')"
    "talks fv (dialogue dest base m) [] v v'"
    using copy_src_ok [OF assms(1,2,6,5) base len assms(22)] by blast
  have "copy_different_src n Es False (''copydifferent'' @ '' '' @ (pre @ ''/'' @ base) @ '' '' @ dest @ '' '' @ adr @ '' '' @ prt) fv v =
      Inr (''Finished Copying'' @ newline, v')"
    unfolding copy_different_src_def fields andthen_simps option.case list.case using assms(11) v'(1) by simp
  moreover have "rel_ok False dest" using assms(8,12) by (simp add: rel_ok_def)
  then obtain s' where "copy_different_dest k Er f s = Inr s'" "kind_at (fs s') = graft (d @ [base]) m (kind_at (fs s))"
    "stored f (length (script base m) + 2) [] s s'"
    using copy_dest_ok [OF assms(3,4,14-16) _ assms(13,17-19) wf(1,2) assms(20,21,23,7)] by (auto simp: copy_different_dest_def)
  ultimately show ?thesis using v'(2) talks_same(1) [OF v'(2)] by (auto simp: talks_def stored_def)
qed

definition sent_tree :: fnode where
  "sent_tree = FDir [(''x'', FFile ''hi''), (''y'', FDir [])]"

definition sender_ss :: ss where
  "sender_ss = idle_ss\<lparr>fs := FDir [(''d'', sent_tree)], inbox := (\<lambda>f. acks (length (script ''d'' sent_tree) + 2))\<rparr>"

definition receiver_ss :: ss where
  "receiver_ss = idle_ss\<lparr>inbox := (\<lambda>f. map RecvBytes (dialogue ''./docs'' ''d'' sent_tree))\<rparr>"

lemma example_fs: "fs sender_ss = FDir [(''d'', sent_tree)]" "cwd sender_ss = []" "fs receiver_ss = fs idle_ss" "cwd receiver_ss = cwd idle_ss"
  by (simp_all add: sender_ss_def receiver_ss_def idle_ss_def)

lemma sender_ss_source: "source_at sender_ss (''.'' @ ''/'' @ ''d'') [''d''] sent_tree"
proof -
  have at: "namei (FDir [(''d'', sent_tree)]) [] (''.'' @ ''/'' @ ''d'') = Some [''d'']" "fs_get (FDir [(''d'', sent_tree)]) [''d''] = Some sent_tree"
    "\<not> trailing_slash (''.'' @ ''/'' @ ''d'')" "fits (MAX_PATH_SIZE - 6) (length (''.'' @ ''/'' @ ''d'')) sent_tree"
    "ok_tree (FDir [(''d'', sent_tree)])"
    by code_simp+
  have "sendable sent_tree" by (simp add: sent_tree_def blank_free_def white_space_def)
  have "ss_wf sender_ss" using idle_ss_wf at(5) by (simp add: sender_ss_def ss_wf_def)
  with \<open>sendable sent_tree\<close> show ?thesis using at(1-4) by (simp only: source_at_def place_def example_fs simp_thms)
qed

theorem copy_between_servers_witness:
  "\<exists>v' s'. copy_different_src 2 calm_env False ''copydifferent ./d ./docs 10.0.0.2 8080'' 7 sender_ss = Inr (''Finished Copying'' @ newline, v') \<and>
    copy_different_dest 4 calm_env 5 receiver_ss = Inr s' \<and> kind_at (fs s') [''docs'', ''d'', ''x''] = File ''hi''"
proof -
  have env: "accepts_all calm_env" "allows calm_env" by (simp_all add: accepts_all_def allows_def)
  have names: "list_all blank_free [''.'' @ ''/'' @ ''d'', ''./docs'', ''10.0.0.2'', ''8080'']" "length ''10.0.0.2'' < 16" "scans_int ''8080''"
    "\<not> starts_with ''./backupfolderforss'' ''./docs''" "CHR 0x00 \<notin> set ''./docs''" "length ''./docs'' + 6 < BUFFER_SIZE"
    "levels sent_tree \<le> 2" "heads sent_tree < 4" "proper ''d''" "rel_ok True ''d''"
    "fits (BUFFER_SIZE - 6) (length ''d'') sent_tree" "fits MAX_PATH_SIZE (length ''./docs'' + 1 + length ''d'') sent_tree"
    by code_simp+
  have "place idle_ss ''./docs'' = Some [''docs'']" "kind_at (fs idle_ss) [''docs''] = Directory"
    "kind_at (fs idle_ss) ([''docs''] @ [''d'']) = Absent"
    by code_simp+
  then have at: "place receiver_ss ''./docs'' = Some [''docs'']" "kind_at (fs receiver_ss) [''docs''] = Directory"
    "kind_at (fs receiver_ss) ([''docs''] @ [''d'']) = Absent"
    by (simp_all only: place_def example_fs)
  have wf: "ss_wf receiver_ss" using idle_ss_wf by (simp add: receiver_ss_def)
  have box: "inbox sender_ss 7 = acks (length (script ''d'' sent_tree) + 2)" "inbox receiver_ss 5 = map RecvBytes (dialogue ''./docs'' ''d'' sent_tree)"
    by (simp_all add: sender_ss_def receiver_ss_def)
  have x: "graft ([''docs''] @ [''d'']) sent_tree K [''docs'', ''d'', ''x''] = File ''hi''" for K
    by (simp add: graft_def sent_tree_def kind_at_def)
  have cmd: "''copydifferent'' @ '' '' @ (''.'' @ ''/'' @ ''d'') @ '' '' @ ''./docs'' @ '' '' @ ''10.0.0.2'' @ '' '' @ ''8080'' =
      ''copydifferent ./d ./docs 10.0.0.2 8080''" by simp
  obtain v' s' where "copy_different_src 2 calm_env False ''copydifferent ./d ./docs 10.0.0.2 8080'' 7 sender_ss =
      Inr (''Finished Copying'' @ newline, v')" "copy_different_dest 4 calm_env 5 receiver_ss = Inr s'"
    "kind_at (fs s') = graft ([''docs''] @ [''d'']) sent_tree (kind_at (fs receiver_ss))"
    using copy_between_servers [OF env env sender_ss_source names(7,8,1-6) wf at names(9-12) box] unfolding cmd by blast
  then show ?thesis using x by metis
qed

end
