(* ===== verification/Client.thy ===== *)
theory Client
  imports Nfs_Net
begin

text \<open>
  The client (\<^verbatim>\<open>client.c\<close>, with \<^verbatim>\<open>trim\<close> of \<^verbatim>\<open>helper.c\<close>): one turn
  of its command loop, the conversations with a storage server it starts, and the loop itself. The
  keyboard is the text still to be read; what is printed are events of the trace; the bytes piped to the player
  are kept in the state. Receive loops are driven by the peer and have a bound on the calls. The command loop
  runs a stream without its pause key; the two threads of a stream are interleaved in \<open>stream_step\<close>.
\<close>

section \<open>State\<close>

record client =
  cl_net :: world
  stdin :: string
  player :: string
  IPADDR :: string
  ASYNC_PORT_FOR_CLIENT :: string

text \<open>What the system answers beside the network: the player, and the bytes of a fresh block of 4096.\<close>

record desk =
  popen_ok :: bool
  fwrite_ok :: "nat \<Rightarrow> bool"
  block :: string

definition cl_io :: "(world \<Rightarrow> world) \<Rightarrow> client \<Rightarrow> client" where
  "cl_io f c = c\<lparr>cl_net := f (cl_net c)\<rparr>"

definition print :: "string \<Rightarrow> client \<Rightarrow> client" where
  "print t = cl_io (emit (Stdout t))"

definition report :: "int \<Rightarrow> client \<Rightarrow> client" where
  "report code = cl_io (printErrorDetails code)"

section \<open>Strings\<close>

text \<open>The pointer that skips leading space is local to \<^verbatim>\<open>trim\<close>: only the end is cut, and a line
  of nothing but space stays as it is.\<close>

definition trim :: "string \<Rightarrow> string" where
  "trim buffer =
     (if list_all is_space buffer then buffer else rev (dropWhile is_space (rev buffer)))"

definition count_words :: "string \<Rightarrow> nat result" where
  "count_words input = (if length input < 100 then Inr (length (strtok_all '' '' input)) else Inl OutOfBounds)"

definition NLINE :: char where "NLINE = CHR 0x0A"

definition fgets :: "nat \<Rightarrow> string \<Rightarrow> (string \<times> string) option" where
  "fgets n s =
     (if s = [] then None
      else (let l = take (n - 1) s; m = (if NLINE \<in> set l then takeWhile (\<lambda>c. c \<noteq> NLINE) l @ [NLINE] else l) in
            Some (c_str m, drop (length m) s)))"

fun strstr :: "string \<Rightarrow> string \<Rightarrow> nat option" where
  "strstr [] pat = (if pat = [] then Some 0 else None)"
| "strstr (c # s) pat = (if starts_with pat (c # s) then Some 0 else map_option Suc (strstr s pat))"

section \<open>A storage server\<close>

text \<open>The two fields of the address, as \<^verbatim>\<open>strtok\<close> finds them.\<close>

definition address :: "string \<Rightarrow> string \<Rightarrow> (string \<times> int) result" where
  "address sep details =
     (case strtok_all sep details of adr # prt # _ \<Rightarrow> Inr (adr, atoi prt) | _ \<Rightarrow> Inl NullDeref)"

text \<open>Open a connection: \<open>None\<close> after a failure, which was reported.\<close>

definition open_ss :: "env \<Rightarrow> string \<times> int \<Rightarrow> int \<Rightarrow> client \<Rightarrow> int option \<times> client" where
  "open_ss E a sock c =
     (if \<not> sys_inet_pton E (fst a) then (None, cl_io (close sock) (report 8 c))
      else if \<not> sys_connect E (clock (cl_net c)) sock (fst a) (snd a) then (None, cl_io (close sock) (report 9 (cl_io tick c)))
      else (Some sock, cl_io tick c))"

fun show_loop :: "nat \<Rightarrow> env \<Rightarrow> int \<Rightarrow> client \<Rightarrow> client result" where
  "show_loop 0 E sock c = Inl NoFuel"
| "show_loop (Suc k) E sock c =
     (case recv_good E sock (BUFFER_SIZE - 1) (cl_net c) of ((r, b), w) \<Rightarrow>
        let c1 = c\<lparr>cl_net := w\<rparr> in
        if r \<le> 0 then Inr c1 else show_loop k E sock (print (c_str b) c1))"

definition sendAndRecieveFromSS :: "nat \<Rightarrow> env \<Rightarrow> string \<Rightarrow> string \<Rightarrow> client \<Rightarrow> client result" where
  "sendAndRecieveFromSS k E details buffer c =
     (let sock = sys_socket E (clock (cl_net c)); c1 = cl_io tick c in
      if sock < 0 then Inr (report 7 c1)
      else
        andthen (address '','' details) (\<lambda>a.
          case open_ss E a sock c1 of
            (None, c2) \<Rightarrow> Inr c2
          | (Some fd, c2) \<Rightarrow>
              (case send_good E fd buffer (cl_net c2) of (sent, w) \<Rightarrow>
                 let c3 = c2\<lparr>cl_net := w\<rparr> in
                 if sent < 0 then Inr (cl_io (close fd) (report 10 c3))
                 else andthen (show_loop k E fd c3) (\<lambda>c4. Inr (cl_io (close fd) c4)))))"

text \<open>One iteration of the stream: does it go on? It uses the plain \<^verbatim>\<open>recv\<close>: a failure is not hidden.\<close>

definition play_piece :: "env \<Rightarrow> desk \<Rightarrow> bool \<Rightarrow> int \<Rightarrow> client \<Rightarrow> bool \<times> client" where
  "play_piece E D firstTime sock c =
     (let c1 = cl_io tick c in
      case sys_recv E (clock (cl_net c)) sock of
        RecvErr e \<Rightarrow> (False, if firstTime then print (''File not Found'' @ newline) c1 else c1)
      | RecvBytes b \<Rightarrow>
          (let piece = take BUFFER_SIZE_FOR_MUSIC b in
           if piece = [] then (False, print (''End of stream'' @ newline) c1)
           else if \<not> fwrite_ok D (clock (cl_net c1)) then (False, report 36 c1)
           else (True, c1\<lparr>player := player c1 @ piece\<rparr>)))"

fun play_loop :: "nat \<Rightarrow> env \<Rightarrow> desk \<Rightarrow> bool \<Rightarrow> int \<Rightarrow> client \<Rightarrow> client result" where
  "play_loop 0 E D firstTime sock c = Inl NoFuel"
| "play_loop (Suc k) E D firstTime sock c =
     (case play_piece E D firstTime sock c of (go, c1) \<Rightarrow> if go then play_loop k E D False sock c1 else Inr c1)"

text \<open>One key of the thread that reads the keyboard during a stream; the key is taken from the same input the
  command loop reads.\<close>

definition handleUserInput :: "bool \<Rightarrow> client \<Rightarrow> bool \<times> client" where
  "handleUserInput isPaused c =
     (case stdin c of
        [] \<Rightarrow> (isPaused, c)
      | ch # rest \<Rightarrow>
          (let c1 = c\<lparr>stdin := rest\<rparr> in
           if ch = CHR ''p''
           then (\<not> isPaused, print ((if isPaused then ''Playback resumed'' else ''Playback paused'') @ newline) c1)
           else (isPaused, c1)))"

definition streamMusicFromSS :: "nat \<Rightarrow> env \<Rightarrow> desk \<Rightarrow> string \<Rightarrow> string \<Rightarrow> client \<Rightarrow> client result" where
  "streamMusicFromSS k E D details buffer c =
     (let sock = sys_socket E (clock (cl_net c)); c1 = cl_io tick c in
      if sock < 0 then Inr (report 7 c1)
      else
        andthen (address '','' details) (\<lambda>a.
          case open_ss E a sock c1 of
            (None, c2) \<Rightarrow> Inr c2
          | (Some fd, c2) \<Rightarrow>
              (case send E fd buffer (cl_net c2) of
                 (SendErr e, w) \<Rightarrow> Inr (cl_io (close fd) (report 10 (c2\<lparr>cl_net := w\<rparr>)))
               | (SentBytes n, w) \<Rightarrow>
                   (let c3 = c2\<lparr>cl_net := w\<rparr> in
                    if \<not> popen_ok D then Inr (cl_io (close fd) (report 36 c3))
                    else andthen (play_loop k E D True fd c3) (\<lambda>c4. Inr (cl_io (close fd) c4))))))"

section \<open>Replies of the naming server\<close>

text \<open>The listing of all roots arrives in pieces; \<open>buf\<close> is the whole array, in which a short piece leaves
  older bytes behind it when the end marker is looked for.\<close>

definition over_marker :: string where "over_marker = ''@#!@#over@$''"

definition overlay :: "string \<Rightarrow> string \<Rightarrow> string" where
  "overlay b buf = b @ drop (length b) buf"

fun ls_loop :: "nat \<Rightarrow> env \<Rightarrow> int \<Rightarrow> string \<Rightarrow> client \<Rightarrow> client result" where
  "ls_loop 0 E fd buf c = Inl NoFuel"
| "ls_loop (Suc k) E fd buf c =
     (case recv_good E fd BUFFER_SIZE (cl_net c) of ((r, b), w) \<Rightarrow>
        let c1 = c\<lparr>cl_net := w\<rparr>; buf1 = overlay b buf in
        if r \<le> 0 then Inr c1
        else
          andthen (array_str buf1) (\<lambda>text.
            case strstr text over_marker of
              Some i \<Rightarrow> Inr (print (take i text) c1)
            | None \<Rightarrow>
                if length b = BUFFER_SIZE then Inl OutOfBounds
                else ls_loop k E fd (buf1[length b := CHR 0x00]) (print (c_str b) c1)))"

text \<open>The reply to a command the naming server carries out itself.\<close>

definition show_reply :: "env \<Rightarrow> int \<Rightarrow> client \<Rightarrow> client result" where
  "show_reply E fd c =
     (let c0 = print (''Buffer before '' @ newline) c in
      case recv_good E fd BUFFER_SIZE (cl_net c0) of ((r, b), w) \<Rightarrow>
        let c1 = c0\<lparr>cl_net := w\<rparr>; c2 = (if r \<le> 0 then report 3 c1 else c1) in
        if r < 0 \<or> r = int BUFFER_SIZE then Inl OutOfBounds
        else Inr (print (''Received from NM Directly |'' @ c_str b @ ''|'' @ newline) c2))"

section \<open>Writing\<close>

text \<open>The fixed part of the request; without one of the two prefixes the index is unassigned.\<close>

definition write_header :: "string \<Rightarrow> string \<Rightarrow> client \<Rightarrow> string result" where
  "write_header reply path c =
     (if starts_with ''PATH_OK_ASYNC'' reply
      then Inr (''WRITE_ASYNC|'' @ path @ ''|'' @ IPADDR c @ ''|'' @ ASYNC_PORT_FOR_CLIENT c @ ''|'')
      else if starts_with ''PATH_OK_SYNC'' reply then Inr (''WRITE_SYNC|'' @ path @ ''|'')
      else Inl Uninitialised)"

text \<open>The data is read up to the end of the line; at the end of the input \<^verbatim>\<open>fgetc\<close> keeps
  returning a value that is no newline, and the loop runs off the block of 4096 bytes.\<close>

definition read_data :: "string \<Rightarrow> client \<Rightarrow> (string \<times> client) result" where
  "read_data header c =
     (let d = takeWhile (\<lambda>x. x \<noteq> NLINE) (stdin c) in
      if NLINE \<notin> set (stdin c) \<or> 4096 \<le> length header + length d then Inl OutOfBounds
      else Inr (c_str (header @ d), c\<lparr>stdin := drop (Suc (length d)) (stdin c)\<rparr>))"

text \<open>A failure to reach the storage server ends the program.\<close>

definition send_write :: "env \<Rightarrow> desk \<Rightarrow> string \<Rightarrow> string \<Rightarrow> client \<Rightarrow> client result" where
  "send_write E D reply input_str c =
     (let sock = sys_socket E (clock (cl_net c)); c1 = cl_io tick c in
      if sock < 0 then Inl Exited
      else
        (case strtok_all ''|'' reply of
           cmd # adr # prt # _ \<Rightarrow>
             (case open_ss E (adr, atoi prt) sock c1 of
                (None, c2) \<Rightarrow> Inl Exited
              | (Some fd, c2) \<Rightarrow>
                  (case send_good E fd input_str (cl_net (print (''Sending to SS |'' @ input_str @ ''|'' @ newline) c2)) of (sent, w) \<Rightarrow>
                     if sent < 0 then Inl Exited
                     else
                       (case recv_good E fd BUFFER_SIZE w of ((r, b), w1) \<Rightarrow>
                          let c3 = c2\<lparr>cl_net := w1\<rparr> in
                          andthen (array_str (overlay b (block D))) (\<lambda>rec_msg.
                          Inr (print (''Received from SS |'' @ rec_msg @ ''|'' @ newline) (if r \<le> 0 then report 11 c3 else c3))))))
         | _ \<Rightarrow> Inl NullDeref))"

definition do_write :: "env \<Rightarrow> desk \<Rightarrow> int \<Rightarrow> string \<Rightarrow> client \<Rightarrow> client result" where
  "do_write E D fd buffer c =
     (case recv_good E fd BUFFER_SIZE (cl_net c) of ((r, b), w) \<Rightarrow>
        let c1 = c\<lparr>cl_net := w\<rparr>; c2 = (if r \<le> 0 then report 3 c1 else c1) in
        andthen (buf_str BUFFER_SIZE b) (\<lambda>write_buff.
          let c3 = print (''ns response: '' @ write_buff @ newline) c2 in
          if \<not> starts_with ''PATH_OK'' write_buff then Inr c3
          else
            (case strtok_all '' '' buffer of
               cmd # flag # path # _ \<Rightarrow>
                 andthen (write_header write_buff path c3) (\<lambda>header.
                 andthen (read_data header (print ''enter data here:'' c3)) (\<lambda>(input_str, c4).
                 send_write E D write_buff input_str c4))
             | _ \<Rightarrow> if starts_with ''PATH_OK_SYNC'' write_buff \<or> starts_with ''PATH_OK_ASYNC'' write_buff
                    then Inl NullDeref else Inl Uninitialised)))"

section \<open>Asking for a path\<close>

text \<open>The address in a reply that names a backup: the first two fields after the word.\<close>

definition backup_details :: "string \<Rightarrow> string option" where
  "backup_details reply =
     (case strtok_all '','' (drop (length ''Backup '') reply) of
        [] \<Rightarrow> None
      | [a] \<Rightarrow> Some (take (BUFFER_SIZE - 1) a)
      | a # b # _ \<Rightarrow> Some (snprintf BUFFER_SIZE (a @ '','' @ b)))"

definition visit_ss :: "nat \<Rightarrow> env \<Rightarrow> desk \<Rightarrow> string \<Rightarrow> string \<Rightarrow> client \<Rightarrow> client result" where
  "visit_ss k E D details buffer c =
     (if starts_with ''stream'' buffer then streamMusicFromSS k E D details buffer c
      else sendAndRecieveFromSS k E details buffer c)"

definition ask_path :: "nat \<Rightarrow> env \<Rightarrow> desk \<Rightarrow> int \<Rightarrow> string \<Rightarrow> client \<Rightarrow> client result" where
  "ask_path k E D fd buffer c =
     (case recv_good E fd BUFFER_SIZE (cl_net c) of ((r, b), w) \<Rightarrow>
        let c1 = c\<lparr>cl_net := w\<rparr> in
        if r \<le> 0 then Inr (report 3 c1)
        else
          andthen (buf_str BUFFER_SIZE b) (\<lambda>buffer2.
            let c2 = print (''Got this Other Commands from NM|'' @ buffer2 @ ''|'' @ newline) c1 in
            if strstr buffer2 ''not found'' \<noteq> None then Inr c2
            else if starts_with ''Backup'' buffer2
              then (case backup_details buffer2 of None \<Rightarrow> Inr c2 | Some details \<Rightarrow> visit_ss k E D details buffer c2)
            else visit_ss k E D buffer2 buffer
                   (if starts_with ''stream'' buffer then c2 else print (''dfvsfgsfgsdf'' @ newline) c2)))"

section \<open>The command loop\<close>

definition carries_out :: "string \<Rightarrow> bool" where
  "carries_out buffer \<longleftrightarrow>
     starts_with ''mkdir'' buffer \<or> starts_with ''rmdir'' buffer \<or> starts_with ''touch'' buffer \<or> starts_with ''rm'' buffer \<or>
     starts_with ''copy'' buffer"

text \<open>One turn, for a line that was read.\<close>

definition client_turn :: "nat \<Rightarrow> env \<Rightarrow> desk \<Rightarrow> int \<Rightarrow> string \<Rightarrow> client \<Rightarrow> client result" where
  "client_turn k E D fd line c =
     (let buffer = trim line in
      if buffer = [] then Inr c
      else
        andthen (count_words buffer) (\<lambda>n.
          if n \<le> 1 then Inr (report 69 c)
          else
            (case send_good E fd buffer (cl_net c) of (sent, w) \<Rightarrow>
               let c1 = c\<lparr>cl_net := w\<rparr> in
               if sent < 0 then Inr c1
               else if buffer = ''ls ~'' \<or> buffer = ''ls .'' then ls_loop k E fd (replicate BUFFER_SIZE (CHR 0x00)) c1
               else if carries_out buffer then show_reply E fd c1
               else if starts_with ''write'' buffer then do_write E D fd buffer c1
               else ask_path k E D fd buffer c1)))"

fun client_loop :: "nat \<Rightarrow> nat \<Rightarrow> env \<Rightarrow> (nat \<Rightarrow> desk) \<Rightarrow> int \<Rightarrow> client \<Rightarrow> client result" where
  "client_loop 0 k E D fd c = Inl NoFuel"
| "client_loop (Suc n) k E D fd c =
     (let c1 = print ''>> '' c in
      case fgets BUFFER_SIZE (stdin c1) of
        None \<Rightarrow> Inr (cl_io (close fd) (print (newline @ ''Exiting...'' @ newline) c1))
      | Some (line, rest) \<Rightarrow>
          andthen (client_turn k E (D n) fd line (c1\<lparr>stdin := rest\<rparr>)) (client_loop n k E D fd))"

text \<open>An acknowledgement of an asynchronous write, on the connection the naming server opened.\<close>

definition client_listen_async :: "env \<Rightarrow> int \<Rightarrow> client \<Rightarrow> client result" where
  "client_listen_async E fd c =
     (case recv_good E fd BUFFER_SIZE (cl_net c) of ((r, b), w) \<Rightarrow>
        let c1 = c\<lparr>cl_net := w\<rparr> in
        if r \<le> 0 then Inr (cl_io (close fd) c1)
        else
          andthen (buf_str BUFFER_SIZE b) (\<lambda>buffer.
            Inr (print (CHR 0x1B # ''[0;32mAsync '' @ show_int fd @ ''>>|'' @ buffer @ ''|'' @ CHR 0x1B # ''[0m'' @ newline) c1)))"

section \<open>Lemmas\<close>

lemma cl_io_simps [simp]:
  "cl_net (cl_io f c) = f (cl_net c)" "stdin (cl_io f c) = stdin c" "IPADDR (cl_io f c) = IPADDR c"
  "ASYNC_PORT_FOR_CLIENT (cl_io f c) = ASYNC_PORT_FOR_CLIENT c" "player (cl_io f c) = player c"
  by (simp_all add: cl_io_def)

lemma print_simps [simp]:
  "trace (cl_net (print t c)) = trace (cl_net c) @ [Stdout t]" "clock (cl_net (print t c)) = clock (cl_net c)"
  "stdin (print t c) = stdin c" "IPADDR (print t c) = IPADDR c" "ASYNC_PORT_FOR_CLIENT (print t c) = ASYNC_PORT_FOR_CLIENT c"
  by (simp_all add: print_def)

text \<open>What arrives is shown, piece by piece, until the peer closes.\<close>

lemma show_loop_shows:
  assumes "delivers E fd (clock (cl_net c)) (cs @ [[]])" "\<forall>x\<in>set cs. x \<noteq> [] \<and> length x < BUFFER_SIZE \<and> CHR 0x00 \<notin> set x" "length cs < k"
  shows "\<exists>c'. show_loop k E fd c = Inr c' \<and> trace (cl_net c') = trace (cl_net c) @ map Stdout cs"
  using assms
proof (induction cs arbitrary: c k)
  case Nil
  then show ?case by (cases k) (auto simp: delivers_Cons recv_good_def Let_def)
next
  case (Cons x cs)
  obtain k' where k: "k = Suc k'" using Cons.prems(3) by (cases k) auto
  let ?c = "print x (c\<lparr>cl_net := tick (cl_net c)\<rparr>)"
  have len: "length x \<le> BUFFER_SIZE - 1" using Cons.prems(2) by (simp add: BUFFER_SIZE_def)
  then have "recv_good E fd (BUFFER_SIZE - 1) (cl_net c) = ((int (length x), x), tick (cl_net c))"
    using Cons.prems(1) by (simp add: delivers_Cons recv_good_def)
  then have "show_loop k E fd c = show_loop k' E fd ?c" using Cons.prems(2) k by (simp add: Let_def)
  moreover have "delivers E fd (clock (cl_net ?c)) (cs @ [[]])" using Cons.prems(1) by (simp add: delivers_Cons)
  ultimately show ?case using Cons.IH [of ?c k'] Cons.prems(2,3) k by auto
qed

lemma strstr_None: "p \<noteq> [] \<Longrightarrow> hd p \<notin> set s \<Longrightarrow> strstr s p = None"
  by (induction s) (auto simp: starts_with_prefix neq_Nil_conv)

text \<open>The address the naming server sends is the address the client reads.\<close>

lemma address_fields:
  assumes "adr \<noteq> []" "CHR '','' \<notin> set adr"
  shows "address '','' (adr @ '','' @ show_int (int n) @ '' '') = Inr (adr, int n)"
proof -
  let ?p = "show_nat n @ '' ''"
  have "CHR '','' \<notin> set ?p" using show_nat_digits [of "CHR '',''" n] by (auto simp: is_digit_def)
  then have "strtok_all '','' ?p = [?p]" using strtok_all_word(2) [of ?p "'',''" "CHR '',''"] by simp
  then have "strtok_all '','' (adr @ CHR '','' # ?p) = [adr, ?p]" using strtok_all_word(1) [of adr "'',''" "CHR '',''" ?p] assms by simp
  moreover have "atoi ?p = int n" by (rule atoi_show_nat_append) (simp add: is_digit_def)
  ultimately show ?thesis by (simp add: address_def show_int_def)
qed

text \<open>A command word and a path, as typed.\<close>

definition typed_word :: "string \<Rightarrow> bool" where
  "typed_word w \<longleftrightarrow> w \<noteq> [] \<and> list_all (\<lambda>x. \<not> is_space x \<and> x \<noteq> CHR 0x00) w"

lemma typed_word_blank: "typed_word w \<Longrightarrow> w \<noteq> [] \<and> CHR '' '' \<notin> set w"
  by (auto simp: typed_word_def list_all_iff is_space_def)

lemma trim_line:
  assumes "typed_word w"
  shows "trim (pre @ w @ newline) = pre @ w"
proof -
  obtain w' x where w: "w = w' @ [x]" using assms by (cases w rule: rev_cases) (auto simp: typed_word_def)
  then have "\<not> is_space x" using assms by (simp add: typed_word_def)
  moreover have "is_space (CHR 0x0A)" by (simp add: is_space_def)
  ultimately show ?thesis using w by (simp add: trim_def newline_def)
qed

lemma count_two:
  assumes "typed_word a" "typed_word b" "length a + length b < 99"
  shows "count_words (a @ '' '' @ b) = Inr 2"
  using assms strtok_all_word(1) [of a "'' ''" "CHR '' ''" b] strtok_all_word(2) [of b "'' ''" "CHR '' ''"] typed_word_blank [of a] typed_word_blank [of b]
  by (simp add: count_words_def)

text \<open>What a client sees that asks for a path: the naming server answers with an address, only that
  address accepts a connection, and the storage server there sends the pieces and closes.\<close>

definition answers :: "env \<Rightarrow> nat \<Rightarrow> int \<Rightarrow> string \<Rightarrow> int \<Rightarrow> string \<Rightarrow> int \<Rightarrow> string list \<Rightarrow> bool" where
  "answers E t fd reply sock adr prt cs \<longleftrightarrow>
     (\<forall>t f b. sys_send E t f b = SentBytes (length b)) \<and> sys_recv E (t + 1) fd = RecvBytes reply \<and>
     sys_socket E (t + 2) = sock \<and> 0 \<le> sock \<and> sys_inet_pton E adr \<and>
     (\<forall>t f a p. sys_connect E t f a p \<longleftrightarrow> a = adr \<and> p = prt) \<and> delivers E sock (t + 5) (cs @ [[]])"

lemma visit_shows:
  assumes "answers E t fd reply sock adr prt cs" "clock (cl_net c) = t + 2" "address '','' details = Inr (adr, prt)"
    "\<forall>x\<in>set cs. x \<noteq> [] \<and> length x < BUFFER_SIZE \<and> CHR 0x00 \<notin> set x" "length cs < k"
  shows "\<exists>c'. sendAndRecieveFromSS k E details buffer c = Inr c' \<and>
    trace (cl_net c') = trace (cl_net c) @ [Sent sock buffer] @ map Stdout cs @ [Closed sock]"
proof -
  let ?w = "tick (tick (cl_net c))"
  let ?c3 = "c\<lparr>cl_net := emit (Sent sock buffer) (tick ?w)\<rparr>"
  have "open_ss E (adr, prt) sock (cl_io tick c) = (Some sock, cl_io tick (cl_io tick c))"
    using assms(1) by (simp add: open_ss_def answers_def)
  moreover have "send_good E sock buffer ?w = (int (length buffer), emit (Sent sock buffer) (tick ?w))"
    using assms(1) by (simp add: answers_def send_good_trace)
  moreover obtain c' where "show_loop k E sock ?c3 = Inr c'" "trace (cl_net c') = trace (cl_net c) @ [Sent sock buffer] @ map Stdout cs"
    using show_loop_shows [of E sock ?c3 cs k] assms by (auto simp: answers_def numeral_eq_Suc)
  ultimately show ?thesis
    using assms(1,2,3) by (simp add: sendAndRecieveFromSS_def Let_def answers_def cl_io_def close_def)
qed

lemma cat_turn:
  assumes "answers E (clock (cl_net c)) fd reply sock adr prt cs" "typed_word path" "length path < 96"
    "address '','' reply = Inr (adr, prt)" "CHR ''n'' \<notin> set reply" "\<not> starts_with ''Backup'' reply" "reply \<noteq> []"
    "CHR 0x00 \<notin> set reply" "length reply < BUFFER_SIZE"
    "\<forall>x\<in>set cs. x \<noteq> [] \<and> length x < BUFFER_SIZE \<and> CHR 0x00 \<notin> set x" "length cs < k"
  shows "\<exists>c' shown. client_turn k E D fd (''cat '' @ path @ newline) c = Inr c' \<and>
    trace (cl_net c') = trace (cl_net c) @ Sent fd (''cat '' @ path) # map Stdout shown @ Sent sock (''cat '' @ path) # map Stdout cs @ [Closed sock]"
proof -
  let ?b = "''cat '' @ path"
  let ?w = "emit (Sent fd ?b) (tick (cl_net c))"
  let ?c1 = "c\<lparr>cl_net := ?w\<rparr>" and ?c2 = "c\<lparr>cl_net := tick ?w\<rparr>"
  let ?got = "''Got this Other Commands from NM|'' @ reply @ ''|'' @ newline" and ?x = "''dfvsfgsfgsdf'' @ newline"
  let ?c3 = "print ?x (print ?got ?c2)"
  have "typed_word ''cat''" by (simp add: typed_word_def is_space_def)
  then have two: "count_words ?b = Inr 2" using count_two [of "''cat''" path] assms(2,3) by simp
  have sent: "send_good E fd ?b (cl_net c) = (int (length ?b), ?w)" using assms(1) by (simp add: answers_def send_good_trace)
  have tr: "trim (''cat '' @ path @ newline) = ?b" by (rule trim_line [OF assms(2)])
  have "client_turn k E D fd (''cat '' @ path @ newline) c = ask_path k E D fd ?b ?c1"
    unfolding client_turn_def tr Let_def two andthen_simps sent prod.case by (simp add: carries_out_def starts_with_def)
  also have "\<dots> = sendAndRecieveFromSS k E reply ?b ?c3"
  proof -
    have "recv_good E fd BUFFER_SIZE ?w = ((int (length reply), reply), tick ?w)"
      using assms(1,9) by (simp add: answers_def recv_good_def)
    moreover have "buf_str BUFFER_SIZE reply = Inr reply" using assms(8,9) by (simp add: buf_str_def)
    moreover have "strstr reply ''not found'' = None" using assms(5) by (intro strstr_None) simp_all
    moreover have "\<not> starts_with ''stream'' ?b" by (simp add: starts_with_def)
    ultimately show ?thesis using assms(6,7) by (simp add: ask_path_def visit_ss_def Let_def)
  qed
  finally have turn: "client_turn k E D fd (''cat '' @ path @ newline) c = sendAndRecieveFromSS k E reply ?b ?c3" .
  have "clock (cl_net ?c3) = clock (cl_net c) + 2" by simp
  from visit_shows [OF assms(1) this assms(4,10,11), of ?b] obtain c' where
    c': "sendAndRecieveFromSS k E reply ?b ?c3 = Inr c'"
      "trace (cl_net c') = trace (cl_net ?c3) @ [Sent sock ?b] @ map Stdout cs @ [Closed sock]" by blast
  have "trace (cl_net c') = trace (cl_net c) @ Sent fd ?b # map Stdout [?got, ?x] @ Sent sock ?b # map Stdout cs @ [Closed sock]"
    using c'(2) by simp
  with turn c'(1) show ?thesis by (metis (no_types))
qed

subsection \<open>A write\<close>

text \<open>The request a storage server gets for a write with the given flag.\<close>

definition write_request :: "string \<Rightarrow> string \<Rightarrow> string \<Rightarrow> client \<Rightarrow> string" where
  "write_request flag path dat c =
     (if flag = ''-s'' then join CHR ''|'' [''WRITE_SYNC'', path, dat]
      else join CHR ''|'' [''WRITE_ASYNC'', path, IPADDR c, ASYNC_PORT_FOR_CLIENT c, dat])"

text \<open>What a client sees that writes: the reply of the naming server, one address that accepts a
  connection, and some reply of the storage server.\<close>

definition accepts_write :: "env \<Rightarrow> nat \<Rightarrow> int \<Rightarrow> string \<Rightarrow> int \<Rightarrow> string \<Rightarrow> int \<Rightarrow> bool" where
  "accepts_write E t fd reply sock adr prt \<longleftrightarrow>
     (\<forall>t f b. sys_send E t f b = SentBytes (length b)) \<and> sys_recv E (t + 1) fd = RecvBytes (reply @ [CHR 0x00]) \<and>
     sys_socket E (t + 2) = sock \<and> 0 \<le> sock \<and> sys_inet_pton E adr \<and>
     (\<forall>t f a p. sys_connect E t f a p \<longleftrightarrow> a = adr \<and> p = prt)"

lemma count_three:
  assumes "typed_word a" "typed_word b" "typed_word d" "length a + length b + length d < 98"
  shows "strtok_all '' '' (a @ '' '' @ b @ '' '' @ d) = [a, b, d]" "count_words (a @ '' '' @ b @ '' '' @ d) = Inr 3"
proof -
  show toks: "strtok_all '' '' (a @ '' '' @ b @ '' '' @ d) = [a, b, d]"
    using strtok_all_word(1) [of a "'' ''" "CHR '' ''" "b @ '' '' @ d"] strtok_all_word(1) [of b "'' ''" "CHR '' ''" d]
      strtok_all_word(2) [of d "'' ''" "CHR '' ''"] typed_word_blank [OF assms(1)] typed_word_blank [OF assms(2)] typed_word_blank [OF assms(3)] by simp
  show "count_words (a @ '' '' @ b @ '' '' @ d) = Inr 3"
    unfolding count_words_def toks using assms(4) by simp
qed

lemma recv_good_pair:
  obtains r b where "recv_good E fd n w = ((r, b), tick w)"
  by (cases "fst (recv_good E fd n w)") (simp add: recv_good_def)

lemma send_write_sends:
  assumes "\<forall>t f b. sys_send E t f b = SentBytes (length b)" "sys_socket E (clock (cl_net c)) = sock" "0 \<le> sock" "sys_inet_pton E adr"
    "\<forall>t f a p. sys_connect E t f a p \<longleftrightarrow> a = adr \<and> p = atoi prt" "strtok_all ''|'' reply = [cmd, adr, prt]"
    "CHR 0x00 \<in> set (drop BUFFER_SIZE (block D))"
  shows "\<exists>c' shown. send_write E D reply m c = Inr c' \<and> stdin c' = stdin c \<and>
    trace (cl_net c') = trace (cl_net c) @ Stdout (''Sending to SS |'' @ m @ ''|'' @ newline) # Sent sock m # map Stdout shown"
proof -
  let ?c2 = "cl_io tick (cl_io tick c)" and ?s = "''Sending to SS |'' @ m @ ''|'' @ newline"
  let ?w = "emit (Sent sock m) (tick (cl_net (print ?s ?c2)))"
  obtain r b where rb: "recv_good E sock BUFFER_SIZE ?w = ((r, b), tick ?w)" by (rule recv_good_pair)
  have "length b \<le> BUFFER_SIZE" using recv_good_length [OF rb] by simp
  then have "CHR 0x00 \<in> set (overlay b (block D))"
    using assms(7) set_drop_subset_set_drop [of "length b" BUFFER_SIZE "block D"] by (auto simp: overlay_def)
  then obtain x where x: "array_str (overlay b (block D)) = Inr x" by (simp add: array_str_def)
  have op: "open_ss E (adr, atoi prt) sock (cl_io tick c) = (Some sock, ?c2)" using assms(4,5) by (simp add: open_ss_def)
  have sg: "send_good E sock m (cl_net (print ?s ?c2)) = (int (length m), ?w)" using assms(1) by (simp add: send_good_trace)
  let ?c3 = "?c2\<lparr>cl_net := tick ?w\<rparr>" and ?g = "''Received from SS |'' @ x @ ''|'' @ newline"
  have run: "send_write E D reply m c = Inr (print ?g (if r \<le> 0 then report 11 ?c3 else ?c3))"
    unfolding send_write_def Let_def assms(6) list.case assms(2) op prod.case option.case sg rb x andthen_simps using assms(3) by simp
  have "trace (cl_net (print ?g (if r \<le> 0 then report 11 ?c3 else ?c3))) =
    trace (cl_net c) @ Stdout ?s # Sent sock m # map Stdout ((if r \<le> 0 then [error_text 11] else []) @ [?g])"
    by (simp add: report_def printErrorDetails_def)
  moreover have "stdin (print ?g (if r \<le> 0 then report 11 ?c3 else ?c3)) = stdin c" by (simp add: report_def)
  ultimately show ?thesis using run by blast
qed

definition ok_prefix :: "string \<Rightarrow> string" where
  "ok_prefix flag = (if flag = ''-s'' then ''PATH_OK_SYNC'' else ''PATH_OK_ASYNC'')"

lemma write_header_request:
  assumes "flag = ''-s'' \<or> flag = ''-a''" "starts_with (ok_prefix flag) reply"
  shows "\<exists>h. write_header reply path c = Inr h \<and> h @ dat = write_request flag path dat c"
  using assms by (auto simp: ok_prefix_def write_header_def write_request_def starts_with_prefix prefix_def)

lemma read_data_line:
  assumes "stdin c = dat @ NLINE # rest" "NLINE \<notin> set dat" "CHR 0x00 \<notin> set (h @ dat)" "length h + length dat < 4096"
  shows "read_data h c = Inr (h @ dat, c\<lparr>stdin := rest\<rparr>)"
proof -
  have "takeWhile (\<lambda>x. x \<noteq> NLINE) (stdin c) = dat"
    unfolding assms(1) by (subst takeWhile_append2) (use assms(2) in auto)
  then show ?thesis using assms by (simp add: read_data_def)
qed

lemma do_write_run:
  assumes "recv_good E fd BUFFER_SIZE (cl_net c) = ((r, b), w)" "0 < r" "buf_str BUFFER_SIZE b = Inr reply" "starts_with ''PATH_OK'' reply"
    "strtok_all '' '' buffer = [cmd, flag, path]" "c3 = print (''ns response: '' @ reply @ newline) (c\<lparr>cl_net := w\<rparr>)"
    "write_header reply path c3 = Inr h" "read_data h (print ''enter data here:'' c3) = Inr (m, c4)"
  shows "do_write E D fd buffer c = send_write E D reply m c4"
  using assms by (simp add: do_write_def Let_def)

lemma write_turn:
  assumes "flag = ''-s'' \<or> flag = ''-a''" "typed_word path" "length path < 89"
    "starts_with (ok_prefix flag) reply" "CHR 0x00 \<notin> set reply" "length reply < BUFFER_SIZE - 1" "strtok_all ''|'' reply = [cmd, adr, prt]"
    "accepts_write E (clock (cl_net c)) fd reply sock adr (atoi prt)" "CHR 0x00 \<in> set (drop BUFFER_SIZE (block D))"
    "stdin c = dat @ NLINE # rest" "NLINE \<notin> set dat" "CHR 0x00 \<notin> set (write_request flag path dat c)"
    "length (write_request flag path dat c) < 4096"
  shows "\<exists>c' shown shown'. client_turn k E D fd (''write '' @ flag @ '' '' @ path @ newline) c = Inr c' \<and> stdin c' = rest \<and>
    trace (cl_net c') = trace (cl_net c) @ Sent fd (''write '' @ flag @ '' '' @ path) # map Stdout shown @
      Sent sock (write_request flag path dat c) # map Stdout shown'"
proof -
  let ?b = "''write '' @ flag @ '' '' @ path" and ?msg = "write_request flag path dat c"
  let ?w = "emit (Sent fd ?b) (tick (cl_net c))"
  let ?ns = "''ns response: '' @ reply @ newline"
  let ?c1 = "c\<lparr>cl_net := ?w\<rparr>" and ?c3 = "print ?ns (c\<lparr>cl_net := tick ?w\<rparr>)" and ?ask = "''enter data here:''"
  have words: "typed_word ''write''" "typed_word flag" "length flag = 2" using assms(1) by (auto simp: typed_word_def is_space_def)
  note three = count_three [OF words(1,2) assms(2)]
  have cnt: "count_words ?b = Inr 3" and toks: "strtok_all '' '' ?b = [''write'', flag, path]" using three assms(3) words(3) by simp_all
  have env: "\<forall>t f b. sys_send E t f b = SentBytes (length b)" "sys_recv E (clock (cl_net c) + 1) fd = RecvBytes (reply @ [CHR 0x00])"
    "sys_socket E (clock (cl_net c) + 2) = sock" "0 \<le> sock" "sys_inet_pton E adr" "\<forall>t f a p. sys_connect E t f a p \<longleftrightarrow> a = adr \<and> p = atoi prt"
    using assms(8) by (simp_all add: accepts_write_def)
  have sent: "send_good E fd ?b (cl_net c) = (int (length ?b), ?w)" using env(1) by (simp add: send_good_trace)
  have tr: "trim (''write '' @ flag @ '' '' @ path @ newline) = ?b" using trim_line [OF assms(2), of "''write '' @ flag @ '' ''"] by simp
  have turn: "client_turn k E D fd (''write '' @ flag @ '' '' @ path @ newline) c = do_write E D fd ?b ?c1"
    unfolding client_turn_def tr Let_def cnt andthen_simps sent prod.case by (simp add: carries_out_def starts_with_def)
  have recv: "recv_good E fd BUFFER_SIZE ?w = ((int (Suc (length reply)), reply @ [CHR 0x00]), tick ?w)"
    using env(2) assms(6) by (simp add: recv_good_def)
  have buf: "buf_str BUFFER_SIZE (reply @ [CHR 0x00]) = Inr reply" using assms(5) by (auto simp: buf_str_def c_str_def takeWhile_tail)
  have ok: "starts_with ''PATH_OK'' reply" using assms(1,4) by (auto simp: ok_prefix_def starts_with_prefix prefix_def)
  obtain h where h: "write_header reply path ?c3 = Inr h" "h @ dat = ?msg"
    using write_header_request [OF assms(1,4), of path ?c3 dat] by (auto simp: write_request_def)
  have rd: "read_data h (print ?ask ?c3) = Inr (?msg, (print ?ask ?c3)\<lparr>stdin := rest\<rparr>)"
  proof -
    have len: "length h + length dat = length ?msg" unfolding h(2) [symmetric] by simp
    show ?thesis
      using read_data_line [of "print ?ask ?c3" dat rest h] assms(10-13) unfolding h(2) len by simp
  qed
  let ?c4 = "(print ?ask ?c3)\<lparr>stdin := rest\<rparr>"
  have clk: "sys_socket E (clock (cl_net ?c4)) = sock" using env(3) by (simp add: numeral_2_eq_2)
  obtain c' shown where sw: "send_write E D reply ?msg ?c4 = Inr c'" "stdin c' = rest"
    "trace (cl_net c') = trace (cl_net ?c4) @ Stdout (''Sending to SS |'' @ ?msg @ ''|'' @ newline) # Sent sock ?msg # map Stdout shown"
    using send_write_sends [OF env(1) clk env(4-6) assms(7,9), of ?msg] by auto
  have "do_write E D fd ?b ?c1 = send_write E D reply ?msg ?c4"
  proof (rule do_write_run [OF _ _ buf ok toks _ h(1) rd])
    show "recv_good E fd BUFFER_SIZE (cl_net ?c1) = ((int (Suc (length reply)), reply @ [CHR 0x00]), tick ?w)" using recv by simp
  qed simp_all
  with sw(1) have "do_write E D fd ?b ?c1 = Inr c'" by (simp only:)
  moreover have "trace (cl_net c') = trace (cl_net c) @ Sent fd ?b # map Stdout [?ns, ?ask, ''Sending to SS |'' @ ?msg @ ''|'' @ newline] @
      Sent sock ?msg # map Stdout shown"
    using sw(3) by simp
  ultimately show ?thesis using turn sw(2) by metis
qed

section \<open>A stream and its pause key\<close>

text \<open>The two threads of a stream: the one that receives, which waits while the stream is paused, and the one
  that reads keys.\<close>

record stream =
  isPaused :: bool
  firstTime :: bool
  over :: bool
  listening :: client

inductive stream_step :: "env \<Rightarrow> desk \<Rightarrow> int \<Rightarrow> stream \<Rightarrow> bool \<Rightarrow> stream \<Rightarrow> bool" for E D sock where
  piece: "\<not> isPaused x \<Longrightarrow> \<not> over x \<Longrightarrow> play_piece E D (firstTime x) sock (listening x) = (go, c) \<Longrightarrow>
    stream_step E D sock x True (x\<lparr>firstTime := False, over := \<not> go, listening := c\<rparr>)"
| key: "handleUserInput (isPaused x) (listening x) = (b, c) \<Longrightarrow>
    stream_step E D sock x False (x\<lparr>isPaused := b, listening := c\<rparr>)"

text \<open>Pausing changes nothing in what is played: after \<open>m\<close> pieces the player has got exactly the first \<open>m\<close>
  pieces the storage server sent.\<close>

definition plays :: "string list \<Rightarrow> client \<Rightarrow> nat \<Rightarrow> client \<Rightarrow> bool" where
  "plays cs c m c' \<longleftrightarrow> player c' = player c @ concat (take m cs) \<and> clock (cl_net c') = clock (cl_net c) + m"

lemma plays_key: "plays cs c m c1 \<Longrightarrow> handleUserInput b c1 = (b', c2) \<Longrightarrow> plays cs c m c2"
  by (auto simp: handleUserInput_def plays_def print_def Let_def split: list.splits if_splits)

lemma plays_piece:
  assumes "plays cs c m c1" "delivers E sock (clock (cl_net c)) cs" "m < length cs" "\<forall>t. fwrite_ok D t"
    "\<forall>x\<in>set cs. x \<noteq> [] \<and> length x \<le> BUFFER_SIZE_FOR_MUSIC"
  shows "\<exists>c2. play_piece E D f sock c1 = (True, c2) \<and> plays cs c (Suc m) c2"
proof -
  have "sys_recv E (clock (cl_net c1)) sock = RecvBytes (cs ! m)" "cs ! m \<noteq> []" "length (cs ! m) \<le> BUFFER_SIZE_FOR_MUSIC"
    using assms nth_mem [OF assms(3)] by (auto simp: plays_def delivers_def)
  with assms(1,3,4) show ?thesis by (simp add: play_piece_def Let_def plays_def take_Suc_conv_app_nth)
qed

end
