(* ===== verification/Client_Main.thy ===== *)
theory Client_Main
  imports Client Nfs_Boot
begin

text \<open>
  The start of the client: \<^verbatim>\<open>main\<close> of \<^verbatim>\<open>client.c\<close> up to its command loop, with the socket on which
  acknowledgements arrive, and the accept loop of that socket.
\<close>

definition usage :: "string list \<Rightarrow> string" where
  "usage argv = ''Usage: '' @ (case argv of [] \<Rightarrow> ''(null)'' | p # ps \<Rightarrow> p) @ '' <naming_server_ip>'' @ newline"

text \<open>The socket for acknowledgements, with the port the system chose.\<close>

definition bind_async :: "env \<Rightarrow> host \<Rightarrow> (world, int \<times> int) boot" where
  "bind_async E H =
     next_do (new_socket E id) (\<lambda>sk.
     next_do (must (sys_setsockopt E) (close sk)) (\<lambda>u.
     next_do (must (sys_setsockopt E) (close sk)) (\<lambda>u.
     next_do (must (\<lambda>t. sys_bind H t sk 0) (close sk)) (\<lambda>u.
     next_do (asks (\<lambda>t. sys_getsockname H t sk)) (\<lambda>name.
       case name of
         None \<Rightarrow> next_do (acts (close sk)) (\<lambda>u. ends (Exit 1))
       | Some p \<Rightarrow> next_do (acts (emit (Bound sk p))) (\<lambda>u. goes (sk, p)))))))"

text \<open>The first address of the host; \<^verbatim>\<open>IPADDR\<close> keeps the wildcard address of the socket if there is none.\<close>

definition own_address :: "host \<Rightarrow> int \<Rightarrow> (world, string) boot" where
  "own_address H sk =
     next_do (must (sys_gethostname H) (close sk)) (\<lambda>u.
     next_do (asks (sys_getaddrinfo H)) (\<lambda>res.
       case res of
         None \<Rightarrow> next_do (acts (close sk)) (\<lambda>u. ends (Exit 1))
       | Some as \<Rightarrow> goes (case as of [] \<Rightarrow> ''0.0.0.0'' | a # _ \<Rightarrow> a)))"

definition connect_ns :: "env \<Rightarrow> string \<Rightarrow> (world, int) boot" where
  "connect_ns E adr =
     next_do (new_socket E (printErrorDetails 7)) (\<lambda>sk.
     next_do (must (\<lambda>t. sys_connect E t sk adr CLIENT_PORT_NS) (\<lambda>w. close sk (printErrorDetails 9 w))) (\<lambda>u.
     next_do (acts (emit (Stdout (''Connected to Naming Server @ '' @ adr @ '':'' @ show_int CLIENT_PORT_NS @ newline)))) (\<lambda>u.
     goes sk)))"

definition listen_and_connect :: "env \<Rightarrow> host \<Rightarrow> string \<Rightarrow> string \<Rightarrow> int \<Rightarrow> string \<Rightarrow> (world, int \<times> int \<times> client) boot" where
  "listen_and_connect E H ns_ip input async_socket prt =
     next_do (own_address H async_socket) (\<lambda>adr.
     next_do (acts (\<lambda>w. emit (Stdout (''Async Port: '' @ prt @ newline)) (emit (Stdout (''Client IP Address: '' @ adr @ newline)) w))) (\<lambda>u.
     next_do (must (\<lambda>t. sys_listen H t async_socket) (close async_socket)) (\<lambda>u.
     next_do (acts (emit (Listening async_socket))) (\<lambda>u.
     next_do (must (sys_pthread_create H) (close async_socket)) (\<lambda>u.
     next_do (connect_ns E ns_ip) (\<lambda>client_socket w.
     goes (client_socket, async_socket,
       \<lparr>cl_net = w, stdin = input, player = [], IPADDR = adr, ASYNC_PORT_FOR_CLIENT = prt\<rparr>) w))))))"

text \<open>The decimal port is written to an array of seven bytes.\<close>

definition client_main :: "env \<Rightarrow> host \<Rightarrow> string list \<Rightarrow> string \<Rightarrow> (world, int \<times> int \<times> client) boot" where
  "client_main E H argv input =
     (if length argv \<noteq> 2 then next_do (acts (emit (Stdout (usage argv)))) (\<lambda>u. ends (Exit 1))
      else
        next_do (bind_async E H) (\<lambda>(async_socket, p).
          case sprintf 7 (show_int p) of
            Inl e \<Rightarrow> ends (Crash e)
          | Inr prt \<Rightarrow> listen_and_connect E H (argv ! 1) input async_socket prt))"

text \<open>One iteration of the accept loop: the value of its variable, and whether a thread was given the address
  of it.\<close>

definition async_setup :: "host \<Rightarrow> int \<Rightarrow> world \<Rightarrow> (int \<times> bool) \<times> world" where
  "async_setup H async_socket w =
     (case sys_accept H (clock w) async_socket of
        AcceptErr e \<Rightarrow> ((-1, False), tick w)
      | Accepted sk adr prt \<Rightarrow> ((int sk, sys_pthread_create H (Suc (clock w))), tick (tick w)))"

section \<open>Lemmas\<close>

lemma bind_async_boots:
  "boots (bind_async E H) (\<lambda>e w'. True) (\<lambda>(sk, p) w'. Bound sk p \<in> set (trace w') \<and> (\<exists>t. sys_getsockname H t sk = Some p)) w"
  unfolding bind_async_def
  by (rule boots_seqI, simp add: new_socket_def boot_simps, rule boots_seqI, simp add: boot_simps, rule boots_seqI, simp add: boot_simps,
      rule boots_seqI, simp add: boot_simps)
    (auto simp: boot_simps split: option.split)

lemma own_address_boots:
  "boots (own_address H sk) (\<lambda>e w'. True) (\<lambda>a w'. trace w' = trace w \<and> (\<exists>t as. sys_getaddrinfo H t = Some as \<and> (as \<noteq> [] \<longrightarrow> a = hd as))) w"
  by (auto simp: own_address_def boot_simps split: option.split list.split) (metis list.distinct(1) list.sel(1))+

lemma connect_ns_boots: "boots (connect_ns E adr) (\<lambda>e w'. True) (\<lambda>sk w'. set (trace w) \<subseteq> set (trace w')) w"
  by (auto simp: connect_ns_def new_socket_def boot_simps)

lemma listen_and_connect_boots:
  "boots (listen_and_connect E H ns_ip input fd prt) (\<lambda>e w'. True)
     (\<lambda>(sk, fd', c) w'. fd' = fd \<and> cl_net c = w' \<and> stdin c = input \<and> Listening fd \<in> set (trace w') \<and> set (trace w) \<subseteq> set (trace w') \<and>
        ASYNC_PORT_FOR_CLIENT c = prt \<and> (\<exists>t as. sys_getaddrinfo H t = Some as \<and> (as \<noteq> [] \<longrightarrow> IPADDR c = hd as))) w"
  unfolding listen_and_connect_def
  by (subst boots_next, rule boots_mono [OF own_address_boots], simp add: boots_next boots_acts boots_must, intro impI,
      rule boots_mono [OF connect_ns_boots]) (auto simp: boots_sees)

lemma client_main_boots:
  "boots (client_main E H argv input) (\<lambda>e w'. True)
     (\<lambda>(sk, fd, c) w'. cl_net c = w' \<and> stdin c = input \<and> Listening fd \<in> set (trace w') \<and>
        (\<exists>p t. Bound fd p \<in> set (trace w') \<and> sys_getsockname H t fd = Some p \<and> ASYNC_PORT_FOR_CLIENT c = show_int p) \<and>
        (\<exists>t as. sys_getaddrinfo H t = Some as \<and> (as \<noteq> [] \<longrightarrow> IPADDR c = hd as))) w"
proof (cases "length argv = 2")
  case True
  then have "client_main E H argv input = next_do (bind_async E H) (\<lambda>(fd, p). case sprintf 7 (show_int p) of
      Inl e \<Rightarrow> ends (Crash e) | Inr prt \<Rightarrow> listen_and_connect E H (argv ! 1) input fd prt)" by (simp add: client_main_def)
  then show ?thesis
    by (simp only: boots_next) (rule boots_mono [OF bind_async_boots], clarsimp simp: sprintf_def boots_ends,
        rule boots_mono [OF listen_and_connect_boots], fastforce)
qed (simp add: client_main_def boot_simps)

section \<open>A stream\<close>

lemma stream_plays:
  assumes "runs (stream_step E D sock) x ls x'" "delivers E sock (clock (cl_net (listening x))) cs" "\<forall>t. fwrite_ok D t"
    "\<forall>y\<in>set cs. y \<noteq> [] \<and> length y \<le> BUFFER_SIZE_FOR_MUSIC" "count_list ls True \<le> length cs" "\<not> over x"
  shows "plays cs (listening x) (count_list ls True) (listening x') \<and> \<not> over x'"
  using assms
proof (induction rule: runs.induct)
  case (runs_Nil x)
  then show ?case by (simp add: plays_def)
next
  case (runs_snoc x ls x' l x'')
  have IH: "plays cs (listening x) (count_list ls True) (listening x')" "\<not> over x'" using runs_snoc by simp_all
  from runs_snoc.hyps(2) show ?case
  proof cases
    case (piece go c)
    have "count_list ls True < length cs" using runs_snoc.prems(4) piece(1) by simp
    from plays_piece [OF IH(1) runs_snoc.prems(1) this runs_snoc.prems(2,3), of "firstTime x'"] piece show ?thesis by auto
  next
    case (key b c)
    with plays_key [OF IH(1) key(3)] IH(2) show ?thesis by simp
  qed
qed

text \<open>After the last piece the stream ends, whichever key is pressed.\<close>

lemma stream_ends:
  assumes "plays cs c (length cs) c1" "sys_recv E (clock (cl_net c) + length cs) sock = RecvBytes []"
  shows "play_piece E D f sock c1 = (False, print (''End of stream'' @ newline) (cl_io tick c1))"
  using assms by (simp add: plays_def play_piece_def Let_def)

end
