(* ===== verification/Spec2Isabelle.thy ===== *)
theory Spec2Isabelle
  imports Ns_Replies Ns_Main Ss_Main Transfer_Copy Client_Main
begin

text \<open>
  This development verifies the network file system under \<^verbatim>\<open>src/\<close>: a naming server
  (\<^verbatim>\<open>naming_server.c\<close>) that knows which storage server stores which path, storage servers
  (\<^verbatim>\<open>storage_server.c\<close>) that export a directory, clients (\<^verbatim>\<open>client.c\<close>), and what they share
  (\<^verbatim>\<open>helper.c\<close>, \<^verbatim>\<open>tries.c\<close>, \<^verbatim>\<open>lock.c\<close>, \<^verbatim>\<open>ErrorCodes.h\<close>).

  \<^bold>\<open>How the parts interact.\<close> A storage server connects to the naming server, sends its client port and a listing
  of its directory; the naming server builds a trie of it. A client sends commands to the naming server:
  it forwards \<^verbatim>\<open>mkdir\<close>, \<^verbatim>\<open>touch\<close>, \<^verbatim>\<open>rm\<close>, \<^verbatim>\<open>rmdir\<close> and \<^verbatim>\<open>copy\<close> to storage servers and
  updates its tries by their replies; for \<^verbatim>\<open>cat\<close>, \<^verbatim>\<open>ls\<close>, \<^verbatim>\<open>get_info\<close>, \<^verbatim>\<open>stream\<close> and
  \<^verbatim>\<open>write\<close> it answers with the address of a storage server, to which the client then connects. A finished
  write is reported to the naming server, which has it copied to the backups and acknowledges an
  asynchronous one to the client.

  \<^bold>\<open>How programs are modelled.\<close> A C function is a function on an explicit state. Its result is a value or a
  \<open>fault\<close>: a NULL pointer, an access out of bounds, an unassigned variable, a wait that never ends, the end of
  the process, or no fuel (\<open>Nfs_Prelude\<close>). Strings are the bytes before the NUL; each fixed
  buffer is checked where the code writes or reads it. What the system and the peers answer is a parameter
  \<open>env\<close> (\<open>Nfs_Net\<close>; \<open>host\<close> of \<open>Nfs_Boot\<close> for start-up calls), read at a clock that advances
  with each call, so a theorem for every \<open>env\<close> holds for all answers. What a program does to
  the outside is its trace. A storage server receives from queues of messages, so that the theorems about the
  copy protocol can give each end the messages of the other. Memory the code reads although it was never
  assigned or already freed is a parameter (\<open>junk\<close>), or a fault where no value is sensible.

  \<^bold>\<open>Theories and sources.\<close>
  \<^item> \<open>Nfs_Prelude\<close>: outcomes, C strings, arrays, transition systems. \<open>Error_Codes\<close>: \<^verbatim>\<open>ErrorCodes.h\<close>.
    \<open>Nfs_Net\<close>: \<^verbatim>\<open>recv_good\<close>, \<^verbatim>\<open>send_good\<close>, \<^verbatim>\<open>log_it\<close>, constants of \<^verbatim>\<open>helper.h\<close>.
  \<^item> \<open>Tries\<close>: \<^verbatim>\<open>tries.c\<close>. \<open>Lru_Cache\<close>: the path cache. \<open>Locks\<close>: \<^verbatim>\<open>lock.c\<close>, with any number of threads
    interleaved at every access to the mutex and the condition variable.
  \<^item> Naming server: \<open>Ns_State\<close> (tables, semaphore, lookup, pings, backups), \<open>Ns_Index\<close> (\<^verbatim>\<open>indexHelper\<close>),
    \<open>Ns_Register\<close> (\<^verbatim>\<open>register_storage_server\<close>, \<^verbatim>\<open>handle_copy_request\<close>), \<open>Ns_Client\<close>
    (\<^verbatim>\<open>process_client\<close> and \<^verbatim>\<open>listen_async\<close> with all branches), \<open>Ns_Main\<close> (\<^verbatim>\<open>main\<close>, the accept
    loops, signals, threads). Proofs: \<open>Ns_Lookup\<close>, \<open>Ns_Safety\<close>, \<open>Ns_Properties\<close>, \<open>Ns_Commands\<close>, \<open>Ns_Replies\<close>.
  \<^item> Storage server: \<open>Posix_Fs\<close> (the file system calls), \<open>Ss_State\<close>, \<open>Ss_Index\<close>
    (\<^verbatim>\<open>indexSubFolder\<close>), \<open>Ss_Write\<close> (both kinds of write), \<open>Ss_Files\<close> (file operations of \<^verbatim>\<open>helper.c\<close>),
    \<open>Ss_Copy\<close> (copies within a server), \<open>Ss_Transfer\<close> (the copy protocol, both ends), \<open>Ss_Server\<close>
    (\<^verbatim>\<open>process_client\<close>, \<^verbatim>\<open>listen_to_nm\<close>, \<^verbatim>\<open>connect_to_nm\<close>), \<open>Ss_Main\<close> (\<^verbatim>\<open>main\<close>, accept loop, threads).
    Proofs: \<open>Fs_Graft\<close>, \<open>Ss_Frame\<close>, \<open>Ss_Properties\<close>, \<open>Transfer_Copy\<close>.
  \<^item> Client: \<open>Client\<close> (command loop, all commands, streams with the pause key), \<open>Client_Main\<close> (start-up and the
    socket for acknowledgements).
  \<^item> This theory holds the properties that span programs.

  \<^bold>\<open>Interfaces.\<close> Each is a locale with an interpretation on the model: \<open>invariant_of\<close> (an invariant of a transition
  system; for the locks and both servers), \<open>path_index\<close> (lookup after adding and deleting paths; \<open>Tries\<close>), \<open>lru_queue\<close> (the
  queue of recent keys; \<open>Lru_Cache\<close>), \<open>flat_fs\<close> (the calls on a directory tree stated over a flat view; \<open>Posix_Fs\<close>), \<open>file_frame\<close> and its extension \<open>ss_frame\<close>
  (a preorder on states that primitive steps respect is respected by every operation of the storage
  server; interpreted by the invariant, the input that is left, the lock table and quiet locks), and
  \<open>handover\<close> (an accept loop that gives each connection to one thread; for registrations, sessions and the
  clients of a storage server).

  \<^bold>\<open>What is shown.\<close> Invariants of both servers as programs, over every interleaving of their threads at the granularity
  of a command; mutual exclusion and freedom from deadlock of the locks; the tries and the cache implement their
  abstract operations; lookups find the first server that stores a path; what each command changes
  and answers; file operations, listings and copies do what they say and their loops end; and end to end: an index
  arrives as the directory it lists, however it is cut; \<^verbatim>\<open>mkdir\<close> and \<^verbatim>\<open>touch\<close> change directory and trie
  together; \<^verbatim>\<open>cat\<close> shows the file, \<^verbatim>\<open>stream\<close> plays it, \<^verbatim>\<open>write\<close> appends the typed line; a
  copy between two servers makes the same tree; an acknowledgement reaches the client that listens. Further
  theorems pin down where the code departs from its intention (races of thread arguments, stale cache entries,
  a second reply to \<^verbatim>\<open>write\<close>, an unreachable server used as an index, stack contents in a written file, locks that
  stay taken).

  \<^bold>\<open>Fuel.\<close> Loops over data are total functions. A loop whose length a peer decides has a bound: the receive
  loops of \<^verbatim>\<open>indexHelper\<close> and of the client (enough: the number of pieces, \<open>index_any_chunking\<close>,
  \<open>cat_end_to_end\<close>), the commands of a session (a session is a sequence of program steps of any length), the receiver of
  a copy (enough: the input waiting on the connection, \<open>connection_terminates\<close>), and the recursion of
  \<^verbatim>\<open>copy_directory\<close> (enough: the depth of the tree, \<open>copy_same_copies\<close>; a copy into itself has no bound).

  \<^bold>\<open>Not modelled.\<close> Threads other than those of \<open>Locks\<close> and the two of a stream are interleaved between commands, not within one:
  races on \<^verbatim>\<open>strtok\<close>, on the tries and on the cache inside a command are outside the model. The
  variable of an accept loop is one place in memory. Diagnostic output of the servers to the terminal is left out where
  no protocol depends on it, as is \<^verbatim>\<open>perror\<close>; \<^verbatim>\<open>print_cache\<close> returns at once and \<^verbatim>\<open>destroy_file\<close> is never
  called. The file system has no links, rights or limits of space: a call may fail at any time (\<open>sys_fs_ok\<close>),
  but leaves no partial effect. \<^verbatim>\<open>htons\<close> and \<^verbatim>\<open>inet_pton\<close> are taken as the identity on addresses the system
  accepts. The end of a process by a signal has no successor state.
\<close>

section \<open>From a storage server's directory to the naming server's trie\<close>

text \<open>C2. End to end: when a storage server sends its index and the naming server receives these bytes, cut
  into chunks in any way that leaves room for a partial line, the naming server's index stores exactly the
  paths of the visible directory entries and their ancestors, and it returns with the rest of its state
  unchanged.\<close>

theorem reindex_end_to_end:
  assumes "\<forall>t f b. sys_send Es t f b = SentBytes (length b)" "bs \<noteq> []" "list_all good_path (listed bs tree)"
    "trace (indexSubFolder Es (path_text bs) tree sk w) = trace w @ map (Sent sk) msgs"
    "ns_wf s" "concat cs = concat msgs" "delivers En fd (clock (net s)) cs" "length cs \<le> n"
    "\<forall>c\<in>set cs. c \<noteq> [] \<and> length finished_marker + length c < MAX_PATH_SIZE \<and>
       (\<forall>ps\<in>set (listed bs tree). length (path_text ps) + length c < MAX_PATH_SIZE)"
    "\<forall>d. card {y. \<exists>ps\<in>set (listed bs tree). prefix (d @ [y]) ps} \<le> MAX_FOLDERS"
  shows "\<exists>t w'. indexHelper En n fd (CreateNode ''.'') s = Inr (t, s\<lparr>net := w'\<rparr>) \<and> wf_trie t \<and>
    (\<forall>qs. SearchPathHelperTries t qs \<longleftrightarrow> qs = [] \<or> (\<exists>ps\<in>set (listed bs tree). prefix qs ps))"
proof -
  let ?L = "listed bs tree"
  have "map (Sent sk) msgs = map (Sent sk) (map path_line ?L @ [finished_marker @ [NL]])"
    using assms(4) index_sends [OF assms(1-3), of sk w] by (simp add: sends_def)
  then have "msgs = map path_line ?L @ [finished_marker @ [NL]]"
    using map_inj_on [of "Sent sk"] by (metis event.inject(1) inj_on_def)
  then have str: "concat cs = listing (map path_text ?L)" using assms(6) concat_lines by simp
  have nul: "CHR 0x00 \<notin> set (concat cs)"
    using assms(3) good_path_text(2) unfolding str
    by (auto simp: listing_def list_all_iff NL_def finished_marker_def)
  show ?thesis
  proof (rule index_chunked [OF assms(5) listing_paths [OF assms(3)] str assms(7) _ _ assms(8,10)])
    show "\<forall>c\<in>set cs. c \<noteq> [] \<and> CHR 0x00 \<notin> set c" using assms(9) nul by auto
    show "\<forall>c\<in>set cs. \<forall>l. sublist l (listing (map path_text ?L)) \<longrightarrow> NL \<notin> set l \<longrightarrow> length l + length c < MAX_PATH_SIZE"
      using assms(9) listing_piece [of _ "map path_text ?L"] by fastforce
  qed
qed

lemma dir_prefixes_bound: "card {y. \<exists>ps\<in>set pss. prefix (d @ [y]) ps} \<le> length (concat pss)"
proof -
  have "{y. \<exists>ps\<in>set pss. prefix (d @ [y]) ps} \<subseteq> set (concat pss)" by (auto simp: prefix_def)
  then have "card {y. \<exists>ps\<in>set pss. prefix (d @ [y]) ps} \<le> card (set (concat pss))" by (rule card_mono [rotated]) simp
  also have "\<dots> \<le> length (concat pss)" by (rule card_length)
  finally show ?thesis .
qed

definition example_stream :: string where
  "example_stream = concat (map path_line (listed [''.'', ''root''] example_tree) @ [finished_marker @ [NL]])"

lemma example_stream_bounds:
  "example_stream \<noteq> []" "length finished_marker + length example_stream < MAX_PATH_SIZE"
  "\<forall>ps\<in>set (listed [''.'', ''root''] example_tree). length (path_text ps) + length example_stream < MAX_PATH_SIZE"
  "length (concat (listed [''.'', ''root''] example_tree)) < MAX_FOLDERS"
  by code_simp+

theorem reindex_end_to_end_witness:
  "\<exists>t w'. indexHelper (ok_env (\<lambda>t fd. RecvBytes example_stream)) 1 4 (CreateNode ''.'') (example_ns initialize_cache) =
       Inr (t, (example_ns initialize_cache)\<lparr>net := w'\<rparr>) \<and>
     SearchPathHelperTries t [''.'', ''root'', ''docs'', ''a.txt''] \<and> \<not> SearchPathHelperTries t [''.'', ''root'', ''docs'', ''.git'']"
proof -
  let ?En = "ok_env (\<lambda>t fd. RecvBytes example_stream)" and ?s = "example_ns initialize_cache" and ?bs = "[''.'', ''root'']"
  let ?msgs = "map path_line (listed ?bs example_tree) @ [finished_marker @ [NL]]" and ?w = "\<lparr>clock = 0, trace = []\<rparr>"
  have send: "\<forall>t f b. sys_send ?En t f b = SentBytes (length b)" by (simp add: ok_env_def)
  have tr: "trace (indexSubFolder ?En (path_text ?bs) example_tree 4 ?w) = trace ?w @ map (Sent 4) ?msgs"
    using index_sends [OF send, of ?bs example_tree 4 ?w] example_tree_listed(2) by (simp add: sends_def)
  have "\<exists>t w'. indexHelper ?En 1 4 (CreateNode ''.'') ?s = Inr (t, ?s\<lparr>net := w'\<rparr>) \<and> wf_trie t \<and>
    (\<forall>qs. SearchPathHelperTries t qs \<longleftrightarrow> qs = [] \<or> (\<exists>ps\<in>set (listed ?bs example_tree). prefix qs ps))"
  proof (rule reindex_end_to_end [OF send _ example_tree_listed(2) tr example_wf_empty, of "[example_stream]"])
    show "concat [example_stream] = concat ?msgs" by (simp add: example_stream_def)
    show "delivers ?En 4 (clock (net ?s)) [example_stream]" by (simp add: delivers_def ok_env_def)
    show "\<forall>d. card {y. \<exists>ps\<in>set (listed ?bs example_tree). prefix (d @ [y]) ps} \<le> MAX_FOLDERS"
      using dir_prefixes_bound [where pss = "listed ?bs example_tree"] example_stream_bounds(4) by (meson le_trans less_imp_le)
  qed (use example_stream_bounds in simp_all)
  then show ?thesis unfolding example_tree_listed(1) by auto
qed

section \<open>From an asynchronous write to the client's acknowledgement\<close>

definition plain_word :: "string \<Rightarrow> bool" where
  "plain_word w \<longleftrightarrow> w \<noteq> [] \<and> CHR '' '' \<notin> set w \<and> CHR ''|'' \<notin> set w \<and> CHR 0x00 \<notin> set w"

text \<open>Sockets can be made, and the only address that accepts a connection is the client's.\<close>

definition only_client_listens :: "env \<Rightarrow> string \<Rightarrow> int \<Rightarrow> bool" where
  "only_client_listens E cl_ip p \<longleftrightarrow>
     (\<forall>t. sys_socket E t \<ge> 0) \<and> sys_inet_pton E cl_ip \<and> (\<forall>t f a q. sys_connect E t f a q \<longleftrightarrow> a = cl_ip \<and> q = p) \<and>
     (\<forall>t f b. sys_send E t f b = SentBytes (length b))"

lemma async_message_words:
  assumes "plain_word path" "plain_word cl_ip"
  shows "strtok_all '' '' (async_message path cl_ip (show_nat p)) = [''writeasync'', path, cl_ip, show_nat p @ newline]"
proof -
  have "CHR '' '' \<notin> set (show_nat p)" using show_nat_digits [of "CHR '' ''" p] by (auto simp: is_digit_def)
  then have "strtok_all '' '' (join CHR '' '' [''writeasync'', path, cl_ip, show_nat p @ newline]) = [''writeasync'', path, cl_ip, show_nat p @ newline]"
    using assms by (intro strtok_all_join) (auto simp: plain_word_def newline_def)
  then show ?thesis by (simp add: async_message_def)
qed

lemma async_message_text:
  assumes "plain_word path" "plain_word cl_ip"
  shows "CHR 0x00 \<notin> set (async_message path cl_ip (show_nat p))"
proof -
  have "CHR 0x00 \<notin> set (show_nat p)" using show_nat_digits [of "CHR 0x00" p] by (auto simp: is_digit_def)
  then show ?thesis using assms by (simp add: async_message_def plain_word_def newline_def)
qed

lemma send_write_ack_trace:
  assumes "only_client_listens E cl_ip (int p)"
  shows "\<exists>f. trace (net (send_write_ack E path cl_ip (show_nat p @ newline) s)) =
    trace (net s) @ [Sent f (snprintf BUFFER_SIZE (''ACK: Backup completed for '' @ path)), Closed f]"
proof -
  have port: "atoi (show_nat p @ newline) = int p" by (rule atoi_show_nat_append) (simp add: newline_def is_digit_def)
  have "\<not> sys_socket E t < 0" "sys_socket E t \<noteq> -1" for t using assms by (auto simp: only_client_listens_def not_less) (metis not_one_le_zero add.inverse_neutral neg_le_iff_le)
  then show ?thesis
    using assms by (auto simp: send_write_ack_def create_client_socket_def Let_def port only_client_listens_def io_def close_def send_def)
qed


definition ack_env :: env where
  "ack_env = (ok_env (\<lambda>t f. RecvBytes (async_message ''./a'' ''10.0.0.9'' (show_nat 7))))
     \<lparr>sys_connect := (\<lambda>t f a q. a = ''10.0.0.9'' \<and> q = 7)\<rparr>"

lemma ack_env_copies:
  "case copy_to_backups ack_env (Some ''./a'') (io tick (example_ns initialize_cache)) of Inl e \<Rightarrow> False | Inr s1 \<Rightarrow> True"
  by code_simp



lemma client_main_calm:
  "\<exists>c w'. client_main calm_env (calm_host id) [''client'', ''10.0.0.2''] [] \<lparr>clock = 0, trace = []\<rparr> = (Inr (7, 7, c), w') \<and> IPADDR c = ''10.0.0.6''"
proof -
  have "show_int 5000 = ''5000''" by code_simp
  then show ?thesis
    by (simp add: client_main_def bind_async_def own_address_def connect_ns_def listen_and_connect_def new_socket_def must_def asks_def acts_def
        next_do_def goes_def sprintf_def)
qed


section \<open>Creating a path\<close>

lemma path_reply_run:
  assumes "run_op op E (Some path) s = (r, msg, s')" "CHR 0x00 \<notin> set path"
  shows "msg \<noteq> [] \<and> CHR 0x00 \<notin> set msg \<and> length msg < BUFFER_SIZE"
proof -
  obtain t where t: "msg = path_reply t path" "CHR 0x00 \<notin> set t" "t \<noteq> []"
    using assms(1) by (cases op)
      (auto simp: create_directory_def delete_directory_def create_file_def remove_file_def split: prod.splits bool.splits option.splits)
  then have "CHR 0x00 \<notin> set msg" using assms(2)
    by (auto simp: path_reply_def snprintf_def newline_def dest: in_set_takeD)
  moreover have "msg \<noteq> []" using t(3) unfolding t(1) by (cases t) (simp_all add: path_reply_def snprintf_def BUFFER_SIZE_def)
  moreover have "length msg < BUFFER_SIZE" unfolding t(1) path_reply_def by (rule length_snprintf) (simp add: BUFFER_SIZE_def)
  ultimately show ?thesis by blast
qed

text \<open>The naming server takes the reply as the storage server means it.\<close>

lemma confirmed_by_reply:
  assumes "\<forall>t b. sys_send E t fd b = SentBytes (length b)" "sys_recv E (Suc (clock (net s))) fd = RecvBytes msg"
    "msg \<noteq> []" "CHR 0x00 \<notin> set msg" "length msg < BUFFER_SIZE"
  shows "create_confirmed E buffer fd s \<longleftrightarrow> \<not> starts_with ''Could not'' msg"
  using assms by (simp add: create_confirmed_def confirms_def send_good_trace recv_good_def)


definition mkdir_ss :: ss where
  "mkdir_ss = idle_ss\<lparr>inbox := (\<lambda>f. [RecvBytes ''mkdir ./a/x''])\<rparr>"

lemma example_create_on:
  "case create_on created_env ''mkdir ./a/x'' ''mkdir'' ''./a/x'' 3 0 (example_ns initialize_cache) of Inl e \<Rightarrow> False | Inr s1 \<Rightarrow> True"
  by code_simp


section \<open>Reading a file\<close>


definition cat_ss :: ss where
  "cat_ss = idle_ss\<lparr>inbox := (\<lambda>f. [RecvBytes ''cat ./a''])\<rparr>"

definition cat_env :: env where
  "cat_env = calm_env\<lparr>sys_recv := (\<lambda>t f. if f = 3 then RecvBytes ''10.0.0.1,8 '' else if t = 5 then RecvBytes ''old'' else RecvBytes []),
     sys_connect := (\<lambda>t f a p. a = ''10.0.0.1'' \<and> p = 8)\<rparr>"

definition prompt :: client where
  "prompt = \<lparr>cl_net = \<lparr>clock = 0, trace = []\<rparr>, stdin = [], player = [], IPADDR = ''10.0.0.9'', ASYNC_PORT_FOR_CLIENT = ''4000''\<rparr>"

definition prompt_desk :: desk where
  "prompt_desk = \<lparr>popen_ok = True, fwrite_ok = (\<lambda>t. True), block = replicate 4096 (CHR 0x00)\<rparr>"

lemma cat_answers: "answers cat_env (clock (cl_net prompt)) 3 ''10.0.0.1,8 '' 7 ''10.0.0.1'' (int 8) [''old'']"
  by (simp add: answers_def prompt_def cat_env_def calm_env_def delivers_def less_Suc_eq)



definition stream_ss :: ss where
  "stream_ss = idle_ss\<lparr>inbox := (\<lambda>f. [RecvBytes ''stream ./a''])\<rparr>"

definition stream_env :: env where
  "stream_env = calm_env\<lparr>sys_recv := (\<lambda>t f. RecvBytes (if t = 0 then ''ol'' else if t = 1 then ''d'' else []))\<rparr>"

text \<open>A piece, the pause key twice, and the second piece.\<close>

definition paused_stream :: stream where
  "paused_stream = \<lparr>isPaused = False, firstTime = True, over = False, listening = prompt\<lparr>stdin := ''pp''\<rparr>\<rparr>"

lemma paused_stream_run:
  "\<exists>x'. runs (stream_step stream_env prompt_desk 7) paused_stream ((([] @ [True]) @ [False]) @ [False] @ [True]) x'"
proof -
  let ?c1 = "(cl_io tick (prompt\<lparr>stdin := ''pp''\<rparr>))\<lparr>player := ''ol''\<rparr>"
  let ?x1 = "paused_stream\<lparr>firstTime := False, over := False, listening := ?c1\<rparr>"
  have 1: "stream_step stream_env prompt_desk 7 paused_stream True ?x1"
    using stream_step.piece [of paused_stream stream_env prompt_desk 7 True ?c1]
    by (simp add: paused_stream_def play_piece_def stream_env_def prompt_def prompt_desk_def BUFFER_SIZE_FOR_MUSIC_def)
  let ?x2 = "?x1\<lparr>isPaused := True, listening := print (''Playback paused'' @ newline) (?c1\<lparr>stdin := ''p''\<rparr>)\<rparr>"
  have 2: "stream_step stream_env prompt_desk 7 ?x1 False ?x2"
    using stream_step.key [of ?x1 True "print (''Playback paused'' @ newline) (?c1\<lparr>stdin := ''p''\<rparr>)" stream_env prompt_desk 7]
    by (simp add: paused_stream_def handleUserInput_def)
  obtain b c3 where 3: "handleUserInput (isPaused ?x2) (listening ?x2) = (b, c3)" by (cases "handleUserInput (isPaused ?x2) (listening ?x2)")
  then have b: "\<not> b" by (simp add: handleUserInput_def split: if_splits)
  let ?x3 = "?x2\<lparr>isPaused := b, listening := c3\<rparr>"
  obtain go c4 where "play_piece stream_env prompt_desk (firstTime ?x3) 7 (listening ?x3) = (go, c4)"
    by (cases "play_piece stream_env prompt_desk (firstTime ?x3) 7 (listening ?x3)")
  then have 4: "stream_step stream_env prompt_desk 7 ?x3 True (?x3\<lparr>firstTime := False, over := \<not> go, listening := c4\<rparr>)"
    using b by (intro stream_step.piece) (simp_all add: paused_stream_def)
  note snoc = runs_snoc [where step = "stream_step stream_env prompt_desk 7"]
  from snoc [OF snoc [OF snoc [OF snoc [OF runs_Nil 1] 2] stream_step.key [OF 3]] 4] show ?thesis by auto
qed


section \<open>Writing a file\<close>

lemma write_reply_fields:
  assumes "flag = ''-s'' \<or> flag = ''-a''" "write_reply flag srv = Inr reply" "ip (clientInfo srv) = adr" "portClient srv = int prt"
    "prt < 65536" "adr \<noteq> []" "\<forall>x\<in>set adr. is_digit x \<or> x = CHR ''.''" "length adr < 16"
  shows "reply = ok_prefix flag @ ''|'' @ adr @ ''|'' @ show_nat prt" "strtok_all ''|'' reply = [ok_prefix flag, adr, show_nat prt]"
    "CHR 0x00 \<notin> set reply" "length reply < BUFFER_SIZE - 1"
proof -
  have "length (show_nat prt) \<le> 5" using show_nat_length [of prt 5] assms(5) by simp
  then have len: "length (''|'' @ adr @ ''|'' @ show_nat prt) < 30" using assms(8) by simp
  then show eq: "reply = ok_prefix flag @ ''|'' @ adr @ ''|'' @ show_nat prt"
    using assms(1-4) by (auto simp: write_reply_def ok_prefix_def sprintf_def show_int_def BUFFER_SIZE_def split: if_splits)
  have bars: "CHR ''|'' \<notin> set adr" "CHR ''|'' \<notin> set (show_nat prt)" "CHR 0x00 \<notin> set adr" "CHR 0x00 \<notin> set (show_nat prt)"
    using assms(7) show_nat_digits [of "CHR ''|''" prt] show_nat_digits [of "CHR 0x00" prt] by (auto simp: is_digit_def)
  have pre: "CHR ''|'' \<notin> set (ok_prefix flag)" "ok_prefix flag \<noteq> []" "CHR 0x00 \<notin> set (ok_prefix flag)" "length (ok_prefix flag) < 14"
    by (simp_all add: ok_prefix_def)
  have "reply = join CHR ''|'' [ok_prefix flag, adr, show_nat prt]" unfolding eq by simp
  then show "strtok_all ''|'' reply = [ok_prefix flag, adr, show_nat prt]"
    using bars pre assms(6) by (simp only:) (rule strtok_all_join, auto)
  show "CHR 0x00 \<notin> set reply" "length reply < BUFFER_SIZE - 1" unfolding eq using bars pre len by (simp_all add: BUFFER_SIZE_def)
qed

text \<open>C4. End to end: the client types \<^verbatim>\<open>write\<close> with a flag and a path, and then a line of data. With
  the reply of the naming server it connects to exactly the address named there, sends one request with the
  path and the data, and goes on with the input behind that line. A storage server that gets the
  request of a synchronous write appends exactly this line to the file of the path.\<close>

theorem write_end_to_end:
  assumes "flag = ''-s'' \<or> flag = ''-a''" "typed_word path" "CHR ''|'' \<notin> set path" "length path < 89"
    "write_reply flag srv = Inr reply" "ip (clientInfo srv) = adr" "portClient srv = int prt" "prt < 65536"
    "adr \<noteq> []" "\<forall>x\<in>set adr. is_digit x \<or> x = CHR ''.''" "length adr < 16"
    "accepts_write Ec (clock (cl_net c)) fd reply sock adr (int prt)" "CHR 0x00 \<in> set (drop BUFFER_SIZE (block D))"
    "stdin c = dat @ NLINE # rest" "NLINE \<notin> set dat" "word_ok dat"
    "msg = write_request flag path dat c" "CHR 0x00 \<notin> set msg" "length msg < BUFFER_SIZE"
    "ss_wf v" "inbox v fv = RecvBytes msg # ms" "appendable Ev v path p" "lock_free path (reused J v)" "nm_reachable Ev (nm_ip v)"
  shows "(\<exists>c' shown shown'. client_turn k Ec D fd (''write '' @ flag @ '' '' @ path @ newline) c = Inr c' \<and> stdin c' = rest \<and>
      trace (cl_net c') = trace (cl_net c) @ Sent fd (''write '' @ flag @ '' '' @ path) # map Stdout shown @
        Sent sock msg # map Stdout shown') \<and>
    (flag = ''-s'' \<longrightarrow> (\<exists>v'. ss_process_client n Ev J fv v = Inr v' \<and>
      kind_at (fs v') = (kind_at (fs v))(p := File (file_text p v @ dat @ newline))))"
proof (intro conjI impI)
  note fields = write_reply_fields [OF assms(1,5-11)]
  have "starts_with (ok_prefix flag) reply" using fields(1) by (simp add: starts_with_prefix)
  moreover have "accepts_write Ec (clock (cl_net c)) fd reply sock adr (atoi (show_nat prt))" using assms(12) by (simp add: atoi_show_nat)
  ultimately show "\<exists>c' shown shown'. client_turn k Ec D fd (''write '' @ flag @ '' '' @ path @ newline) c = Inr c' \<and> stdin c' = rest \<and>
      trace (cl_net c') = trace (cl_net c) @ Sent fd (''write '' @ flag @ '' '' @ path) # map Stdout shown @ Sent sock msg # map Stdout shown'"
    unfolding assms(17)
    by (intro write_turn [OF assms(1,2,4) _ fields(3,4,2)]) (use assms(13-19) in \<open>simp_all add: BUFFER_SIZE_def\<close>)
  assume "flag = ''-s''"
  then have "msg = join CHR ''|'' [''WRITE_SYNC'', path, dat]" using assms(17) by (simp add: write_request_def)
  moreover have "list_all word_ok [path, dat]" using assms(2,3,16) by (simp add: word_ok_def typed_word_def)
  ultimately show "\<exists>v'. ss_process_client n Ev J fv v = Inr v' \<and> kind_at (fs v') = (kind_at (fs v))(p := File (file_text p v @ dat @ newline))"
    using sync_write_run [OF assms(20) _ _ assms(18,19,21-24), of dat n] by blast
qed

definition write_env :: env where
  "write_env = calm_env\<lparr>sys_recv := (\<lambda>t f. RecvBytes (''PATH_OK_SYNC|10.0.0.1|8'' @ [CHR 0x00])),
     sys_connect := (\<lambda>t f a p. a = ''10.0.0.1'' \<and> p = 8)\<rparr>"

theorem write_end_to_end_witness:
  "(\<exists>c'. client_turn 0 write_env prompt_desk 3 (''write '' @ ''-s'' @ '' '' @ ''./a'' @ newline)
      (prompt\<lparr>stdin := ''hello'' @ NLINE # ''more''\<rparr>) = Inr c' \<and> stdin c' = ''more'') \<and>
   (\<exists>v'. ss_process_client 0 calm_env zero_junk 4 writer_ss = Inr v' \<and> kind_at (fs v') [''a''] = File (''oldhello'' @ newline))"
proof -
  let ?c = "prompt\<lparr>stdin := ''hello'' @ NLINE # ''more''\<rparr>" and ?srv = "example_server 4 ''a''"
  let ?m = "write_request ''-s'' ''./a'' ''hello'' ?c" and ?reply = "''PATH_OK_SYNC|10.0.0.1|8''"
  have path: "''-s'' = ''-s'' \<or> ''-s'' = ''-a''" "typed_word ''./a''" "CHR ''|'' \<notin> set ''./a''" "length ''./a'' < 89"
    by (simp_all add: typed_word_def is_space_def)
  have eight: "show_int 8 = ''8''" by code_simp
  have srv: "write_reply ''-s'' ?srv = Inr ?reply" "ip (clientInfo ?srv) = ''10.0.0.1''" "portClient ?srv = int 8" "(8::nat) < 65536"
    "''10.0.0.1'' \<noteq> []" "\<forall>x\<in>set ''10.0.0.1''. is_digit x \<or> x = CHR ''.''" "length ''10.0.0.1'' < 16"
    by (simp_all add: write_reply_def sprintf_def example_server_def eight BUFFER_SIZE_def is_digit_def)
  have "accepts_write write_env (clock (cl_net ?c)) 3 ?reply 7 ''10.0.0.1'' (int 8)" "CHR 0x00 \<in> set (drop BUFFER_SIZE (block prompt_desk))"
    by (simp_all add: accepts_write_def write_env_def calm_env_def prompt_desk_def BUFFER_SIZE_def)
  moreover have "stdin ?c = ''hello'' @ NLINE # ''more''" "NLINE \<notin> set ''hello''" "word_ok ''hello''" by (simp_all add: NLINE_def word_ok_def)
  moreover have "CHR 0x00 \<notin> set ?m" "length ?m < BUFFER_SIZE" by (simp_all add: write_request_def BUFFER_SIZE_def)
  moreover have ok: "ss_wf writer_ss" "inbox writer_ss 4 = RecvBytes ?m # []" "appendable calm_env writer_ss ''./a'' [''a'']"
    "nm_reachable calm_env (nm_ip writer_ss)" "file_text [''a''] writer_ss = ''old''"
    using idle_ss_ok idle_ss_appendable by (simp_all add: writer_ss_def appendable_def place_def file_text_def write_request_def)
  moreover have "lock_free ''./a'' (reused zero_junk writer_ss)"
    by (simp add: lock_free_def doesLockRequestedFileAlreadExist_def writer_ss_def idle_ss_def reused_def MAX_REQ_def)
  ultimately show ?thesis
    using write_end_to_end [OF path srv, of write_env ?c 3 7 prompt_desk "''hello''" "''more''" ?m writer_ss 4 "[]" calm_env "[''a'']" zero_junk 0 0]
    by (auto simp del: append.simps)
qed

end
